(* ===== verification/Prelude.thy ===== *)
theory Prelude
  imports Main "HOL-Library.Word"
begin

text \<open>
  Shared vocabulary of the development.

  C++ code can do more than return a value: it can fail a \<^verbatim>\<open>FLARE_CHECK\<close> (the process aborts,
  see \<^verbatim>\<open>log_message_fatal::~log_message_fatal\<close> in src/flare/log/logging.cc), it can run into
  undefined behaviour (an access outside of an array, through a null pointer, or a shift by
  more than the width of its operand), or it can loop for ever.  Every operation of the model in
  which one of these is possible returns a value of the sum type \<open>fault + 'a\<close>, and the
  sequencing of such operations is \<open>bindE\<close>.  \<^verbatim>\<open>FLARE_DCHECK\<close> is compiled out of release
  builds and is not modelled.

  Bytes are \<open>8 word\<close>s, a \<^verbatim>\<open>std::string\<close> that is used as a byte buffer is a list of bytes, and
  \<open>bytes_of\<close> turns a string literal of the source into one.
\<close>

unbundle bit_operations_syntax

named_theorems run_simps \<open>rewrite rules for the sequencing of faulting operations\<close>

datatype fault =
    CheckFailed  \<comment> \<open>a \<^verbatim>\<open>FLARE_CHECK\<close> is false: the process aborts\<close>
  | Undefined    \<comment> \<open>undefined behaviour of C++\<close>
  | Diverges     \<comment> \<open>the loop never ends\<close>

type_synonym 'a run = "fault + 'a"

type_synonym byte = "8 word"

type_synonym bytes = "8 word list"

definition bytes_of :: "string \<Rightarrow> bytes" where
  "bytes_of s = map of_char s"

fun bindE :: "'e + 'a \<Rightarrow> ('a \<Rightarrow> 'e + 'b) \<Rightarrow> 'e + 'b" where
  "bindE (Inl e) f = Inl e"
| "bindE (Inr a) f = f a"

fun mapE :: "('a \<Rightarrow> 'b) \<Rightarrow> 'e + 'a \<Rightarrow> 'e + 'b" where
  "mapE f (Inl e) = Inl e"
| "mapE f (Inr a) = Inr (f a)"

text \<open>\<^verbatim>\<open>FLARE_CHECK(b)\<close>.\<close>

definition checkE :: "bool \<Rightarrow> unit run" where
  "checkE b = (if b then Inr () else Inl CheckFailed)"

text \<open>A result of a loop that may run for ever (\<open>None\<close>) as a faulting operation.\<close>

definition runE :: "'a option \<Rightarrow> 'a run" where
  "runE r = (case r of None \<Rightarrow> Inl Diverges | Some a \<Rightarrow> Inr a)"

text \<open>The accumulating loop \<^verbatim>\<open>for (x : xs) s = f(s, x)\<close> for an operation that may fault.\<close>

fun foldE :: "('s \<Rightarrow> 'a \<Rightarrow> 'e + 's) \<Rightarrow> 's \<Rightarrow> 'a list \<Rightarrow> 'e + 's" where
  "foldE f s [] = Inr s"
| "foldE f s (x # xs) = bindE (f s x) (\<lambda>s'. foldE f s' xs)"

text \<open>The last \<open>n\<close> elements of a list (all of them, if there are fewer).\<close>

definition newest :: "nat \<Rightarrow> 'a list \<Rightarrow> 'a list" where
  "newest n xs = drop (length xs - n) xs"

subsection \<open>Sequencing\<close>

lemma bindE_Inr_iff [run_simps]:
  "bindE m f = Inr b \<longleftrightarrow> (\<exists>a. m = Inr a \<and> f a = Inr b)"
  by (cases m) auto

lemma bindE_Inl_iff [run_simps]:
  "bindE m f = Inl e \<longleftrightarrow> m = Inl e \<or> (\<exists>a. m = Inr a \<and> f a = Inl e)"
  by (cases m) auto

lemma mapE_Inr_iff [run_simps]: "mapE f m = Inr b \<longleftrightarrow> (\<exists>a. m = Inr a \<and> b = f a)"
  by (cases m) auto

lemma bindE_cong [fundef_cong]:
  "m = m' \<Longrightarrow> (\<And>a. m' = Inr a \<Longrightarrow> f a = g a) \<Longrightarrow> bindE m f = bindE m' g"
  by (cases m') auto

lemma bindE_assoc: "bindE (bindE m f) g = bindE m (\<lambda>a. bindE (f a) g)"
  by (cases m) auto

lemma checkE_simps [simp]: "checkE True = Inr ()" "checkE False = Inl CheckFailed"
  by (simp_all add: checkE_def)

lemma checkE_Inr_iff [run_simps]: "checkE b = Inr u \<longleftrightarrow> b"
  by (simp add: checkE_def)

lemma runE_simps [simp]: "runE None = Inl Diverges" "runE (Some a) = Inr a"
  by (simp_all add: runE_def)

lemma foldE_append: "foldE f s (xs @ ys) = bindE (foldE f s xs) (\<lambda>s'. foldE f s' ys)"
  by (induction xs arbitrary: s) (auto simp: bindE_assoc)

text \<open>A loop whose body keeps an invariant and never faults under it does not fault.\<close>

lemma foldE_invariant:
  assumes "\<And>s x. I s \<Longrightarrow> x \<in> set xs \<Longrightarrow> \<exists>s'. f s x = Inr s' \<and> I s'"
    and "I s"
  shows "\<exists>s'. foldE f s xs = Inr s' \<and> I s'"
  using assms
proof (induction xs arbitrary: s)
  case Nil
  then show ?case by simp
next
  case (Cons x xs)
  then obtain s1 where "f s x = Inr s1" "I s1"
    by (meson list.set_intros(1))
  with Cons show ?case by simp
qed

subsection \<open>Words\<close>

lemma unat_add_small:
  fixes a b :: "'a::len word"
  assumes "unat a + unat b < 2 ^ LENGTH('a)"
  shows "unat (a + b) = unat a + unat b"
  using assms by (simp add: unat_word_ariths)

lemma unat_of_nat_small: "n < 2 ^ 64 \<Longrightarrow> unat (word_of_nat n :: 64 word) = n"
  by (simp add: unsigned_of_nat take_bit_nat_eq_self_iff)

lemma sint_small:
  assumes "uint (w :: 32 word) < 2 ^ 31" shows "sint w = uint w"
proof -
  have "- (2 ^ 31) \<le> (0 :: int)" by simp
  also have "0 \<le> uint w" by simp
  finally have "- (2 ^ 31) \<le> uint w" .
  with assms show ?thesis by (simp add: sint_uint signed_take_bit_int_eq_self_iff)
qed

lemma bit_unat: "bit (w :: 'a::len word) j \<longleftrightarrow> odd (unat w div 2 ^ j)"
proof -
  have "bit (unat w) j \<longleftrightarrow> bit w j" by (simp add: bit_unsigned_iff)
  then show ?thesis by (simp add: bit_iff_odd)
qed

lemma not_bit_high:
  fixes w :: "'a::len word"
  assumes "unat w < 2 ^ k" "k \<le> i"
  shows "\<not> bit w i"
proof -
  have "(2 :: nat) ^ k \<le> 2 ^ i" using assms(2) by (intro power_increasing) auto
  with assms(1) have "unat w < 2 ^ i" by linarith
  then show ?thesis by (simp add: bit_unat)
qed

lemma unat_sub_small:
  fixes a b :: "'a::len word"
  assumes "unat b \<le> unat a"
  shows "unat (a - b) = unat a - unat b"
  using assms by (simp add: unat_sub word_le_nat_alt)

lemma unat_Suc_less:
  fixes a b :: "'a::len word"
  assumes "a < b"
  shows "unat (a + 1) = Suc (unat a)"
proof -
  have "Suc (unat a) \<le> unat b"
    using assms by (simp add: word_less_nat_alt)
  also have "\<dots> < 2 ^ LENGTH('a)" by simp
  finally show ?thesis by (simp add: unat_word_ariths)
qed

lemma unat_pred:
  fixes a :: "'a::len word"
  assumes "a \<noteq> 0"
  shows "unat (a - 1) = unat a - 1"
  using assms by (simp add: unat_minus_one)

lemma unat_pos: "(a :: 'a::len word) \<noteq> 0 \<longleftrightarrow> 0 < unat a"
  by (simp add: unat_gt_0)

lemma unat_ucast_up:
  fixes a :: "'a::len word"
  assumes "LENGTH('a) \<le> LENGTH('b::len)"
  shows "unat (ucast a :: 'b word) = unat a"
proof -
  have "unat a < 2 ^ LENGTH('a)" by simp
  also have "\<dots> \<le> 2 ^ LENGTH('b)" using assms by (simp add: power_increasing)
  finally show ?thesis by (simp add: unsigned_ucast_eq take_bit_nat_eq_self)
qed

lemma unat_ucast_mod: "unat (ucast (a::'a::len word) :: 'b::len word) = unat a mod 2 ^ LENGTH('b)"
  by (simp add: unsigned_ucast_eq take_bit_eq_mod)

lemma uint_ucast_mod: "uint (ucast (a::'a::len word) :: 'b::len word) = uint a mod 2 ^ LENGTH('b)"
  by (simp add: unsigned_ucast_eq take_bit_eq_mod)

lemma ucast_down_add:
  fixes a b :: "'a::len word"
  assumes "LENGTH('b::len) \<le> LENGTH('a)"
  shows "(ucast (a + b) :: 'b word) = ucast a + ucast b"
proof -
  have "(2::int) ^ LENGTH('b) dvd 2 ^ LENGTH('a)"
    using assms by (rule le_imp_power_dvd)
  then show ?thesis
    by (simp add: word_uint_eq_iff uint_ucast_mod uint_word_ariths mod_simps mod_mod_cancel)
qed

lemma ucast_down_sub:
  fixes a b :: "'a::len word"
  assumes "LENGTH('b::len) \<le> LENGTH('a)"
  shows "(ucast (a - b) :: 'b word) = ucast a - ucast b"
proof -
  have "(2::int) ^ LENGTH('b) dvd 2 ^ LENGTH('a)"
    using assms by (rule le_imp_power_dvd)
  then show ?thesis
    by (simp add: word_uint_eq_iff uint_ucast_mod uint_word_ariths mod_simps mod_mod_cancel)
qed

lemma ucast_up_down:
  fixes a :: "'a::len word"
  assumes "LENGTH('a) \<le> LENGTH('b::len)"
  shows "(ucast (ucast a :: 'b word) :: 'a word) = a"
proof -
  have "uint a < 2 ^ LENGTH('a)" by simp
  also have "(2::int) ^ LENGTH('a) \<le> 2 ^ LENGTH('b)" using assms by (simp add: power_increasing)
  finally show ?thesis
    by (simp add: word_uint_eq_iff uint_ucast_mod)
qed

subsection \<open>Lists\<close>

lemma map_nth_cong:
  assumes "\<And>i. i < n \<Longrightarrow> f i = xs ! i" and "length xs = n"
  shows "map f [0..<n] = xs"
  using assms by (intro nth_equalityI) auto

lemma notin_set_tl: "x \<notin> set xs \<Longrightarrow> x \<notin> set (tl xs)"
  by (cases xs) auto

lemma notin_set_butlast: "x \<notin> set xs \<Longrightarrow> x \<notin> set (butlast xs)"
  by (auto dest: in_set_butlastD)

lemma newest_tl: "n < length xs \<Longrightarrow> newest n (tl xs) = newest n xs"
  by (simp add: newest_def drop_Suc [symmetric] Suc_diff_Suc)

lemma newest_short: "length xs \<le> n \<Longrightarrow> newest n xs = xs"
  by (simp add: newest_def)

lemma nth_tl_Suc: "Suc i < length xs \<Longrightarrow> tl xs ! i = xs ! Suc i"
  by (simp add: nth_tl)

end
