(* ===== verification/Bounded_Queue.thy ===== *)
theory Bounded_Queue
  imports Prelude
begin

text \<open>
  \<^verbatim>\<open>flare::container::bounded_queue\<close> (src/flare/container/bounded_queue.h): a ring buffer of a
  fixed number of slots, with items entering at the bottom and leaving at the top (and, with
  \<^verbatim>\<open>push_top\<close> and \<^verbatim>\<open>pop_bottom\<close>, the other way round).  The HPACK dynamic table and the list of
  servers to avoid in a retry are kept in such queues.

  The memory of the ring is a list of slots, a slot is \<open>None\<close> while no object lives in it.
  Writing outside of the memory, reading or destroying an object that does not live, are
  undefined behaviour.  Counters are 32-bit words, as in the class.
\<close>

datatype storage_owner_ship = OWNS_STORAGE | NOT_OWN_STORAGE

record 'a bounded_queue =
  bq_count :: "32 word"
  bq_cap :: "32 word"
  bq_start :: "32 word"
  bq_ownership :: storage_owner_ship
  bq_items :: "'a option list option"  \<comment> \<open>\<open>None\<close> is the null pointer\<close>

subsection \<open>Model\<close>

text \<open>The loop of \<^verbatim>\<open>_mod\<close> subtracts until the offset is below the capacity.\<close>

partial_function (option) bq_mod_loop :: "32 word \<Rightarrow> 32 word \<Rightarrow> 32 word option" where
  "bq_mod_loop off cp = (if off \<ge> cp then bq_mod_loop (off - cp) cp else Some off)"

definition bq_mod :: "32 word \<Rightarrow> 32 word \<Rightarrow> 32 word run" where
  "bq_mod off cp = runE (bq_mod_loop off cp)"

text \<open>Access to the slot \<^verbatim>\<open>(T*)_items + i\<close>: construct, assign, read, destroy.\<close>

definition slot_construct :: "'a bounded_queue \<Rightarrow> 32 word \<Rightarrow> 'a \<Rightarrow> 'a bounded_queue run" where
  "slot_construct q i x =
     (case bq_items q of
        None \<Rightarrow> Inl Undefined
      | Some m \<Rightarrow> if unat i < length m then Inr (q\<lparr>bq_items := Some (m[unat i := Some x])\<rparr>)
                  else Inl Undefined)"

definition slot_read :: "'a bounded_queue \<Rightarrow> 32 word \<Rightarrow> 'a run" where
  "slot_read q i =
     (case bq_items q of
        None \<Rightarrow> Inl Undefined
      | Some m \<Rightarrow> if unat i < length m
                  then (case m ! unat i of None \<Rightarrow> Inl Undefined | Some x \<Rightarrow> Inr x)
                  else Inl Undefined)"

definition slot_assign :: "'a bounded_queue \<Rightarrow> 32 word \<Rightarrow> 'a \<Rightarrow> 'a bounded_queue run" where
  "slot_assign q i x = bindE (slot_read q i) (\<lambda>_. slot_construct q i x)"

definition slot_destroy :: "'a bounded_queue \<Rightarrow> 32 word \<Rightarrow> 'a bounded_queue run" where
  "slot_destroy q i =
     bindE (slot_read q i) (\<lambda>_.
       Inr (q\<lparr>bq_items := map_option (\<lambda>m. m[unat i := None]) (bq_items q)\<rparr>))"

text \<open>
  The constructors.  \<open>mem\<close> is the memory that is handed over (or what \<^verbatim>\<open>malloc\<close> returns), of
  \<^verbatim>\<open>memsize / sizeof(T)\<close> slots.
\<close>

definition bq_create ::
  "'a option list option \<Rightarrow> 64 word \<Rightarrow> 64 word \<Rightarrow> storage_owner_ship \<Rightarrow> 'a bounded_queue" where
  "bq_create mem memsize sizeof ownership =
     \<lparr>bq_count = 0, bq_cap = ucast (memsize div sizeof), bq_start = 0, bq_ownership = ownership,
      bq_items = mem\<rparr>"

definition bq_create_cap :: "'a option list option \<Rightarrow> 64 word \<Rightarrow> 'a bounded_queue" where
  "bq_create_cap mem capacity =
     \<lparr>bq_count = 0, bq_cap = ucast capacity, bq_start = 0, bq_ownership = OWNS_STORAGE,
      bq_items = mem\<rparr>"

definition bq_empty_queue :: "'a bounded_queue" where
  "bq_empty_queue =
     \<lparr>bq_count = 0, bq_cap = 0, bq_start = 0, bq_ownership = NOT_OWN_STORAGE, bq_items = None\<rparr>"

definition bq_push :: "'a \<Rightarrow> 'a bounded_queue \<Rightarrow> (bool \<times> 'a bounded_queue) run" where
  "bq_push item q =
     (if bq_count q < bq_cap q
      then bindE (bq_mod (bq_start q + bq_count q) (bq_cap q)) (\<lambda>i.
           bindE (slot_construct q i item) (\<lambda>q'.
             Inr (True, q'\<lparr>bq_count := bq_count q + 1\<rparr>)))
      else Inr (False, q))"

definition bq_elim_push :: "'a \<Rightarrow> 'a bounded_queue \<Rightarrow> 'a bounded_queue run" where
  "bq_elim_push item q =
     (if bq_count q < bq_cap q
      then bindE (bq_mod (bq_start q + bq_count q) (bq_cap q)) (\<lambda>i.
           bindE (slot_construct q i item) (\<lambda>q'.
             Inr (q'\<lparr>bq_count := bq_count q + 1\<rparr>)))
      else bindE (slot_assign q (bq_start q) item) (\<lambda>q'.
           bindE (bq_mod (bq_start q + 1) (bq_cap q)) (\<lambda>s.
             Inr (q'\<lparr>bq_start := s\<rparr>))))"

text \<open>\<^verbatim>\<open>T* push()\<close> and \<^verbatim>\<open>T* push_top()\<close> construct a default item and return where it lives.\<close>

definition bq_push_default ::
  "'a \<Rightarrow> 'a bounded_queue \<Rightarrow> (32 word option \<times> 'a bounded_queue) run" where
  "bq_push_default dflt q =
     (if bq_count q < bq_cap q
      then bindE (bq_mod (bq_start q + bq_count q) (bq_cap q)) (\<lambda>i.
           bindE (slot_construct q i dflt) (\<lambda>q'.
             Inr (Some i, q'\<lparr>bq_count := bq_count q + 1\<rparr>)))
      else Inr (None, q))"

definition bq_push_top :: "'a \<Rightarrow> 'a bounded_queue \<Rightarrow> (bool \<times> 'a bounded_queue) run" where
  "bq_push_top item q =
     (if bq_count q < bq_cap q
      then let s = (if bq_start q \<noteq> 0 then bq_start q - 1 else bq_cap q - 1) in
           bindE (slot_construct (q\<lparr>bq_start := s, bq_count := bq_count q + 1\<rparr>) s item) (\<lambda>q'.
             Inr (True, q'))
      else Inr (False, q))"

definition bq_push_top_default ::
  "'a \<Rightarrow> 'a bounded_queue \<Rightarrow> (32 word option \<times> 'a bounded_queue) run" where
  "bq_push_top_default dflt q =
     (if bq_count q < bq_cap q
      then let s = (if bq_start q \<noteq> 0 then bq_start q - 1 else bq_cap q - 1) in
           bindE (slot_construct (q\<lparr>bq_start := s, bq_count := bq_count q + 1\<rparr>) s dflt) (\<lambda>q'.
             Inr (Some s, q'))
      else Inr (None, q))"

definition bq_pop :: "'a bounded_queue \<Rightarrow> (bool \<times> 'a bounded_queue) run" where
  "bq_pop q =
     (if bq_count q \<noteq> 0
      then bindE (slot_destroy q (bq_start q)) (\<lambda>q'.
           bindE (bq_mod (bq_start q + 1) (bq_cap q)) (\<lambda>s.
             Inr (True, q'\<lparr>bq_count := bq_count q - 1, bq_start := s\<rparr>)))
      else Inr (False, q))"

definition bq_pop_item :: "'a bounded_queue \<Rightarrow> ('a option \<times> 'a bounded_queue) run" where
  "bq_pop_item q =
     (if bq_count q \<noteq> 0
      then bindE (slot_read q (bq_start q)) (\<lambda>x.
           bindE (slot_destroy q (bq_start q)) (\<lambda>q'.
           bindE (bq_mod (bq_start q + 1) (bq_cap q)) (\<lambda>s.
             Inr (Some x, q'\<lparr>bq_count := bq_count q - 1, bq_start := s\<rparr>))))
      else Inr (None, q))"

definition bq_pop_bottom :: "'a bounded_queue \<Rightarrow> (bool \<times> 'a bounded_queue) run" where
  "bq_pop_bottom q =
     (if bq_count q \<noteq> 0
      then bindE (bq_mod (bq_start q + (bq_count q - 1)) (bq_cap q)) (\<lambda>i.
           bindE (slot_destroy q i) (\<lambda>q'.
             Inr (True, q'\<lparr>bq_count := bq_count q - 1\<rparr>)))
      else Inr (False, q))"

definition bq_pop_bottom_item :: "'a bounded_queue \<Rightarrow> ('a option \<times> 'a bounded_queue) run" where
  "bq_pop_bottom_item q =
     (if bq_count q \<noteq> 0
      then bindE (bq_mod (bq_start q + (bq_count q - 1)) (bq_cap q)) (\<lambda>i.
           bindE (slot_read q i) (\<lambda>x.
           bindE (slot_destroy q i) (\<lambda>q'.
             Inr (Some x, q'\<lparr>bq_count := bq_count q - 1\<rparr>))))
      else Inr (None, q))"

text \<open>\<^verbatim>\<open>clear\<close> destroys the items one by one; \<open>k\<close> counts the iterations left.\<close>

fun bq_clear_loop :: "nat \<Rightarrow> 32 word \<Rightarrow> 'a bounded_queue \<Rightarrow> 'a bounded_queue run" where
  "bq_clear_loop 0 i q = Inr q"
| "bq_clear_loop (Suc k) i q =
     bindE (bq_mod (bq_start q + i) (bq_cap q)) (\<lambda>j.
     bindE (slot_destroy q j) (\<lambda>q'. bq_clear_loop k (i + 1) q'))"

definition bq_clear :: "'a bounded_queue \<Rightarrow> 'a bounded_queue run" where
  "bq_clear q =
     bindE (bq_clear_loop (unat (bq_count q)) 0 q) (\<lambda>q'.
       Inr (q'\<lparr>bq_count := 0, bq_start := 0\<rparr>))"

text \<open>The destructor: memory that is owned is freed.\<close>

definition bq_destroy :: "'a bounded_queue \<Rightarrow> 'a bounded_queue run" where
  "bq_destroy q =
     bindE (bq_clear q) (\<lambda>q'.
       Inr (if bq_ownership q' = OWNS_STORAGE then q'\<lparr>bq_items := None\<rparr> else q'))"

text \<open>The accessors return the item they point to, \<open>None\<close> for the null pointer.\<close>

definition bq_top :: "'a bounded_queue \<Rightarrow> 'a option run" where
  "bq_top q = (if bq_count q \<noteq> 0 then mapE Some (slot_read q (bq_start q)) else Inr None)"

definition bq_top_at :: "64 word \<Rightarrow> 'a bounded_queue \<Rightarrow> 'a option run" where
  "bq_top_at index q =
     (if index < ucast (bq_count q)
      then bindE (bq_mod (ucast (ucast (bq_start q) + index)) (bq_cap q)) (\<lambda>i.
             mapE Some (slot_read q i))
      else Inr None)"

definition bq_bottom :: "'a bounded_queue \<Rightarrow> 'a option run" where
  "bq_bottom q =
     (if bq_count q \<noteq> 0
      then bindE (bq_mod (bq_start q + bq_count q - 1) (bq_cap q)) (\<lambda>i. mapE Some (slot_read q i))
      else Inr None)"

definition bq_bottom_at :: "64 word \<Rightarrow> 'a bounded_queue \<Rightarrow> 'a option run" where
  "bq_bottom_at index q =
     (if index < ucast (bq_count q)
      then bindE (bq_mod (ucast (ucast (bq_start q + bq_count q) - index - 1)) (bq_cap q)) (\<lambda>i.
             mapE Some (slot_read q i))
      else Inr None)"

definition bq_is_empty :: "'a bounded_queue \<Rightarrow> bool" where
  "bq_is_empty q \<longleftrightarrow> bq_count q = 0"

definition bq_full :: "'a bounded_queue \<Rightarrow> bool" where
  "bq_full q \<longleftrightarrow> bq_cap q = bq_count q"

definition bq_size :: "'a bounded_queue \<Rightarrow> 64 word" where
  "bq_size q = ucast (bq_count q)"

definition bq_capacity :: "'a bounded_queue \<Rightarrow> 64 word" where
  "bq_capacity q = ucast (bq_cap q)"

definition bq_initialized :: "'a bounded_queue \<Rightarrow> bool" where
  "bq_initialized q \<longleftrightarrow> bq_items q \<noteq> None"

definition bq_swap ::
  "'a bounded_queue \<Rightarrow> 'a bounded_queue \<Rightarrow> 'a bounded_queue \<times> 'a bounded_queue" where
  "bq_swap a b = (b, a)"

subsection \<open>The sequence a ring buffer stands for\<close>

text \<open>
  \<open>ring m s n\<close> are the \<open>n\<close> slots from position \<open>s\<close> on, around the end of the memory;
  \<open>bq_list\<close> is the abstract state, the items from the top to the bottom.  The invariant bounds the
  capacity by \<open>2 ^ 31\<close>: above it \<^verbatim>\<open>_start + _count\<close> can wrap around.
\<close>

definition ring :: "'a option list \<Rightarrow> nat \<Rightarrow> nat \<Rightarrow> 'a option list" where
  "ring m s n = map (\<lambda>i. m ! ((s + i) mod length m)) [0..<n]"

definition bq_mem :: "'a bounded_queue \<Rightarrow> 'a option list" where
  "bq_mem q = (case bq_items q of None \<Rightarrow> [] | Some m \<Rightarrow> m)"

definition bq_list :: "'a bounded_queue \<Rightarrow> 'a list" where
  "bq_list q = map the (ring (bq_mem q) (unat (bq_start q)) (unat (bq_count q)))"

definition bq_inv :: "'a bounded_queue \<Rightarrow> bool" where
  "bq_inv q \<longleftrightarrow>
     length (bq_mem q) = unat (bq_cap q) \<and> bq_count q \<le> bq_cap q \<and> unat (bq_cap q) \<le> 2 ^ 31 \<and>
     (if bq_cap q = 0 then bq_start q = 0 else bq_start q < bq_cap q) \<and>
     None \<notin> set (ring (bq_mem q) (unat (bq_start q)) (unat (bq_count q)))"

abbreviation bq_ring :: "'a bounded_queue \<Rightarrow> 'a option list" where
  "bq_ring q \<equiv> ring (bq_mem q) (unat (bq_start q)) (unat (bq_count q))"

subsection \<open>The loop of \<^verbatim>\<open>_mod\<close>\<close>

lemma bq_mod_loop_eq: "cp \<noteq> 0 \<Longrightarrow> bq_mod_loop off cp = Some (off mod cp)"
proof (induction "unat off" arbitrary: off rule: less_induct)
  case less
  show ?case
  proof (cases "cp \<le> off")
    case True
    have "unat (off - cp) < unat off"
      using True less.prems by (simp add: unat_sub word_le_nat_alt unat_pos)
    then have "bq_mod_loop (off - cp) cp = Some ((off - cp) mod cp)"
      using less by blast
    moreover have "(off - cp) mod cp = off mod cp"
      using True by (simp add: word_eq_iff_unsigned unat_mod_distrib unat_sub word_le_nat_alt
          le_mod_geq word_unat_eq_iff)
    ultimately show ?thesis
      using True by (simp add: bq_mod_loop.simps [of off])
  next
    case False
    then have "off mod cp = off"
      by (simp add: word_unat_eq_iff unat_mod_distrib word_le_nat_alt)
    with False show ?thesis
      by (simp add: bq_mod_loop.simps [of off])
  qed
qed

subsection \<open>Rings\<close>

lemma length_ring [simp]: "length (ring m s n) = n"
  by (simp add: ring_def)

lemma nth_ring: "i < n \<Longrightarrow> ring m s n ! i = m ! ((s + i) mod length m)"
  by (simp add: ring_def)

lemma mod_add_inj_le:
  fixes s i j c :: nat
  assumes "i \<le> j" "j < c" "(s + i) mod c = (s + j) mod c"
  shows "i = j"
proof -
  have "c dvd (s + j) - (s + i)"
    using assms by (metis mod_eq_dvd_iff_nat nat_add_left_cancel_le)
  then have "c dvd j - i" by simp
  with assms show ?thesis
    by (metis diff_is_0_eq dvd_imp_le le_antisym less_imp_diff_less not_less zero_less_diff)
qed

lemma mod_add_inj:
  fixes s i j c :: nat
  assumes "i < c" "j < c"
  shows "(s + i) mod c = (s + j) mod c \<longleftrightarrow> i = j"
  using assms mod_add_inj_le [of i j c s] mod_add_inj_le [of j i c s] by (cases "i \<le> j") auto

lemma ring_update_other:
  assumes "n \<le> length m" "k < length m" "n \<le> k"
  shows "ring (m[(s + k) mod length m := x]) s n = ring m s n"
proof -
  have "(s + k) mod length m \<noteq> (s + i) mod length m" if "i < n" for i
    using assms that by (subst mod_add_inj) auto
  then show ?thesis by (simp add: ring_def)
qed

lemma ring_snoc:
  assumes "n < length m"
  shows "ring (m[(s + n) mod length m := x]) s (Suc n) = ring m s n @ [x]"
proof -
  have pos: "(s + n) mod length m < length m"
    using assms by (intro mod_less_divisor) auto
  have "ring (m[(s + n) mod length m := x]) s (Suc n)
      = ring (m[(s + n) mod length m := x]) s n @ [m[(s + n) mod length m := x] ! ((s + n) mod length m)]"
    by (simp add: ring_def)
  also have "\<dots> = ring m s n @ [x]"
    using assms pos by (simp add: ring_update_other)
  finally show ?thesis .
qed

lemma ring_Suc_start: "ring m (Suc s mod length m) n = tl (ring m s (Suc n))"
  by (simp add: ring_def mod_simps map_Suc_upt [symmetric] upt_rec [of 0 "Suc n"] del: upt_Suc)

lemma ring_start_mod: "ring m (s mod length m) n = ring m s n"
  by (simp add: ring_def mod_simps)

lemma ring_Suc: "ring m s (Suc n) = m ! (s mod length m) # ring m (Suc s mod length m) n"
  by (simp add: ring_Suc_start nth_ring hd_conv_nth [symmetric] ring_def upt_rec [of 0 "Suc n"] mod_simps map_Suc_upt [symmetric] del: upt_Suc)

lemma ring_pop:
  assumes "n \<le> length m" "0 < n"
  shows "ring (m[s mod length m := x]) (Suc s mod length m) (n - 1) = tl (ring m s n)"
proof -
  obtain k where n: "n = Suc k" using assms by (cases n) auto
  have "tl (ring (m[s mod length m := x]) s (Suc k)) = tl (ring m s (Suc k))"
  proof (intro nth_equalityI)
    fix i assume "i < length (tl (ring (m[s mod length m := x]) s (Suc k)))"
    then have i: "i < k" by simp
    then have "(s + Suc i) mod length m \<noteq> (s + 0) mod length m"
      using assms n by (subst mod_add_inj) auto
    then show "tl (ring (m[s mod length m := x]) s (Suc k)) ! i = tl (ring m s (Suc k)) ! i"
      using i by (simp add: nth_tl nth_ring)
  qed simp
  then show ?thesis
    using ring_Suc_start [of "m[s mod length m := x]" s k] by (simp add: n)
qed

lemma ring_elim:
  assumes "0 < length m"
  shows "ring (m[s mod length m := x]) (Suc s mod length m) (length m) = tl (ring m s (length m)) @ [x]"
proof -
  obtain k where k: "length m = Suc k" using assms by (cases m) auto
  have pos: "(Suc s + k) mod length m = s mod length m"
    using mod_add_self2 [of s "length m"] by (simp add: k)
  have "ring (m[s mod length m := x]) (Suc s mod length m) (Suc k)
      = ring (m[s mod length m := x]) (Suc s mod length m) k @ [x]"
    using assms pos by (simp add: ring_def k mod_simps)
  also have "ring (m[s mod length m := x]) (Suc s mod length m) k = tl (ring m s (length m))"
    using ring_pop [of "length m" m s x] assms k by simp
  finally show ?thesis by (simp add: k)
qed

lemma ring_cons:
  assumes "n < length m" "s < length m"
  defines "s' \<equiv> (if s \<noteq> 0 then s - 1 else length m - 1)"
  shows "ring (m[s' := x]) s' (Suc n) = x # ring m s n"
proof -
  have s': "s' < length m" "Suc s' mod length m = s"
    using assms by (auto simp: s'_def)
  have pos: "(s + (length m - 1)) mod length m = s'"
    using assms by (cases "s = 0") (auto simp: s'_def mod_if)
  have "ring (m[s' := x]) s' (Suc n) = x # ring (m[s' := x]) s n"
    using s' by (simp add: ring_Suc)
  also have "ring (m[s' := x]) s n = ring m s n"
    using ring_update_other [of n m "length m - 1" s x] assms pos by auto
  finally show ?thesis .
qed

lemma ring_butlast:
  assumes "n \<le> length m" "0 < n"
  shows "ring (m[(s + (n - 1)) mod length m := x]) s (n - 1) = butlast (ring m s n)"
proof -
  obtain k where n: "n = Suc k" using assms by (cases n) auto
  have "butlast (ring m s (Suc k)) = ring m s k"
    by (simp add: ring_def)
  then show ?thesis
    using assms n by (simp add: ring_update_other)
qed

subsection \<open>Operations on the sequence\<close>

lemma bq_mod_eq: "cp \<noteq> 0 \<Longrightarrow> bq_mod off cp = Inr (off mod cp)"
  by (simp add: bq_mod_def bq_mod_loop_eq)

lemma bq_mod_loop_less: "bq_mod_loop off cp = Some r \<Longrightarrow> r < cp"
proof (rule bq_mod_loop.raw_induct [where P = "\<lambda>off cp r. r < cp"])
  fix f :: "32 word \<Rightarrow> 32 word \<Rightarrow> 32 word option" and off cp r :: "32 word"
  assume "\<And>off cp r. f off cp = Some r \<Longrightarrow> r < cp"
    and "(if cp \<le> off then f (off - cp) cp else Some off) = Some r"
  then show "r < cp" by (auto split: if_splits)
qed

lemma bq_mod_zero: "bq_mod off 0 = Inl Diverges"
proof -
  have "bq_mod_loop off 0 = None"
    using bq_mod_loop_less [of off 0] by (cases "bq_mod_loop off 0") auto
  then show ?thesis by (simp add: bq_mod_def)
qed

lemma length_bq_list [simp]: "length (bq_list q) = unat (bq_count q)"
  by (simp add: bq_list_def)

lemma slot_construct_eq:
  "unat i < length (bq_mem q) \<Longrightarrow>
   slot_construct q i x = Inr (q\<lparr>bq_items := Some ((bq_mem q)[unat i := Some x])\<rparr>)"
  by (auto simp: slot_construct_def bq_mem_def split: option.splits)

lemma slot_read_eq:
  "unat i < length (bq_mem q) \<Longrightarrow> bq_mem q ! unat i = Some x \<Longrightarrow> slot_read q i = Inr x"
  by (auto simp: slot_read_def bq_mem_def split: option.splits)

lemma slot_assign_eq:
  "unat i < length (bq_mem q) \<Longrightarrow> bq_mem q ! unat i \<noteq> None \<Longrightarrow>
   slot_assign q i x = Inr (q\<lparr>bq_items := Some ((bq_mem q)[unat i := Some x])\<rparr>)"
  by (auto simp: slot_assign_def slot_read_eq slot_construct_eq)

lemma slot_destroy_eq:
  "unat i < length (bq_mem q) \<Longrightarrow> bq_mem q ! unat i \<noteq> None \<Longrightarrow>
   slot_destroy q i = Inr (q\<lparr>bq_items := Some ((bq_mem q)[unat i := None])\<rparr>)"
  by (auto simp: slot_destroy_def slot_read_eq) (auto simp: bq_mem_def split: option.splits)

lemma bq_mem_simps [simp]:
  "bq_mem (q\<lparr>bq_items := Some m\<rparr>) = m"
  "bq_mem (q\<lparr>bq_count := c\<rparr>) = bq_mem q"
  "bq_mem (q\<lparr>bq_start := c\<rparr>) = bq_mem q"
  by (simp_all add: bq_mem_def)

lemma bq_invD:
  assumes "bq_inv q"
  shows "length (bq_mem q) = unat (bq_cap q)"
    and "unat (bq_count q) \<le> unat (bq_cap q)"
    and "unat (bq_cap q) \<le> 2 ^ 31"
    and "bq_cap q \<noteq> 0 \<Longrightarrow> unat (bq_start q) < unat (bq_cap q)"
    and "\<And>i. i < unat (bq_count q) \<Longrightarrow>
           bq_mem q ! ((unat (bq_start q) + i) mod unat (bq_cap q)) \<noteq> None"
proof -
  show len: "length (bq_mem q) = unat (bq_cap q)"
    and "unat (bq_count q) \<le> unat (bq_cap q)" and "unat (bq_cap q) \<le> 2 ^ 31"
    and "bq_cap q \<noteq> 0 \<Longrightarrow> unat (bq_start q) < unat (bq_cap q)"
    using assms by (auto simp: bq_inv_def word_le_nat_alt word_less_nat_alt)
  show "bq_mem q ! ((unat (bq_start q) + i) mod unat (bq_cap q)) \<noteq> None"
    if "i < unat (bq_count q)" for i
    using assms that unfolding bq_inv_def
    by (metis in_set_conv_nth length_ring len nth_ring)
qed

text \<open>The position of the \<open>k\<close>-th item, as the code computes it.\<close>

lemma unat_ring_position:
  fixes s k c :: "32 word"
  assumes "unat s < unat c" "unat k \<le> unat c" "unat c \<le> 2 ^ 31"
  shows "unat ((s + k) mod c) = (unat s + unat k) mod unat c"
proof -
  have "unat s + unat k < 2 ^ 32" using assms by simp
  then have "unat (s + k) = unat s + unat k"
    by (intro unat_add_small) simp
  then show ?thesis by (simp add: unat_mod_distrib)
qed

lemma bq_position:
  assumes "bq_inv q" "k \<le> bq_cap q" "bq_cap q \<noteq> 0"
  shows "bq_mod (bq_start q + k) (bq_cap q) = Inr ((bq_start q + k) mod bq_cap q)"
    and "unat ((bq_start q + k) mod bq_cap q) = (unat (bq_start q) + unat k) mod unat (bq_cap q)"
    and "unat ((bq_start q + k) mod bq_cap q) < length (bq_mem q)"
proof -
  note D = bq_invD [OF assms(1)]
  show pos: "unat ((bq_start q + k) mod bq_cap q) = (unat (bq_start q) + unat k) mod unat (bq_cap q)"
    using D assms by (intro unat_ring_position) (auto simp: word_le_nat_alt)
  show "unat ((bq_start q + k) mod bq_cap q) < length (bq_mem q)"
    using D(1) assms(3) by (simp add: pos unat_pos)
  show "bq_mod (bq_start q + k) (bq_cap q) = Inr ((bq_start q + k) mod bq_cap q)"
    using assms(3) by (rule bq_mod_eq)
qed

lemma bq_invI:
  assumes "length (bq_mem q) = unat (bq_cap q)" "bq_count q \<le> bq_cap q" "unat (bq_cap q) \<le> 2 ^ 31"
    "bq_cap q \<noteq> 0" "unat (bq_start q) < unat (bq_cap q)"
    "ring (bq_mem q) (unat (bq_start q)) (unat (bq_count q)) = xs" "None \<notin> set xs"
  shows "bq_inv q" "bq_list q = map the xs"
  using assms by (auto simp: bq_inv_def bq_list_def word_less_nat_alt)

lemma bq_ring_alive: "bq_inv q \<Longrightarrow> None \<notin> set (bq_ring q)"
  by (simp add: bq_inv_def)

lemma bq_push_spec:
  assumes "bq_inv q"
  shows "\<exists>q'. bq_push x q = Inr (length (bq_list q) < unat (bq_cap q), q') \<and> bq_inv q' \<and>
    bq_cap q' = bq_cap q \<and>
    bq_list q' = (if length (bq_list q) < unat (bq_cap q) then bq_list q @ [x] else bq_list q)"
proof (cases "bq_count q < bq_cap q")
  case False
  with assms show ?thesis by (auto simp: bq_push_def word_less_nat_alt)
next
  case True
  note D = bq_invD [OF assms]
  have nz: "bq_cap q \<noteq> 0" using True by auto
  have le: "bq_count q \<le> bq_cap q" using True by simp
  note P = bq_position [OF assms le nz]
  let ?i = "(bq_start q + bq_count q) mod bq_cap q"
  let ?q = "q\<lparr>bq_items := Some ((bq_mem q)[unat ?i := Some x]), bq_count := bq_count q + 1\<rparr>"
  have cnt: "unat (bq_count q + 1) = Suc (unat (bq_count q))"
    using True by (rule unat_Suc_less)
  have "bq_ring ?q = bq_ring q @ [Some x]"
    using ring_snoc [of "unat (bq_count q)" "bq_mem q" "unat (bq_start q)" "Some x"] True D P
    by (simp add: cnt word_less_nat_alt)
  then have "bq_inv ?q \<and> bq_list ?q = map the (bq_ring q @ [Some x])"
    using bq_invI [of ?q "bq_ring q @ [Some x]"] D nz True bq_ring_alive [OF assms] cnt
    by (auto simp: word_le_nat_alt word_less_nat_alt)
  moreover have "bq_push x q = Inr (True, ?q)"
    using True P by (simp add: bq_push_def slot_construct_eq)
  ultimately show ?thesis
    using True by (auto simp: word_less_nat_alt bq_list_def)
qed

lemma bq_elim_push_spec:
  assumes "bq_inv q" "bq_cap q \<noteq> 0"
  shows "\<exists>q'. bq_elim_push x q = Inr q' \<and> bq_inv q' \<and> bq_cap q' = bq_cap q \<and>
    bq_list q' = (if length (bq_list q) < unat (bq_cap q) then bq_list q @ [x]
                  else tl (bq_list q) @ [x])"
proof (cases "bq_count q < bq_cap q")
  case True
  have "bq_elim_push x q = mapE snd (bq_push x q)"
    using True bq_position [OF assms(1) _ assms(2), of "bq_count q"]
    by (simp add: bq_elim_push_def bq_push_def slot_construct_eq)
  with bq_push_spec [OF assms(1), of x] show ?thesis
    using True by (auto simp: word_less_nat_alt)
next
  case False
  note D = bq_invD [OF assms(1)]
  have full: "bq_count q = bq_cap q" using False assms by (simp add: bq_inv_def)
  let ?s = "(bq_start q + 1) mod bq_cap q"
  let ?q = "q\<lparr>bq_items := Some ((bq_mem q)[unat (bq_start q) := Some x]), bq_start := ?s\<rparr>"
  have "(1 :: 32 word) \<le> bq_cap q"
    using assms(2) by (simp add: word_le_nat_alt unat_pos Suc_le_eq)
  note P = bq_position [OF assms(1) this assms(2)]
  have st: "unat (bq_start q) mod unat (bq_cap q) = unat (bq_start q)"
    using D(4) assms(2) by simp
  have alive: "bq_mem q ! unat (bq_start q) \<noteq> None"
    using D(5) [of 0] assms(2) full st by (simp add: unat_pos)
  have "bq_ring ?q = tl (bq_ring q) @ [Some x]"
    using ring_elim [of "bq_mem q" "unat (bq_start q)" "Some x"] D P st assms(2) full
    by (simp add: unat_pos)
  moreover have "None \<notin> set (tl (bq_ring q) @ [Some x])"
    using bq_ring_alive [OF assms(1)] by (simp add: notin_set_tl)
  ultimately have "bq_inv ?q \<and> bq_list ?q = map the (tl (bq_ring q) @ [Some x])"
    using bq_invI [of ?q "tl (bq_ring q) @ [Some x]"] D assms(2) full P
    by auto
  moreover have "bq_elim_push x q = Inr ?q"
    using False P D(1) D(4) [OF assms(2)] alive by (simp add: bq_elim_push_def slot_assign_eq)
  ultimately show ?thesis
    using False by (auto simp: word_less_nat_alt bq_list_def map_tl)
qed

lemma bq_pop_item_spec:
  assumes "bq_inv q"
  shows "\<exists>q'. bq_pop_item q = Inr (case bq_list q of [] \<Rightarrow> None | x # _ \<Rightarrow> Some x, q') \<and>
    bq_inv q' \<and> bq_cap q' = bq_cap q \<and> bq_list q' = tl (bq_list q)"
proof (cases "bq_count q = 0")
  case True
  then show ?thesis using assms by (auto simp: bq_pop_item_def bq_list_def ring_def)
next
  case False
  note D = bq_invD [OF assms]
  have nz: "bq_cap q \<noteq> 0" using False assms by (auto simp: bq_inv_def)
  let ?s = "(bq_start q + 1) mod bq_cap q"
  let ?q = "q\<lparr>bq_items := Some ((bq_mem q)[unat (bq_start q) := None]),
             bq_count := bq_count q - 1, bq_start := ?s\<rparr>"
  have "(1 :: 32 word) \<le> bq_cap q"
    using nz by (simp add: word_le_nat_alt unat_pos Suc_le_eq)
  note P = bq_position [OF assms this nz]
  have st: "unat (bq_start q) mod unat (bq_cap q) = unat (bq_start q)"
    using D(4) nz by simp
  have cnt: "unat (bq_count q - 1) = unat (bq_count q) - 1"
    using False by (rule unat_pred)
  obtain x where x: "bq_mem q ! unat (bq_start q) = Some x"
    using D(5) [of 0] False st by (auto simp: unat_pos)
  have hd: "bq_list q = x # tl (bq_list q)"
    using x st False D(1)
    by (cases "unat (bq_count q)") (auto simp: bq_list_def ring_Suc unat_pos)
  have "bq_ring ?q = tl (bq_ring q)"
    using ring_pop [of "unat (bq_count q)" "bq_mem q" "unat (bq_start q)" None] D P st False cnt
    by (simp add: unat_pos)
  moreover have "None \<notin> set (tl (bq_ring q))"
    using bq_ring_alive [OF assms] by (simp add: notin_set_tl)
  ultimately have "bq_inv ?q \<and> bq_list ?q = map the (tl (bq_ring q))"
    using bq_invI [of ?q "tl (bq_ring q)"] D nz P cnt
    by (auto simp: word_le_nat_alt)
  moreover have "bq_pop_item q = Inr (Some x, ?q)"
    using False P D(1) D(4) [OF nz] x
    by (simp add: bq_pop_item_def slot_destroy_eq slot_read_eq)
  moreover have "(case bq_list q of [] \<Rightarrow> None | x # _ \<Rightarrow> Some x) = Some x"
    by (subst hd) simp
  ultimately show ?thesis
    using False by (auto simp: bq_list_def map_tl)
qed

lemma bq_pop_eq: "bq_inv q \<Longrightarrow> bq_pop q = mapE (\<lambda>(x, q'). (x \<noteq> None, q')) (bq_pop_item q)"
  using bq_pop_item_spec [of q]
  by (auto simp: bq_pop_def bq_pop_item_def run_simps slot_destroy_def bindE_assoc
      split: list.splits)

lemma bq_list_eq_Nil_iff: "bq_list q = [] \<longleftrightarrow> bq_count q = 0"
  by (metis length_0_conv length_bq_list unat_eq_0)

lemma bq_pop_spec:
  assumes "bq_inv q"
  shows "\<exists>q'. bq_pop q = Inr (bq_list q \<noteq> [], q') \<and> bq_inv q' \<and> bq_cap q' = bq_cap q \<and>
    bq_list q' = tl (bq_list q)"
  using bq_pop_item_spec [OF assms] by (auto simp: bq_pop_eq [OF assms] split: list.splits)

lemma bq_push_top_spec:
  assumes "bq_inv q"
  shows "\<exists>q'. bq_push_top x q = Inr (length (bq_list q) < unat (bq_cap q), q') \<and> bq_inv q' \<and>
    bq_cap q' = bq_cap q \<and>
    bq_list q' = (if length (bq_list q) < unat (bq_cap q) then x # bq_list q else bq_list q)"
proof (cases "bq_count q < bq_cap q")
  case False
  with assms show ?thesis by (auto simp: bq_push_top_def word_less_nat_alt)
next
  case True
  note D = bq_invD [OF assms]
  have nz: "bq_cap q \<noteq> 0" using True by auto
  define s where "s = (if bq_start q \<noteq> 0 then bq_start q - 1 else bq_cap q - 1)"
  let ?q = "q\<lparr>bq_start := s, bq_count := bq_count q + 1,
             bq_items := Some ((bq_mem q)[unat s := Some x])\<rparr>"
  have s: "unat s = (if unat (bq_start q) \<noteq> 0 then unat (bq_start q) - 1 else unat (bq_cap q) - 1)"
    using nz by (auto simp: s_def unat_pred unat_eq_0)
  have sl: "unat s < unat (bq_cap q)"
    using s D(4) [OF nz] by auto
  have cnt: "unat (bq_count q + 1) = Suc (unat (bq_count q))"
    using True by (rule unat_Suc_less)
  have "bq_ring ?q = Some x # bq_ring q"
    using ring_cons [of "unat (bq_count q)" "bq_mem q" "unat (bq_start q)" "Some x"] True D nz
    by (auto simp: cnt s word_less_nat_alt split: if_splits)
  then have "bq_inv ?q \<and> bq_list ?q = map the (Some x # bq_ring q)"
    using bq_invI [of ?q "Some x # bq_ring q"] D nz True bq_ring_alive [OF assms] cnt sl
    by (auto simp: word_le_nat_alt word_less_nat_alt)
  moreover have "bq_push_top x q = Inr (True, ?q)"
    using True sl D(1) by (simp add: bq_push_top_def slot_construct_eq s_def [symmetric])
  ultimately show ?thesis
    using True by (auto simp: word_less_nat_alt bq_list_def)
qed

lemma bq_pop_bottom_item_spec:
  assumes "bq_inv q"
  shows "\<exists>q'. bq_pop_bottom_item q = Inr (if bq_list q = [] then None else Some (last (bq_list q)), q') \<and>
    bq_inv q' \<and> bq_cap q' = bq_cap q \<and> bq_list q' = butlast (bq_list q)"
proof (cases "bq_count q = 0")
  case True
  then show ?thesis using assms by (auto simp: bq_pop_bottom_item_def bq_list_def ring_def)
next
  case False
  note D = bq_invD [OF assms]
  have nz: "bq_cap q \<noteq> 0" using False assms by (auto simp: bq_inv_def)
  have cnt: "unat (bq_count q - 1) = unat (bq_count q) - 1"
    using False by (rule unat_pred)
  have le: "bq_count q - 1 \<le> bq_cap q"
    using D(2) by (simp add: word_le_nat_alt cnt)
  note P = bq_position [OF assms le nz]
  let ?i = "(bq_start q + (bq_count q - 1)) mod bq_cap q"
  let ?q = "q\<lparr>bq_items := Some ((bq_mem q)[unat ?i := None]), bq_count := bq_count q - 1\<rparr>"
  obtain x where x: "bq_mem q ! unat ?i = Some x"
    using D(5) [of "unat (bq_count q) - 1"] False P cnt by (auto simp: unat_pos)
  have ne: "bq_list q \<noteq> []" using False by (simp add: bq_list_eq_Nil_iff)
  have "bq_list q ! (unat (bq_count q) - 1) = x"
    using x P False D(1) by (simp add: bq_list_def nth_ring unat_pos cnt)
  then have last: "last (bq_list q) = x"
    using ne by (simp add: last_conv_nth)
  have "bq_ring ?q = butlast (bq_ring q)"
    using ring_butlast [of "unat (bq_count q)" "bq_mem q" "unat (bq_start q)" None] D P False cnt
    by (simp add: unat_pos)
  then have "bq_inv ?q \<and> bq_list ?q = map the (butlast (bq_ring q))"
    using bq_invI [of ?q "butlast (bq_ring q)"] D nz cnt notin_set_butlast [OF bq_ring_alive [OF assms]]
    by (auto simp: word_le_nat_alt)
  moreover have "bq_pop_bottom_item q = Inr (Some x, ?q)"
    using False P x by (simp add: bq_pop_bottom_item_def slot_destroy_eq slot_read_eq)
  ultimately show ?thesis
    using False ne last by (auto simp: bq_list_def map_butlast)
qed

lemma bq_pop_bottom_eq:
  "bq_inv q \<Longrightarrow> bq_pop_bottom q = mapE (\<lambda>(x, q'). (x \<noteq> None, q')) (bq_pop_bottom_item q)"
  using bq_pop_bottom_item_spec [of q]
  by (auto simp: bq_pop_bottom_def bq_pop_bottom_item_def run_simps slot_destroy_def bindE_assoc
      split: if_splits)

lemma bq_pop_bottom_spec:
  assumes "bq_inv q"
  shows "\<exists>q'. bq_pop_bottom q = Inr (bq_list q \<noteq> [], q') \<and> bq_inv q' \<and> bq_cap q' = bq_cap q \<and>
    bq_list q' = butlast (bq_list q)"
  using bq_pop_bottom_item_spec [OF assms] by (auto simp: bq_pop_bottom_eq [OF assms] split: if_splits)

lemma bq_read_at:
  assumes "bq_inv q" "unat k < unat (bq_count q)"
  shows "bindE (bq_mod (bq_start q + k) (bq_cap q)) (\<lambda>i. mapE Some (slot_read q i)) =
         Inr (Some (bq_list q ! unat k))"
proof -
  note D = bq_invD [OF assms(1)]
  have nz: "bq_cap q \<noteq> 0" using assms by (auto simp: bq_inv_def)
  have "k \<le> bq_cap q" using assms(2) D(2) by (simp add: word_le_nat_alt)
  note P = bq_position [OF assms(1) this nz]
  obtain x where x: "bq_mem q ! unat ((bq_start q + k) mod bq_cap q) = Some x"
    using D(5) [OF assms(2)] P by auto
  then have "bq_list q ! unat k = x"
    using assms(2) P D(1) by (simp add: bq_list_def nth_ring)
  with x P show ?thesis by (simp add: slot_read_eq)
qed

lemma bq_top_spec:
  assumes "bq_inv q"
  shows "bq_top q = Inr (case bq_list q of [] \<Rightarrow> None | x # _ \<Rightarrow> Some x)"
proof (cases "bq_count q = 0")
  case True
  then show ?thesis by (simp add: bq_top_def bq_list_def ring_def)
next
  case False
  have nz: "bq_cap q \<noteq> 0" using False assms by (auto simp: bq_inv_def)
  have "bq_start q mod bq_cap q = bq_start q"
    using assms nz by (simp add: bq_inv_def word_unat_eq_iff unat_mod_distrib word_less_nat_alt)
  moreover obtain x xs where "bq_list q = x # xs"
    using False bq_list_eq_Nil_iff [of q] by (auto simp: neq_Nil_conv)
  ultimately show ?thesis
    using bq_read_at [OF assms, of 0] False nz
    by (simp add: bq_top_def bq_mod_eq unat_pos)
qed

lemma bq_bottom_spec:
  assumes "bq_inv q"
  shows "bq_bottom q = Inr (if bq_list q = [] then None else Some (last (bq_list q)))"
proof (cases "bq_count q = 0")
  case True
  then show ?thesis by (simp add: bq_bottom_def bq_list_eq_Nil_iff)
next
  case False
  then have "unat (bq_count q - 1) < unat (bq_count q)"
    by (simp add: unat_pred unat_pos)
  from bq_read_at [OF assms this] False show ?thesis
    by (simp add: bq_bottom_def bq_list_eq_Nil_iff last_conv_nth unat_pred add_diff_eq)
qed

lemma bq_index:
  fixes index :: "64 word"
  assumes "unat index < unat (bq_count q)"
  shows "unat (ucast index :: 32 word) = unat index"
proof -
  have "unat (bq_count q) < 2 ^ 32"
    using unsigned_less [of "bq_count q", where 'a = nat] by simp
  with assms show ?thesis by (simp add: unat_ucast_mod)
qed

lemma bq_top_at_spec:
  assumes "bq_inv q"
  shows "bq_top_at index q =
    Inr (if unat index < length (bq_list q) then Some (bq_list q ! unat index) else None)"
proof (cases "unat index < unat (bq_count q)")
  case False
  then show ?thesis by (simp add: bq_top_at_def word_less_nat_alt unat_ucast_up)
next
  case True
  with bq_read_at [OF assms, of "ucast index"] bq_index [OF True] show ?thesis
    by (simp add: bq_top_at_def word_less_nat_alt unat_ucast_up ucast_down_add ucast_up_down)
qed

lemma bq_bottom_at_spec:
  assumes "bq_inv q"
  shows "bq_bottom_at index q =
    Inr (if unat index < length (bq_list q)
         then Some (bq_list q ! (length (bq_list q) - unat index - 1)) else None)"
proof (cases "unat index < unat (bq_count q)")
  case False
  then show ?thesis by (simp add: bq_bottom_at_def word_less_nat_alt unat_ucast_up)
next
  case True
  let ?k = "bq_count q - ucast index - 1 :: 32 word"
  have 1: "unat (bq_count q - ucast index) = unat (bq_count q) - unat index"
    using True by (subst unat_sub_small) (auto simp: bq_index)
  have "bq_count q - ucast index \<noteq> 0"
    using True 1 by (auto simp: unat_pos)
  then have k: "unat ?k = unat (bq_count q) - unat index - 1"
    by (simp add: unat_pred 1)
  with True have "unat ?k < unat (bq_count q)" by simp
  from bq_read_at [OF assms this] True k show ?thesis
    by (simp add: bq_bottom_at_def word_less_nat_alt unat_ucast_up ucast_down_sub ucast_down_add
        ucast_up_down algebra_simps)
qed

lemma bq_clear_loop_spec:
  assumes "length (bq_mem q) = unat (bq_cap q)" "unat (bq_start q) < unat (bq_cap q)"
    "unat (bq_cap q) \<le> 2 ^ 31" "unat i + k \<le> unat (bq_cap q)"
    "\<And>j. unat i \<le> j \<Longrightarrow> j < unat i + k \<Longrightarrow>
       bq_mem q ! ((unat (bq_start q) + j) mod unat (bq_cap q)) \<noteq> None"
  shows "\<exists>m. bq_clear_loop k i q = Inr (q\<lparr>bq_items := m\<rparr>) \<and>
    length (bq_mem (q\<lparr>bq_items := m\<rparr>)) = unat (bq_cap q)"
  using assms
proof (induction k arbitrary: i q)
  case 0
  then show ?case by (intro exI [of _ "bq_items q"]) simp
next
  case (Suc k)
  let ?j = "(bq_start q + i) mod bq_cap q"
  let ?q = "q\<lparr>bq_items := Some ((bq_mem q)[unat ?j := None])\<rparr>"
  have nz: "bq_cap q \<noteq> 0" using Suc.prems(2) by auto
  have pos: "unat ?j = (unat (bq_start q) + unat i) mod unat (bq_cap q)"
    using Suc.prems by (intro unat_ring_position) auto
  have step: "bq_clear_loop (Suc k) i q = bq_clear_loop k (i + 1) ?q"
    using Suc.prems(1,2) Suc.prems(5) [of "unat i"] pos nz
    by (simp add: bq_mod_eq slot_destroy_eq unat_pos)
  have i1: "unat (i + 1) = Suc (unat i)"
    using Suc.prems(4) by (intro unat_Suc_less [of _ "bq_cap q"]) (simp add: word_less_nat_alt)
  have alive: "bq_mem ?q ! ((unat (bq_start q) + j) mod unat (bq_cap q)) \<noteq> None"
    if "Suc (unat i) \<le> j" "j < Suc (unat i) + k" for j
  proof -
    have "(unat (bq_start q) + j) mod unat (bq_cap q) \<noteq> unat ?j"
      using that Suc.prems(4) unfolding pos by (subst mod_add_inj) auto
    then show ?thesis using Suc.prems(5) [of j] that by simp
  qed
  show ?case
    unfolding step using Suc.IH [of ?q "i + 1"] Suc.prems alive i1 by simp
qed

lemma bq_clear_spec:
  assumes "bq_inv q"
  shows "\<exists>q'. bq_clear q = Inr q' \<and> bq_inv q' \<and> bq_cap q' = bq_cap q \<and> bq_list q' = []"
proof (cases "bq_cap q = 0")
  case True
  with assms show ?thesis
    by (auto simp: bq_clear_def bq_inv_def bq_list_def ring_def bq_mem_def)
next
  case False
  note D = bq_invD [OF assms]
  obtain m where "bq_clear_loop (unat (bq_count q)) 0 q = Inr (q\<lparr>bq_items := m\<rparr>)"
    "length (bq_mem (q\<lparr>bq_items := m\<rparr>)) = unat (bq_cap q)"
    using bq_clear_loop_spec [of q 0 "unat (bq_count q)"] D False by auto
  with D False show ?thesis
    by (auto simp: bq_clear_def bq_inv_def bq_list_def ring_def bq_mem_def word_gt_0)
qed

lemma bq_create_spec:
  assumes "length mem = unat (memsize div sizeof)" "unat (memsize div sizeof) \<le> 2 ^ 31"
  shows "bq_inv (bq_create (Some mem) memsize sizeof own)"
    and "bq_list (bq_create (Some mem) memsize sizeof own) = []"
    and "unat (bq_cap (bq_create (Some mem) memsize sizeof own)) = length mem"
proof -
  have "unat (ucast (memsize div sizeof) :: 32 word) = length mem"
    using assms by (simp add: unat_ucast_mod)
  with assms show "bq_inv (bq_create (Some mem) memsize sizeof own)"
    "bq_list (bq_create (Some mem) memsize sizeof own) = []"
    "unat (bq_cap (bq_create (Some mem) memsize sizeof own)) = length mem"
    by (auto simp: bq_inv_def bq_list_def ring_def bq_mem_def bq_create_def word_gt_0)
qed

subsection \<open>The contract\<close>

locale bounded_fifo =
  fixes inv :: "'q \<Rightarrow> bool" and items :: "'q \<Rightarrow> 'a list" and limit :: "'q \<Rightarrow> nat"
    and push :: "'a \<Rightarrow> 'q \<Rightarrow> (bool \<times> 'q) run"
    and elim_push :: "'a \<Rightarrow> 'q \<Rightarrow> 'q run"
    and pop :: "'q \<Rightarrow> (bool \<times> 'q) run"
    and bottom :: "64 word \<Rightarrow> 'q \<Rightarrow> 'a option run"
  assumes items_limit: "inv q \<Longrightarrow> length (items q) \<le> limit q"
    and limit_small: "inv q \<Longrightarrow> limit q < 2 ^ 64"
    and push_law: "inv q \<Longrightarrow> \<exists>q'. push x q = Inr (length (items q) < limit q, q') \<and> inv q' \<and>
      limit q' = limit q \<and> items q' = (if length (items q) < limit q then items q @ [x] else items q)"
    and elim_push_law: "inv q \<Longrightarrow> 0 < limit q \<Longrightarrow> \<exists>q'. elim_push x q = Inr q' \<and> inv q' \<and>
      limit q' = limit q \<and>
      items q' = (if length (items q) < limit q then items q @ [x] else tl (items q) @ [x])"
    and pop_law: "inv q \<Longrightarrow> \<exists>q'. pop q = Inr (items q \<noteq> [], q') \<and> inv q' \<and>
      limit q' = limit q \<and> items q' = tl (items q)"
    and bottom_law: "inv q \<Longrightarrow> bottom i q = Inr (if unat i < length (items q)
      then Some (items q ! (length (items q) - unat i - 1)) else None)"
begin

text \<open>A queue that drops its oldest item when it is full holds the newest items.\<close>

lemma elim_push_many:
  assumes "inv q" "0 < limit q"
  shows "\<exists>q'. foldE (\<lambda>q x. elim_push x q) q xs = Inr q' \<and> inv q' \<and> limit q' = limit q \<and>
    items q' = newest (limit q) (items q @ xs)"
  using assms
proof (induction xs arbitrary: q)
  case Nil
  then show ?case using items_limit [of q] by (auto simp: newest_short)
next
  case (Cons x xs)
  obtain q1 where q1: "elim_push x q = Inr q1" "inv q1" "limit q1 = limit q"
    "items q1 = (if length (items q) < limit q then items q @ [x] else tl (items q) @ [x])"
    using elim_push_law [OF Cons.prems, of x] by blast
  have "newest (limit q) (items q1 @ xs) = newest (limit q) (items q @ x # xs)"
  proof (cases "length (items q) < limit q")
    case True
    with q1(4) show ?thesis by simp
  next
    case False
    with Cons.prems(2) have "items q \<noteq> []" by auto
    with False q1(4) have "items q1 @ xs = tl (items q @ x # xs)" by simp
    moreover have "limit q < length (items q @ x # xs)" using False by simp
    ultimately show ?thesis by (simp add: newest_tl)
  qed
  with q1 Cons.IH [OF q1(2)] Cons.prems show ?case by auto
qed

text \<open>Items leave in the order in which they entered.\<close>

lemma push_then_pop_all:
  assumes "inv q" "items q = []" "length xs \<le> limit q"
  shows "\<exists>q'. foldE (\<lambda>q x. mapE snd (push x q)) q xs = Inr q' \<and> inv q' \<and> items q' = xs"
proof -
  have "\<exists>q'. foldE (\<lambda>q x. mapE snd (push x q)) q xs = Inr q' \<and> inv q' \<and> items q' = items q @ xs"
    if "inv q" "length (items q) + length xs \<le> limit q" for q
    using that
  proof (induction xs arbitrary: q)
    case Nil
    then show ?case by simp
  next
    case (Cons x xs)
    obtain q1 where "push x q = Inr (True, q1)" "inv q1" "limit q1 = limit q"
      "items q1 = items q @ [x]"
      using push_law [OF Cons.prems(1), of x] Cons.prems(2) by auto
    with Cons.IH [of q1] Cons.prems show ?case by auto
  qed
  from this [of q] assms show ?thesis by simp
qed

end

interpretation bq: bounded_fifo bq_inv bq_list "\<lambda>q. unat (bq_cap q)" bq_push bq_elim_push bq_pop bq_bottom_at
proof (unfold_locales, goal_cases)
  case (1 q)
  then show ?case by (simp add: bq_invD)
next
  case (2 q)
  then show ?case using unsigned_less [of "bq_cap q", where 'a = nat] by simp
next
  case (3 q x)
  then show ?case using bq_push_spec [of q x] by auto
next
  case (4 q x)
  then show ?case using bq_elim_push_spec [of q x] by (auto simp: unat_pos)
next
  case (5 q)
  then show ?case using bq_pop_spec [of q] by auto
next
  case (6 q i)
  then show ?case by (rule bq_bottom_at_spec)
qed

subsection \<open>Properties\<close>


text \<open>A queue of three slots that holds two items around the end of its memory.\<close>

definition sample_queue :: "nat bounded_queue" where
  "sample_queue = \<lparr>bq_count = 2, bq_cap = 3, bq_start = 2, bq_ownership = OWNS_STORAGE,
     bq_items = Some [Some 8, None, Some 7]\<rparr>"

lemma sample_queue_inv: "bq_inv sample_queue" "bq_list sample_queue = [7, 8]"
  by (simp_all add: bq_inv_def bq_list_def ring_def bq_mem_def sample_queue_def upt_rec)


text \<open>
  (C19) A queue filled with \<^verbatim>\<open>elim_push\<close>, as the list of excluded servers is, holds the newest
  items, in order, however many were pushed.
\<close>

theorem elim_push_keeps_newest:
  assumes "bq_inv q" "bq_cap q \<noteq> 0"
  shows "\<exists>q'. foldE (\<lambda>q x. bq_elim_push x q) q xs = Inr q' \<and> bq_inv q' \<and>
    bq_list q' = newest (unat (bq_cap q)) (bq_list q @ xs)"
  using bq.elim_push_many [of q xs] assms by (auto simp: unat_pos)

theorem elim_push_keeps_newest_witness:
  "\<exists>q'. foldE (\<lambda>q x. bq_elim_push x q) sample_queue [9, 10, 11] = Inr q' \<and> bq_list q' = [9, 10, 11]"
  using elim_push_keeps_newest [OF sample_queue_inv(1), of "[9, 10, 11]"] sample_queue_inv
  by (auto simp: sample_queue_def newest_def)

end
