(* ===== verification/Flat_Map.thy ===== *)
theory Flat_Map
  imports Prelude
begin

text \<open>
  \<^verbatim>\<open>flare::container::FlatMap\<close> (src/flare/container/flat_map.h and flat_map_inl.h): the open hash
  table that the HPACK encoder, the reference counts of servers and the headers of a message are
  kept in.  A bucket is the list of its entries: the entry that lives in the bucket array, then
  the entries chained to it; an invalid bucket is the empty list.  Hash function and equality are
  parameters, as in the template; so is the value \<open>dflt\<close> of a default-constructed \<^verbatim>\<open>_T()\<close>.

  \<^verbatim>\<open>operator[]\<close> returns a reference.  Its model takes what the caller does with the reference, a
  function on values, and returns the map afterwards.  Resizing inserts into a new map, and
  inserting may resize again: the recursion spends one unit of fuel per resize, and since each
  resize at least doubles the number of buckets, a 64-bit number, 64 units are enough
  (\<open>put_law\<close>).  Memory allocation succeeds; the bitmap of the sparse variant of the map and the
  node pool are not part of the abstract behaviour and are not modelled.
\<close>

record ('k, 'v) flat_map =
  fm_size :: "64 word"
  fm_nbucket :: "64 word"
  fm_buckets :: "('k \<times> 'v) list list option"  \<comment> \<open>\<open>None\<close> is the null pointer\<close>
  fm_load_factor :: "32 word"

subsection \<open>Model\<close>

definition find_power2 :: "64 word \<Rightarrow> 64 word" where
  "find_power2 b0 =
     (let b = b0 - 1;
          b = b OR drop_bit 1 b;
          b = b OR drop_bit 2 b;
          b = b OR drop_bit 4 b;
          b = b OR drop_bit 8 b;
          b = b OR drop_bit 16 b;
          b = b OR drop_bit 32 b
      in b + 1)"

definition flatmap_round :: "64 word \<Rightarrow> 64 word" where
  "flatmap_round nbucket = find_power2 nbucket"

definition flatmap_mod :: "64 word \<Rightarrow> 64 word \<Rightarrow> 64 word" where
  "flatmap_mod hash_code nbucket = hash_code AND (nbucket - 1)"

definition fm_new :: "('k, 'v) flat_map" where
  "fm_new = \<lparr>fm_size = 0, fm_nbucket = 0, fm_buckets = None, fm_load_factor = 0\<rparr>"

definition fm_initialized :: "('k, 'v) flat_map \<Rightarrow> bool" where
  "fm_initialized m \<longleftrightarrow> fm_buckets m \<noteq> None"

definition fm_empty :: "('k, 'v) flat_map \<Rightarrow> bool" where
  "fm_empty m \<longleftrightarrow> fm_size m = 0"

definition is_too_crowded :: "('k, 'v) flat_map \<Rightarrow> 64 word \<Rightarrow> bool" where
  "is_too_crowded m sz \<longleftrightarrow> sz * 100 \<ge> fm_nbucket m * ucast (fm_load_factor m)"

text \<open>\<^verbatim>\<open>init\<close> returns \<open>False\<close> for \<^verbatim>\<open>-1\<close>.\<close>

definition fm_init :: "64 word \<Rightarrow> 32 word \<Rightarrow> ('k, 'v) flat_map \<Rightarrow> bool \<times> ('k, 'v) flat_map" where
  "fm_init nbucket load_factor m =
     (if fm_initialized m then (False, m)
      else if load_factor < 10 \<or> load_factor > 100 then (False, m)
      else (True, m\<lparr>fm_size := 0, fm_nbucket := flatmap_round nbucket,
                    fm_load_factor := load_factor,
                    fm_buckets := Some (replicate (unat (flatmap_round nbucket)) [])\<rparr>))"

definition fm_swap ::
  "('k, 'v) flat_map \<Rightarrow> ('k, 'v) flat_map \<Rightarrow> ('k, 'v) flat_map \<times> ('k, 'v) flat_map" where
  "fm_swap a b = (b, a)"

text \<open>The entries in the order of the iterators: bucket by bucket, each along its chain.\<close>

definition fm_entries :: "('k, 'v) flat_map \<Rightarrow> ('k \<times> 'v) list" where
  "fm_entries m = (case fm_buckets m of None \<Rightarrow> [] | Some bs \<Rightarrow> concat bs)"

text \<open>Walking one chain: find, use the reference, unlink.\<close>

fun chain_find :: "('k \<Rightarrow> 'k \<Rightarrow> bool) \<Rightarrow> 'k \<Rightarrow> ('k \<times> 'v) list \<Rightarrow> 'v option" where
  "chain_find eql key [] = None"
| "chain_find eql key ((k, v) # c) = (if eql k key then Some v else chain_find eql key c)"

fun chain_update ::
  "('k \<Rightarrow> 'k \<Rightarrow> bool) \<Rightarrow> 'k \<Rightarrow> ('v \<Rightarrow> 'v) \<Rightarrow> ('k \<times> 'v) list \<Rightarrow> ('k \<times> 'v) list" where
  "chain_update eql key f [] = []"
| "chain_update eql key f ((k, v) # c) =
     (if eql k key then (k, f v) # c else (k, v) # chain_update eql key f c)"

fun chain_erase :: "('k \<Rightarrow> 'k \<Rightarrow> bool) \<Rightarrow> 'k \<Rightarrow> ('k \<times> 'v) list \<Rightarrow> ('k \<times> 'v) list" where
  "chain_erase eql key [] = []"
| "chain_erase eql key ((k, v) # c) = (if eql k key then c else (k, v) # chain_erase eql key c)"

text \<open>The bucket of a key; an index outside of the bucket array is undefined behaviour.\<close>

definition fm_bucket ::
  "('k \<Rightarrow> 64 word) \<Rightarrow> ('k, 'v) flat_map \<Rightarrow> 'k \<Rightarrow> (nat \<times> ('k \<times> 'v) list) run" where
  "fm_bucket hashfn m key =
     (let i = unat (flatmap_mod (hashfn key) (fm_nbucket m)) in
      case fm_buckets m of
        None \<Rightarrow> Inl Undefined
      | Some bs \<Rightarrow> if i < length bs then Inr (i, bs ! i) else Inl Undefined)"

definition fm_set_bucket :: "nat \<Rightarrow> ('k \<times> 'v) list \<Rightarrow> ('k, 'v) flat_map \<Rightarrow> ('k, 'v) flat_map" where
  "fm_set_bucket i c m = m\<lparr>fm_buckets := map_option (\<lambda>bs. bs[i := c]) (fm_buckets m)\<rparr>"

definition fm_seek ::
  "('k \<Rightarrow> 64 word) \<Rightarrow> ('k \<Rightarrow> 'k \<Rightarrow> bool) \<Rightarrow> 'k \<Rightarrow> ('k, 'v) flat_map \<Rightarrow> 'v option run" where
  "fm_seek hashfn eql key m =
     (if \<not> fm_initialized m then Inr None
      else bindE (fm_bucket hashfn m key) (\<lambda>(i, c). Inr (chain_find eql key c)))"

text \<open>\<^verbatim>\<open>erase\<close> returns the number of erased entries and the value it had (\<^verbatim>\<open>old_value\<close>).\<close>

definition fm_erase ::
  "('k \<Rightarrow> 64 word) \<Rightarrow> ('k \<Rightarrow> 'k \<Rightarrow> bool) \<Rightarrow> 'k \<Rightarrow> ('k, 'v) flat_map \<Rightarrow>
   (nat \<times> 'v option \<times> ('k, 'v) flat_map) run" where
  "fm_erase hashfn eql key m =
     (if \<not> fm_initialized m then Inr (0, None, m)
      else bindE (fm_bucket hashfn m key) (\<lambda>(i, c).
        (case chain_find eql key c of
           None \<Rightarrow> Inr (0, None, m)
         | Some v \<Rightarrow> Inr (1, Some v,
             fm_set_bucket i (chain_erase eql key c) (m\<lparr>fm_size := fm_size m - 1\<rparr>)))))"

definition fm_clear :: "('k, 'v) flat_map \<Rightarrow> ('k, 'v) flat_map" where
  "fm_clear m =
     (if fm_size m = 0 then m
      else m\<lparr>fm_size := 0, fm_buckets := map_option (map (\<lambda>_. [])) (fm_buckets m)\<rparr>)"

text \<open>\<^verbatim>\<open>resize\<close>, with the insertion \<open>put k v\<close> it uses as an argument.\<close>

definition fm_resize_with ::
  "('k \<Rightarrow> 'v \<Rightarrow> ('k, 'v) flat_map \<Rightarrow> ('k, 'v) flat_map run) \<Rightarrow> 64 word \<Rightarrow> ('k, 'v) flat_map \<Rightarrow>
   (bool \<times> ('k, 'v) flat_map) run" where
  "fm_resize_with put nbucket2 m =
     (if fm_nbucket m = flatmap_round nbucket2 then Inr (False, m)
      else case fm_init (flatmap_round nbucket2) (fm_load_factor m) fm_new of
        (False, _) \<Rightarrow> Inr (False, m)
      | (True, new_map) \<Rightarrow>
          bindE (foldE (\<lambda>m' (k, v). put k v m') new_map (fm_entries m)) (\<lambda>m'. Inr (True, m')))"

text \<open>\<^verbatim>\<open>operator[]\<close>; \<open>use\<close> is what the caller does with the reference.\<close>

primrec fm_index ::
  "nat \<Rightarrow> ('k \<Rightarrow> 64 word) \<Rightarrow> ('k \<Rightarrow> 'k \<Rightarrow> bool) \<Rightarrow> 'v \<Rightarrow> ('v \<Rightarrow> 'v) \<Rightarrow> 'k \<Rightarrow>
   ('k, 'v) flat_map \<Rightarrow> ('k, 'v) flat_map run" where
  "fm_index 0 hashfn eql dflt use key m = Inl Diverges"
| "fm_index (Suc fuel) hashfn eql dflt use key m =
     bindE (fm_bucket hashfn m key) (\<lambda>(i, c).
       if c = [] then
         Inr (fm_set_bucket i [(key, use dflt)] (m\<lparr>fm_size := fm_size m + 1\<rparr>))
       else if chain_find eql key c \<noteq> None then
         Inr (fm_set_bucket i (chain_update eql key use c) m)
       else
         let append = Inr (fm_set_bucket i (c @ [(key, use dflt)]) (m\<lparr>fm_size := fm_size m + 1\<rparr>)) in
         if is_too_crowded m (fm_size m) then
           bindE (fm_resize_with (\<lambda>k v. fm_index fuel hashfn eql dflt (\<lambda>_. v) k)
                    (fm_nbucket m + 1) m) (\<lambda>(resized, m').
             if resized then fm_index fuel hashfn eql dflt use key m' else append)
         else append)"

text \<open>\<^verbatim>\<open>m[key] = value\<close>, which is also \<^verbatim>\<open>insert\<close>; \<^verbatim>\<open>resize\<close>; and copying a map.\<close>

definition fm_put ::
  "('k \<Rightarrow> 64 word) \<Rightarrow> ('k \<Rightarrow> 'k \<Rightarrow> bool) \<Rightarrow> 'v \<Rightarrow> 'k \<Rightarrow> 'v \<Rightarrow> ('k, 'v) flat_map \<Rightarrow>
   ('k, 'v) flat_map run" where
  "fm_put hashfn eql dflt key value m = fm_index 64 hashfn eql dflt (\<lambda>_. value) key m"

definition fm_resize ::
  "('k \<Rightarrow> 64 word) \<Rightarrow> ('k \<Rightarrow> 'k \<Rightarrow> bool) \<Rightarrow> 'v \<Rightarrow> 64 word \<Rightarrow> ('k, 'v) flat_map \<Rightarrow>
   (bool \<times> ('k, 'v) flat_map) run" where
  "fm_resize hashfn eql dflt nbucket2 m =
     fm_resize_with (fm_put hashfn eql dflt) nbucket2 m"

definition fm_assign ::
  "('k \<Rightarrow> 64 word) \<Rightarrow> ('k \<Rightarrow> 'k \<Rightarrow> bool) \<Rightarrow> 'v \<Rightarrow> ('k, 'v) flat_map \<Rightarrow> ('k, 'v) flat_map \<Rightarrow>
   ('k, 'v) flat_map run" where
  "fm_assign hashfn eql dflt rhs m0 =
     (let m = fm_clear m0 in
      if fm_empty rhs then Inr m
      else
        let m = (if fm_initialized m then m else m\<lparr>fm_load_factor := fm_load_factor rhs\<rparr>);
            m = (if fm_buckets m = None \<or> is_too_crowded m (fm_size rhs)
                 then m\<lparr>fm_nbucket := fm_nbucket rhs, fm_buckets := Some []\<rparr> else m)
        in if fm_nbucket m = fm_nbucket rhs
           then Inr (m\<lparr>fm_buckets := fm_buckets rhs, fm_size := fm_size rhs\<rparr>)
           else foldE (\<lambda>m' (k, v). fm_put hashfn eql dflt k v m') m (fm_entries rhs))"

subsection \<open>The map a table stands for\<close>

text \<open>
  A table is well formed for a set of keys on which hash and equality agree (\<open>ok\<close>): it has a
  power of two of buckets, every entry is in the bucket of its key, no two entries of a
  bucket have equal keys, and \<^verbatim>\<open>_size\<close> counts the entries.
\<close>

definition fm_lookup ::
  "('k \<Rightarrow> 64 word) \<Rightarrow> ('k \<Rightarrow> 'k \<Rightarrow> bool) \<Rightarrow> ('k, 'v) flat_map \<Rightarrow> 'k \<Rightarrow> 'v option" where
  "fm_lookup hashfn eql m key = (case fm_seek hashfn eql key m of Inl _ \<Rightarrow> None | Inr r \<Rightarrow> r)"

definition fm_inv ::
  "('k \<Rightarrow> bool) \<Rightarrow> ('k \<Rightarrow> 64 word) \<Rightarrow> ('k \<Rightarrow> 'k \<Rightarrow> bool) \<Rightarrow> ('k, 'v) flat_map \<Rightarrow> bool" where
  "fm_inv ok hashfn eql m \<longleftrightarrow>
     (case fm_buckets m of
        None \<Rightarrow> False
      | Some bs \<Rightarrow>
          length bs = unat (fm_nbucket m) \<and> (\<exists>n \<le> 57. fm_nbucket m = 2 ^ n) \<and>
          10 \<le> fm_load_factor m \<and> fm_load_factor m \<le> 100 \<and>
          unat (fm_size m) = length (concat bs) \<and>
          (\<forall>i < length bs. sorted_wrt (\<lambda>a b. \<not> eql (fst a) (fst b)) (bs ! i) \<and>
             (\<forall>e \<in> set (bs ! i). ok (fst e) \<and>
                unat (flatmap_mod (hashfn (fst e)) (fm_nbucket m)) = i)))"

declare fm_index.simps [simp del]

subsection \<open>Keys and chains\<close>

text \<open>
  What \<^verbatim>\<open>FlatMap\<close> needs of its template arguments: on the keys that occur, \<^verbatim>\<open>_Equal\<close> is an equivalence
  relation and \<^verbatim>\<open>_Hash\<close> maps equal keys to equal hash codes.
\<close>

locale flat_map_keys =
  fixes ok :: "'k \<Rightarrow> bool" and hashfn :: "'k \<Rightarrow> 64 word" and eql :: "'k \<Rightarrow> 'k \<Rightarrow> bool"
  assumes eql_refl: "ok a \<Longrightarrow> eql a a"
    and eql_sym: "ok a \<Longrightarrow> ok b \<Longrightarrow> eql a b \<Longrightarrow> eql b a"
    and eql_trans: "ok a \<Longrightarrow> ok b \<Longrightarrow> ok c \<Longrightarrow> eql a b \<Longrightarrow> eql b c \<Longrightarrow> eql a c"
    and eql_hash: "ok a \<Longrightarrow> ok b \<Longrightarrow> eql a b \<Longrightarrow> hashfn a = hashfn b"
begin

definition chain_ok :: "('k \<times> 'v) list \<Rightarrow> bool" where
  "chain_ok c \<longleftrightarrow> sorted_wrt (\<lambda>a b. \<not> eql (fst a) (fst b)) c \<and> (\<forall>e \<in> set c. ok (fst e))"

lemma chain_ok_Cons:
  "chain_ok (e # c) \<longleftrightarrow> ok (fst e) \<and> (\<forall>x \<in> set c. \<not> eql (fst e) (fst x)) \<and> chain_ok c"
  by (auto simp: chain_ok_def)

lemma chain_find_None_iff:
  "chain_find eql key c = None \<longleftrightarrow> (\<forall>e \<in> set c. \<not> eql (fst e) key)"
  by (induction c) (auto split: if_splits)

lemma chain_find_cong:
  assumes "chain_ok c" "ok a" "ok b" "eql a b"
  shows "chain_find eql a c = chain_find eql b c"
  using assms(1)
proof (induction c)
  case (Cons e c)
  have "eql (fst e) a \<longleftrightarrow> eql (fst e) b"
    using Cons.prems assms eql_sym eql_trans by (metis chain_ok_Cons)
  with Cons show ?case by (cases e) (auto simp: chain_ok_Cons)
qed simp

lemma chain_find_append:
  "chain_find eql key (c @ d) =
   (case chain_find eql key c of None \<Rightarrow> chain_find eql key d | Some v \<Rightarrow> Some v)"
  by (induction c) auto

lemma chain_find_update:
  assumes "chain_ok c" "ok a" "ok b"
  shows "chain_find eql b (chain_update eql a f c) =
    (if eql a b then map_option f (chain_find eql a c) else chain_find eql b c)"
  using assms(1)
proof (induction c)
  case (Cons e c)
  obtain k v where e: "e = (k, v)" by (cases e)
  have k: "ok k" "chain_ok c" using Cons.prems by (auto simp: chain_ok_Cons e)
  have "eql k a \<Longrightarrow> eql k b \<longleftrightarrow> eql a b" "eql a b \<Longrightarrow> eql k a \<longleftrightarrow> eql k b"
    using k assms eql_sym eql_trans by metis+
  with Cons k show ?case by (auto simp: e)
qed simp

lemma chain_find_erase:
  assumes "chain_ok c" "ok a" "ok b"
  shows "chain_find eql b (chain_erase eql a c) = (if eql a b then None else chain_find eql b c)"
  using assms(1)
proof (induction c)
  case (Cons e c)
  obtain k v where e: "e = (k, v)" by (cases e)
  have k: "ok k" "chain_ok c" "\<forall>x \<in> set c. \<not> eql k (fst x)"
    using Cons.prems by (auto simp: chain_ok_Cons e)
  have *: "eql k a \<Longrightarrow> eql k b \<longleftrightarrow> eql a b" "eql a b \<Longrightarrow> eql k a \<longleftrightarrow> eql k b"
    using k assms eql_sym eql_trans by metis+
  have "eql k a \<Longrightarrow> eql a b \<Longrightarrow> chain_find eql b c = None"
    unfolding chain_find_None_iff
    using * k assms eql_sym eql_trans \<open>chain_ok c\<close> by (metis chain_ok_def)
  with Cons k * show ?case by (auto simp: e)
qed simp

lemma chain_update_keys: "map fst (chain_update eql a f c) = map fst c"
  by (induction c) auto

lemma chain_ok_keys: "chain_ok c \<longleftrightarrow> sorted_wrt (\<lambda>a b. \<not> eql a b) (map fst c) \<and> (\<forall>k \<in> set (map fst c). ok k)"
  by (simp add: chain_ok_def sorted_wrt_map)

lemma chain_ok_update: "chain_ok c \<Longrightarrow> chain_ok (chain_update eql a f c)"
  by (metis chain_ok_keys chain_update_keys)

lemma set_chain_erase: "set (chain_erase eql a c) \<subseteq> set c"
  by (induction c) (auto split: if_splits)

lemma chain_ok_erase: "chain_ok c \<Longrightarrow> chain_ok (chain_erase eql a c)"
proof (induction c)
  case (Cons e c)
  then show ?case
    using set_chain_erase [of a c] by (cases e) (auto simp: chain_ok_Cons)
qed simp

lemma length_chain_erase:
  "chain_find eql a c \<noteq> None \<Longrightarrow> length (chain_erase eql a c) = length c - 1"
proof (induction c)
  case (Cons e c)
  then show ?case by (cases e; cases c) (auto split: if_splits)
qed simp

lemma chain_ok_snoc:
  assumes "chain_ok c" "ok k" "chain_find eql k c = None"
  shows "chain_ok (c @ [(k, v)])"
  using assms by (auto simp: chain_ok_def sorted_wrt_append chain_find_None_iff)

end

subsection \<open>Rounding to a power of two\<close>

lemma bit_smear:
  fixes b :: "64 word"
  assumes "\<And>i. bit b i \<longleftrightarrow> (\<exists>j. i \<le> j \<and> j < i + s \<and> bit a j)" "0 < s"
  shows "bit (b OR drop_bit s b) i \<longleftrightarrow> (\<exists>j. i \<le> j \<and> j < i + 2 * s \<and> bit a j)"
proof -
  have "bit (b OR drop_bit s b) i \<longleftrightarrow> bit b i \<or> bit b (i + s)"
    by (simp add: bit_simps ac_simps)
  also have "\<dots> \<longleftrightarrow> (\<exists>j. i \<le> j \<and> j < i + 2 * s \<and> bit a j)"
  proof
    assume "bit b i \<or> bit b (i + s)"
    then obtain j where "i \<le> j" "j < i + 2 * s" "bit a j"
      using assms(1) [of i] assms(1) [of "i + s"] assms(2) by fastforce
    then show "\<exists>j. i \<le> j \<and> j < i + 2 * s \<and> bit a j" by blast
  next
    assume "\<exists>j. i \<le> j \<and> j < i + 2 * s \<and> bit a j"
    then obtain j where j: "i \<le> j" "j < i + 2 * s" "bit a j" by blast
    show "bit b i \<or> bit b (i + s)"
    proof (cases "j < i + s")
      case True
      with j assms(1) [of i] show ?thesis by blast
    next
      case False
      then have "i + s \<le> j" "j < i + s + s" using j by auto
      with j assms(1) [of "i + s"] show ?thesis by blast
    qed
  qed
  finally show ?thesis .
qed

lemma find_power2_bits:
  "\<exists>w. find_power2 b = w + 1 \<and> (\<forall>i. bit w i \<longleftrightarrow> (\<exists>j. i \<le> j \<and> j < i + 64 \<and> bit (b - 1) j))"
proof -
  define a where "a = b - 1"
  define a1 where "a1 = a OR drop_bit 1 a"
  define a2 where "a2 = a1 OR drop_bit 2 a1"
  define a3 where "a3 = a2 OR drop_bit 4 a2"
  define a4 where "a4 = a3 OR drop_bit 8 a3"
  define a5 where "a5 = a4 OR drop_bit 16 a4"
  define a6 where "a6 = a5 OR drop_bit 32 a5"
  have 0: "bit a i \<longleftrightarrow> (\<exists>j. i \<le> j \<and> j < i + 1 \<and> bit a j)" for i
    by (auto simp: less_Suc_eq_le)
  have 1: "bit a1 i \<longleftrightarrow> (\<exists>j. i \<le> j \<and> j < i + 2 \<and> bit a j)" for i
    unfolding a1_def using bit_smear [of a 1 a i, OF 0] by simp
  have 2: "bit a2 i \<longleftrightarrow> (\<exists>j. i \<le> j \<and> j < i + 4 \<and> bit a j)" for i
    unfolding a2_def using bit_smear [of a1 2 a i, OF 1] by simp
  have 3: "bit a3 i \<longleftrightarrow> (\<exists>j. i \<le> j \<and> j < i + 8 \<and> bit a j)" for i
    unfolding a3_def using bit_smear [of a2 4 a i, OF 2] by simp
  have 4: "bit a4 i \<longleftrightarrow> (\<exists>j. i \<le> j \<and> j < i + 16 \<and> bit a j)" for i
    unfolding a4_def using bit_smear [of a3 8 a i, OF 3] by simp
  have 5: "bit a5 i \<longleftrightarrow> (\<exists>j. i \<le> j \<and> j < i + 32 \<and> bit a j)" for i
    unfolding a5_def using bit_smear [of a4 16 a i, OF 4] by simp
  have 6: "bit a6 i \<longleftrightarrow> (\<exists>j. i \<le> j \<and> j < i + 64 \<and> bit a j)" for i
    unfolding a6_def using bit_smear [of a5 32 a i, OF 5] by simp
  have "find_power2 b = a6 + 1"
    by (simp add: find_power2_def a_def a1_def a2_def a3_def a4_def a5_def a6_def Let_def)
  with 6 show ?thesis unfolding a_def by blast
qed

text \<open>The bit length of a number.\<close>

lemma bit_length_exists:
  fixes a :: "64 word"
  shows "\<exists>n \<le> 64. unat a < 2 ^ n \<and> (n = 0 \<or> 2 ^ (n - 1) \<le> unat a)"
proof -
  define n where "n = (LEAST n. unat a < 2 ^ n)"
  have lt: "unat a < 2 ^ 64" using unsigned_less [of a, where 'a = nat] by simp
  then have "unat a < 2 ^ n" unfolding n_def by (rule LeastI)
  moreover have "n \<le> 64" unfolding n_def using lt by (rule Least_le)
  moreover have "2 ^ (n - 1) \<le> unat a" if "n \<noteq> 0"
  proof -
    have "\<not> unat a < 2 ^ (n - 1)"
    proof
      assume "unat a < 2 ^ (n - 1)"
      then have "n \<le> n - 1" unfolding n_def by (rule Least_le)
      with that show False by simp
    qed
    then show ?thesis by simp
  qed
  ultimately show ?thesis by (intro exI [of _ n]) auto
qed

lemma find_power2_eq:
  assumes "unat (b - 1) < 2 ^ n" "n = 0 \<or> 2 ^ (n - 1) \<le> unat (b - 1)" "n \<le> 64"
  shows "find_power2 b = 2 ^ n"
proof -
  obtain w where w: "find_power2 b = w + 1"
    "\<And>i. bit w i \<longleftrightarrow> (\<exists>j. i \<le> j \<and> j < i + 64 \<and> bit (b - 1) j)"
    using find_power2_bits by blast
  have low: "j < n" if "bit (b - 1) j" for j
  proof (rule ccontr)
    assume "\<not> j < n"
    then have "unat (b - 1) < 2 ^ j"
      using assms(1) by (meson less_le_trans not_less one_le_numeral power_increasing)
    with that show False by (simp add: bit_unat)
  qed
  have top: "bit (b - 1) (n - 1)" if "n \<noteq> 0"
  proof -
    have "unat (b - 1) < 2 * 2 ^ (n - 1)"
      using assms(1) that by (simp add: power_eq_if)
    then have "unat (b - 1) div 2 ^ (n - 1) = 1"
      using assms(2) that by (intro div_nat_eqI) auto
    then show ?thesis by (simp add: bit_unat)
  qed
  have "bit w i \<longleftrightarrow> i < n" for i
  proof
    assume "bit w i"
    then show "i < n" using w(2) low by fastforce
  next
    assume "i < n"
    with top assms(3) show "bit w i" unfolding w(2)
      by (intro exI [of _ "n - 1"]) auto
  qed
  then have "w = mask n"
    using assms(3) by (intro bit_eqI) (auto simp: bit_mask_iff)
  with w(1) show ?thesis by (simp add: mask_eq_exp_minus_1)
qed

lemma find_power2_bounds:
  assumes "1 \<le> unat b" "unat b \<le> 2 ^ 63"
  shows "\<exists>n \<le> 63. find_power2 b = 2 ^ n \<and> unat b \<le> 2 ^ n \<and> (n = 0 \<or> 2 ^ (n - 1) < unat b)"
proof -
  obtain n where n: "n \<le> 64" "unat (b - 1) < 2 ^ n" "n = 0 \<or> 2 ^ (n - 1) \<le> unat (b - 1)"
    using bit_length_exists by blast
  have b: "unat (b - 1) = unat b - 1"
    using assms by (intro unat_pred) auto
  have "n \<noteq> 64"
  proof
    assume "n = 64"
    then have "(2 :: nat) ^ 63 \<le> unat b - 1" using n(3) b by simp
    with assms show False by simp
  qed
  with n(1) have "n \<le> 63" by simp
  moreover have "find_power2 b = 2 ^ n" using n by (intro find_power2_eq) auto
  moreover have "n = 0 \<or> 2 ^ (n - 1) < unat b"
    using n(3) b assms(1) by linarith
  ultimately show ?thesis using n(2) b by (intro exI [of _ n]) linarith
qed

lemma unat_2_power_64: "n < 64 \<Longrightarrow> unat ((2 :: 64 word) ^ n) = 2 ^ n"
proof -
  assume n: "n < 64"
  have "unat ((2 :: 64 word) ^ n) = unat (word_of_nat (2 ^ n) :: 64 word)" by simp
  also have "\<dots> = take_bit 64 (2 ^ n)" by (simp only: unsigned_of_nat) simp
  also have "\<dots> = 2 ^ n" using power_strict_increasing [OF n, of "2 :: nat"] by (intro take_bit_nat_eq_self) simp
  finally show ?thesis .
qed

lemma find_power2_of_power: "n \<le> 63 \<Longrightarrow> find_power2 (2 ^ n) = 2 ^ n"
proof -
  assume n: "n \<le> 63"
  have u: "unat ((2 :: 64 word) ^ n) = 2 ^ n" using n by (intro unat_2_power_64) simp
  then have "(2 :: 64 word) ^ n \<noteq> 0" by (simp only: unat_pos) simp
  then have *: "unat ((2 :: 64 word) ^ n - 1) = 2 ^ n - 1"
    using unat_pred u by metis
  have "n = 0 \<or> (2 :: nat) ^ (n - 1) \<le> 2 ^ n - 1"
    by (cases n) simp_all
  with n show ?thesis
    by (intro find_power2_eq) (simp_all only: *, simp_all)
qed

lemma find_power2_Suc_power: "n \<le> 62 \<Longrightarrow> find_power2 (2 ^ n + 1) = 2 ^ (n + 1)"
proof -
  assume n: "n \<le> 62"
  have "unat ((2 :: 64 word) ^ n) = 2 ^ n"
    using n by (intro unat_2_power_64) simp
  then have *: "unat ((2 :: 64 word) ^ n + 1 - 1) = 2 ^ n"
    by (simp only: add_diff_cancel_right')
  show ?thesis
  proof (rule find_power2_eq)
    show "n + 1 \<le> 64" using n by simp
  qed (simp_all only: *, simp_all)
qed

lemma flatmap_mod_less:
  assumes "n \<le> 63"
  shows "unat (flatmap_mod h (2 ^ n)) < 2 ^ n"
proof -
  have "flatmap_mod h (2 ^ n) = take_bit n h"
    by (simp add: flatmap_mod_def take_bit_eq_mask mask_eq_exp_minus_1)
  then show ?thesis by (simp add: unsigned_take_bit_eq)
qed

text \<open>The crowding test does not wrap: at most 2^57 buckets, at most 2^52 entries.\<close>

lemma is_too_crowded_iff:
  assumes "unat (fm_nbucket m) \<le> 2 ^ 57" "unat (fm_load_factor m) \<le> 100" "unat sz < 2 ^ 52"
  shows "is_too_crowded m sz \<longleftrightarrow>
    unat (fm_nbucket m) * unat (fm_load_factor m) \<le> 100 * unat sz"
proof -
  have "unat (fm_nbucket m) * unat (fm_load_factor m) \<le> 2 ^ 57 * 100"
    using assms by (intro mult_le_mono) auto
  then have "unat (fm_nbucket m) * unat (fm_load_factor m) < 2 ^ 64" by simp
  then have 1: "unat (fm_nbucket m * ucast (fm_load_factor m)) =
      unat (fm_nbucket m) * unat (fm_load_factor m)"
    by (simp add: unat_word_ariths unat_ucast_up)
  have "unat sz * 100 < 2 ^ 64" using assms(3) by simp
  then have 2: "unat (sz * 100) = unat sz * 100"
    by (simp add: unat_word_ariths)
  show ?thesis unfolding is_too_crowded_def word_le_nat_alt 1 2 by (simp add: mult.commute)
qed

subsection \<open>The laws of the operations\<close>

context flat_map_keys
begin

abbreviation inv :: "('k, 'v) flat_map \<Rightarrow> bool" where
  "inv \<equiv> fm_inv ok hashfn eql"

abbreviation lookup :: "('k, 'v) flat_map \<Rightarrow> 'k \<Rightarrow> 'v option" where
  "lookup \<equiv> fm_lookup hashfn eql"

abbreviation slot :: "('k, 'v) flat_map \<Rightarrow> 'k \<Rightarrow> nat" where
  "slot m key \<equiv> unat (flatmap_mod (hashfn key) (fm_nbucket m))"

lemma inv_iff:
  "inv m \<longleftrightarrow> (\<exists>bs n. fm_buckets m = Some bs \<and> n \<le> 57 \<and> fm_nbucket m = 2 ^ n \<and> length bs = 2 ^ n \<and>
     10 \<le> unat (fm_load_factor m) \<and> unat (fm_load_factor m) \<le> 100 \<and>
     unat (fm_size m) = length (concat bs) \<and>
     (\<forall>i < length bs. chain_ok (bs ! i) \<and> (\<forall>e \<in> set (bs ! i). slot m (fst e) = i)))"
  by (auto simp: fm_inv_def chain_ok_def unat_2_power_64 word_le_nat_alt split: option.splits)

lemma inv_bucket:
  assumes "inv m" "fm_buckets m = Some bs"
  shows "fm_bucket hashfn m key = Inr (slot m key, bs ! slot m key)"
    "slot m key < length bs" "chain_ok (bs ! slot m key)"
    "\<forall>e \<in> set (bs ! slot m key). slot m (fst e) = slot m key"
proof -
  obtain n where n: "n \<le> 57" "fm_nbucket m = 2 ^ n" "length bs = 2 ^ n"
    and ok: "\<forall>i < length bs. chain_ok (bs ! i) \<and> (\<forall>e \<in> set (bs ! i). slot m (fst e) = i)"
    using assms unfolding inv_iff by auto
  then show "slot m key < length bs" by (simp add: flatmap_mod_less)
  with ok assms(2) show "fm_bucket hashfn m key = Inr (slot m key, bs ! slot m key)"
    "chain_ok (bs ! slot m key)"
    "\<forall>e \<in> set (bs ! slot m key). slot m (fst e) = slot m key"
    by (auto simp: fm_bucket_def Let_def)
qed

lemma inv_seek:
  assumes "inv m" "fm_buckets m = Some bs"
  shows "fm_seek hashfn eql key m = Inr (chain_find eql key (bs ! slot m key))"
  using inv_bucket(1) [OF assms] assms(2)
  by (simp add: fm_seek_def fm_initialized_def)

lemma inv_lookup:
  assumes "inv m" "fm_buckets m = Some bs"
  shows "lookup m key = chain_find eql key (bs ! slot m key)"
  by (simp add: fm_lookup_def inv_seek [OF assms])

lemma inv_Some: "inv m \<Longrightarrow> \<exists>bs. fm_buckets m = Some bs"
  by (auto simp: inv_iff)

lemma seek_lookup: "inv m \<Longrightarrow> fm_seek hashfn eql key m = Inr (lookup m key)"
  using inv_Some [of m] by (auto simp: inv_seek inv_lookup)

lemma slot_cong: "ok a \<Longrightarrow> ok b \<Longrightarrow> eql a b \<Longrightarrow> slot m a = slot m b"
  using eql_hash by simp

lemma lookup_cong:
  assumes "inv m" "ok a" "ok b" "eql a b"
  shows "lookup m a = lookup m b"
proof -
  obtain bs where bs: "fm_buckets m = Some bs" using inv_Some [OF assms(1)] ..
  have "slot m a = slot m b" by (rule slot_cong [OF assms(2-4)])
  then show ?thesis
    using chain_find_cong [OF inv_bucket(3) [OF assms(1) bs] assms(2-4)]
    by (simp add: inv_lookup [OF assms(1) bs])
qed

lemma length_concat_update:
  "i < length bs \<Longrightarrow> length (concat (bs[i := c])) + length (bs ! i) = length (concat bs) + length c"
proof (induction bs arbitrary: i)
  case (Cons b bs)
  then show ?case by (cases i) fastforce+
qed simp

lemma set_bucket_law:
  assumes inv: "inv m" and bs: "fm_buckets m = Some bs" and i: "i = slot m key"
    and c: "chain_ok c" "\<forall>e \<in> set c. slot m (fst e) = i"
    and sz: "unat sz + length (bs ! i) = unat (fm_size m) + length c"
  shows "inv (fm_set_bucket i c (m\<lparr>fm_size := sz\<rparr>))"
    and "lookup (fm_set_bucket i c (m\<lparr>fm_size := sz\<rparr>)) key' =
      (if slot m key' = i then chain_find eql key' c else lookup m key')"
proof -
  let ?m = "fm_set_bucket i c (m\<lparr>fm_size := sz\<rparr>)"
  obtain n where n: "n \<le> 57" "fm_nbucket m = 2 ^ n" "length bs = 2 ^ n"
    "10 \<le> unat (fm_load_factor m)" "unat (fm_load_factor m) \<le> 100"
    "unat (fm_size m) = length (concat bs)"
    and ok: "\<forall>i < length bs. chain_ok (bs ! i) \<and> (\<forall>e \<in> set (bs ! i). slot m (fst e) = i)"
    using inv bs unfolding inv_iff by auto
  have i': "i < length bs" using inv_bucket(2) [OF inv bs] i by simp
  have bs': "fm_buckets ?m = Some (bs[i := c])" by (simp add: fm_set_bucket_def bs)
  have rest: "fm_nbucket ?m = fm_nbucket m" "fm_load_factor ?m = fm_load_factor m" "fm_size ?m = sz"
    by (simp_all add: fm_set_bucket_def)
  have "unat sz = length (concat (bs[i := c]))"
    using length_concat_update [OF i', of c] sz n(6) by linarith
  moreover have "chain_ok (bs[i := c] ! j) \<and> (\<forall>e \<in> set (bs[i := c] ! j). slot m (fst e) = j)"
    if "j < length bs" for j
    using ok c that i' by (cases "j = i") auto
  ultimately show inv': "inv ?m"
    unfolding inv_iff rest using n bs' by (intro exI [of _ "bs[i := c]"] exI [of _ n]) simp
  show "lookup ?m key' = (if slot m key' = i then chain_find eql key' c else lookup m key')"
    using i' by (simp add: inv_lookup [OF inv' bs'] inv_lookup [OF inv bs] rest)
qed

end

lemma in_set_concatE:
  assumes "x \<in> set (concat bs)"
  obtains i where "i < length bs" "x \<in> set (bs ! i)"
proof -
  obtain b where "b \<in> set bs" "x \<in> set b" using assms by auto
  then show thesis by (metis in_set_conv_nth that)
qed

context flat_map_keys
begin

lemma chain_find_Some_iff:
  assumes "chain_ok c" "ok key"
  shows "chain_find eql key c = Some v \<longleftrightarrow> (\<exists>k. (k, v) \<in> set c \<and> eql k key)"
  using assms(1)
proof (induction c)
  case (Cons e c)
  obtain k0 v0 where e: "e = (k0, v0)" by (cases e)
  have k0: "ok k0" "chain_ok c" "\<forall>x \<in> set c. \<not> eql k0 (fst x)" "\<forall>x \<in> set c. ok (fst x)"
    using Cons.prems by (auto simp: chain_ok_def e)
  have "\<not> eql k key" if "eql k0 key" "(k, v) \<in> set c" for k
    using that k0 assms(2) eql_sym eql_trans by (metis fst_conv)
  with Cons.IH k0 show ?case by (auto simp: e)
qed simp

lemma chain_ok_concat:
  assumes "\<And>i. i < length bs \<Longrightarrow> chain_ok (bs ! i) \<and> (\<forall>e \<in> set (bs ! i). h (fst e) = i + d)"
    and h: "\<And>a b. ok a \<Longrightarrow> ok b \<Longrightarrow> eql a b \<Longrightarrow> h a = (h b :: nat)"
  shows "chain_ok (concat bs)"
  using assms(1)
proof (induction bs arbitrary: d)
  case Nil
  then show ?case by (simp add: chain_ok_def)
next
  case (Cons b bs)
  have b: "chain_ok b" "\<forall>e \<in> set b. h (fst e) = d" using Cons.prems [of 0] by auto
  have rest: "chain_ok (bs ! i) \<and> (\<forall>e \<in> set (bs ! i). h (fst e) = i + Suc d)" if "i < length bs" for i
    using Cons.prems [of "Suc i"] that by simp
  then have "chain_ok (concat bs)" by (rule Cons.IH)
  moreover have "h (fst y) \<noteq> d" if y: "y \<in> set (concat bs)" for y
  proof -
    obtain i where "i < length bs" "y \<in> set (bs ! i)" using y by (rule in_set_concatE)
    then have "h (fst y) = i + Suc d" using rest by blast
    then show ?thesis by simp
  qed
  moreover have "\<not> eql (fst x) (fst y)" if "x \<in> set b" "y \<in> set (concat bs)" for x y
    using calculation b that h unfolding chain_ok_def by metis
  ultimately show ?case using b by (simp add: chain_ok_def sorted_wrt_append ball_Un)
qed

lemma entries_ok:
  assumes "inv m" shows "chain_ok (fm_entries m)"
proof -
  obtain bs where bs: "fm_buckets m = Some bs" using inv_Some [OF assms] ..
  have "chain_ok (concat bs)"
  proof (rule chain_ok_concat [where h = "slot m" and d = 0])
    show "chain_ok (bs ! i) \<and> (\<forall>e \<in> set (bs ! i). slot m (fst e) = i + 0)" if "i < length bs" for i
      using assms bs that by (auto simp: inv_iff)
  qed (rule slot_cong)
  with bs show ?thesis by (simp add: fm_entries_def)
qed

lemma entries_lookup:
  assumes inv: "inv m" and key: "ok key"
  shows "chain_find eql key (fm_entries m) = lookup m key"
proof -
  obtain bs where bs: "fm_buckets m = Some bs" using inv_Some [OF inv] ..
  have s: "slot m key < length bs" by (rule inv_bucket(2) [OF inv bs])
  have member: "(\<exists>k. (k, v) \<in> set (concat bs) \<and> eql k key) \<longleftrightarrow>
      (\<exists>k. (k, v) \<in> set (bs ! slot m key) \<and> eql k key)" for v
  proof
    assume "\<exists>k. (k, v) \<in> set (concat bs) \<and> eql k key"
    then obtain k i where k: "i < length bs" "(k, v) \<in> set (bs ! i)" "eql k key"
      by (meson in_set_concatE)
    have "ok k" "slot m k = i" using inv bs k(1,2) by (fastforce simp: inv_iff chain_ok_def)+
    with k key slot_cong [of k key m] show "\<exists>k. (k, v) \<in> set (bs ! slot m key) \<and> eql k key" by auto
  next
    assume "\<exists>k. (k, v) \<in> set (bs ! slot m key) \<and> eql k key"
    with nth_mem [OF s] show "\<exists>k. (k, v) \<in> set (concat bs) \<and> eql k key" by (metis set_concat UN_I)
  qed
  have "chain_find eql key (concat bs) = Some v \<longleftrightarrow> lookup m key = Some v" for v
    unfolding inv_lookup [OF inv bs]
    using member chain_find_Some_iff [OF inv_bucket(3) [OF inv bs] key]
      chain_find_Some_iff [OF _ key, of "concat bs"] entries_ok [OF inv] bs
    by (simp add: fm_entries_def)
  then have "chain_find eql key (concat bs) = lookup m key" by (metis option.exhaust)
  with bs show ?thesis by (simp add: fm_entries_def)
qed

lemma length_entries: "inv m \<Longrightarrow> length (fm_entries m) = unat (fm_size m)"
  by (auto simp: inv_iff fm_entries_def)

text \<open>A fresh table.\<close>

lemma init_law:
  assumes "1 \<le> unat nb" "unat nb \<le> 2 ^ 57" "10 \<le> lf" "lf \<le> 100" "\<not> fm_initialized m"
  shows "\<exists>m' n. fm_init nb lf m = (True, m') \<and> inv m' \<and> fm_size m' = 0 \<and> fm_load_factor m' = lf \<and>
    fm_nbucket m' = flatmap_round nb \<and> unat nb \<le> unat (fm_nbucket m') \<and> (\<forall>k. lookup m' k = None)"
proof -
  obtain n where n: "n \<le> 63" "find_power2 nb = 2 ^ n" "unat nb \<le> 2 ^ n" "n = 0 \<or> 2 ^ (n - 1) < unat nb"
    using find_power2_bounds [of nb] assms(1,2) by (auto simp: order.trans)
  have n57: "n \<le> 57"
  proof (rule ccontr)
    assume "\<not> n \<le> 57"
    then have "(2 :: nat) ^ 57 \<le> 2 ^ (n - 1)" by (intro power_increasing) auto
    with n(4) assms(2) \<open>\<not> n \<le> 57\<close> show False by simp
  qed
  define m' where "m' = m\<lparr>fm_size := 0, fm_nbucket := 2 ^ n, fm_load_factor := lf,
    fm_buckets := Some (replicate (2 ^ n) [])\<rparr>"
  have u: "unat ((2 :: 64 word) ^ n) = 2 ^ n" using n57 by (intro unat_2_power_64) simp
  have init: "fm_init nb lf m = (True, m')"
    using assms n(2) u by (simp add: fm_init_def m'_def flatmap_round_def not_less)
  have bs: "fm_buckets m' = Some (replicate (2 ^ n) [])" by (simp add: m'_def)
  have inv: "inv m'"
    using n57 assms(3,4)
    by (auto simp: inv_iff m'_def chain_ok_def word_le_nat_alt intro!: exI [of _ n])
  have "lookup m' k = None" for k
    using inv_bucket(2) [OF inv bs, of k] by (simp add: inv_lookup [OF inv bs])
  with init inv n(2,3) u show ?thesis
    by (intro exI [of _ m']) (simp add: m'_def flatmap_round_def)
qed

lemma erase_law:
  assumes inv: "inv m" and key: "ok key"
  shows "\<exists>m'. fm_erase hashfn eql key m = Inr (if lookup m key = None then 0 else 1, lookup m key, m') \<and>
    inv m' \<and> (\<forall>k. ok k \<longrightarrow> lookup m' k = (if eql key k then None else lookup m k)) \<and>
    unat (fm_size m') = unat (fm_size m) - (if lookup m key = None then 0 else 1)"
proof -
  obtain bs where bs: "fm_buckets m = Some bs" using inv_Some [OF inv] ..
  define i where "i = slot m key"
  define c where "c = bs ! i"
  have lk: "lookup m key = chain_find eql key c" by (simp add: inv_lookup [OF inv bs] c_def i_def)
  have bucket: "fm_bucket hashfn m key = Inr (i, c)" using inv_bucket(1) [OF inv bs] by (simp add: c_def i_def)
  have c: "chain_ok c" "\<forall>e \<in> set c. slot m (fst e) = i"
    using inv_bucket(3,4) [OF inv bs] by (auto simp: c_def i_def)
  show ?thesis
  proof (cases "lookup m key")
    case None
    have "lookup m k = None" if "ok k" "eql key k" for k
      using lookup_cong [OF inv key that(1,2)] None by simp
    then show ?thesis using None lk inv bs bucket
      by (simp add: fm_erase_def fm_initialized_def)
  next
    case (Some v)
    define m' where "m' = fm_set_bucket i (chain_erase eql key c) (m\<lparr>fm_size := fm_size m - 1\<rparr>)"
    have len: "length (chain_erase eql key c) = length c - 1" using Some lk by (intro length_chain_erase) simp
    have "0 < length c" using Some lk by (cases c) auto
    moreover have "length c \<le> unat (fm_size m)"
      using inv_bucket(2) [OF inv bs, of key] inv bs
        length_concat_update [of i bs "[]"] by (auto simp: inv_iff c_def i_def)
    ultimately have sz: "unat (fm_size m - 1) = unat (fm_size m) - 1" by (intro unat_pred) auto
    have "unat (fm_size m - 1) + length (bs ! i) = unat (fm_size m) + length (chain_erase eql key c)"
      using sz len \<open>0 < length c\<close> \<open>length c \<le> unat (fm_size m)\<close>
      unfolding c_def by linarith
    note law = set_bucket_law [OF inv bs i_def chain_ok_erase [OF c(1)] _ this, folded m'_def]
    have slots: "\<forall>e \<in> set (chain_erase eql key c). slot m (fst e) = i"
      using c(2) set_chain_erase by (metis subsetD)
    have "lookup m' k = (if eql key k then None else lookup m k)" if "ok k" for k
    proof (cases "slot m k = i")
      case True
      then have "lookup m k = chain_find eql k c" by (simp add: inv_lookup [OF inv bs] c_def)
      with True show ?thesis using law(2) [OF slots, of k] chain_find_erase [OF c(1) key that] by simp
    next
      case False
      then have "\<not> eql key k" using slot_cong [OF key that, of m] i_def by metis
      with False show ?thesis using law(2) [OF slots, of k] by simp
    qed
    moreover have "fm_erase hashfn eql key m = Inr (1, Some v, m')"
      using Some lk bs bucket by (simp add: fm_erase_def fm_initialized_def m'_def)
    moreover have "unat (fm_size m') = unat (fm_size m) - 1"
      using sz by (simp add: m'_def fm_set_bucket_def)
    ultimately show ?thesis using law(1) [OF slots] Some by (intro exI [of _ m']) simp
  qed
qed

lemma clear_law:
  assumes inv: "inv m"
  shows "inv (fm_clear m)" "lookup (fm_clear m) k = None" "fm_size (fm_clear m) = 0"
    "fm_nbucket (fm_clear m) = fm_nbucket m" "fm_load_factor (fm_clear m) = fm_load_factor m"
proof -
  obtain bs where bs: "fm_buckets m = Some bs" using inv_Some [OF inv] ..
  have *: "inv (fm_clear m) \<and> lookup (fm_clear m) k = None"
  proof (cases "fm_size m = 0")
    case True
    then have "concat bs = []" using inv bs by (auto simp: inv_iff)
    then have "bs ! slot m k = []"
      using inv_bucket(2) [OF inv bs, of k] by (simp del: concat_eq_Nil_conv add: concat_eq_Nil_conv)
    with True inv show ?thesis by (simp add: fm_clear_def inv_lookup [OF inv bs])
  next
    case False
    let ?m = "fm_clear m"
    have bs': "fm_buckets ?m = Some (map (\<lambda>_. []) bs)" using False bs by (simp add: fm_clear_def)
    have inv': "inv ?m"
      using inv bs False by (auto simp: inv_iff fm_clear_def chain_ok_def)
    show ?thesis
      using inv' inv_bucket(2) [OF inv' bs', of k] by (simp add: inv_lookup [OF inv' bs'])
  qed
  then show "inv (fm_clear m)" "lookup (fm_clear m) k = None" by blast+
  show "fm_size (fm_clear m) = 0" "fm_nbucket (fm_clear m) = fm_nbucket m"
    "fm_load_factor (fm_clear m) = fm_load_factor m"
    by (simp_all add: fm_clear_def)
qed

text \<open>What using the reference \<^verbatim>\<open>operator[]\<close> returns does to a map.\<close>

definition used :: "'v \<Rightarrow> ('v \<Rightarrow> 'v) \<Rightarrow> 'k \<Rightarrow> ('k, 'v) flat_map \<Rightarrow> ('k, 'v) flat_map \<Rightarrow> bool" where
  "used dflt use key m m' \<longleftrightarrow>
     inv m' \<and> fm_load_factor m' = fm_load_factor m \<and> unat (fm_nbucket m) \<le> unat (fm_nbucket m') \<and>
     unat (fm_size m') = unat (fm_size m) + (if lookup m key = None then 1 else 0) \<and>
     (\<forall>k. ok k \<longrightarrow> lookup m' k =
        (if eql key k then Some (use (case lookup m key of None \<Rightarrow> dflt | Some v \<Rightarrow> v)) else lookup m k))"

lemma append_law:
  assumes inv: "inv m" and bs: "fm_buckets m = Some bs" and key: "ok key"
    and None: "lookup m key = None" and size: "unat (fm_size m) < 2 ^ 52"
  shows "used dflt use key m
    (fm_set_bucket (slot m key) (bs ! slot m key @ [(key, use dflt)]) (m\<lparr>fm_size := fm_size m + 1\<rparr>))"
    (is "used _ _ _ _ ?m")
proof -
  let ?c = "bs ! slot m key"
  have c: "chain_ok ?c" "\<forall>e \<in> set ?c. slot m (fst e) = slot m key"
    using inv_bucket(3,4) [OF inv bs] by auto
  have none: "chain_find eql key ?c = None" using None by (simp add: inv_lookup [OF inv bs])
  have sz: "unat (fm_size m + 1) = unat (fm_size m) + 1"
    using size by (simp add: unat_word_ariths)
  have "unat (fm_size m + 1) + length ?c = unat (fm_size m) + length (?c @ [(key, use dflt)])"
    by (simp add: sz)
  note law = set_bucket_law [OF inv bs refl chain_ok_snoc [OF c(1) key none] _ this]
  have slots: "\<forall>e \<in> set (?c @ [(key, use dflt)]). slot m (fst e) = slot m key" using c(2) by auto
  have "lookup ?m k = (if eql key k then Some (use dflt) else lookup m k)" if "ok k" for k
  proof (cases "slot m k = slot m key")
    case True
    have "chain_find eql k ?c = None" if "eql key k"
      using chain_find_cong [OF c(1) key \<open>ok k\<close> that] none by simp
    with True show ?thesis using law(2) [OF slots, of k]
      by (auto simp: chain_find_append inv_lookup [OF inv bs] split: option.splits)
  next
    case False
    then have "\<not> eql key k" using slot_cong [OF key that, of m] by metis
    with False show ?thesis using law(2) [OF slots, of k] by simp
  qed
  with law(1) [OF slots] sz None show ?thesis
    by (simp add: used_def fm_set_bucket_def)
qed

lemma update_law:
  assumes inv: "inv m" and bs: "fm_buckets m = Some bs" and key: "ok key"
    and Some: "lookup m key = Some v"
  shows "used dflt use key m (fm_set_bucket (slot m key) (chain_update eql key use (bs ! slot m key)) m)"
    (is "used _ _ _ _ ?m")
proof -
  let ?c = "bs ! slot m key"
  let ?u = "chain_update eql key use ?c"
  have c: "chain_ok ?c" "\<forall>e \<in> set ?c. slot m (fst e) = slot m key"
    using inv_bucket(3,4) [OF inv bs] by auto
  have len: "unat (fm_size m) + length ?c = unat (fm_size m) + length ?u"
    by (metis chain_update_keys length_map)
  have "fst ` set ?u = fst ` set ?c" by (metis chain_update_keys list.set_map)
  then have slots: "\<forall>e \<in> set ?u. slot m (fst e) = slot m key" using c(2)
    by (metis (no_types, lifting) imageE imageI)
  note law = set_bucket_law [OF inv bs refl chain_ok_update [OF c(1)] slots len]
  have "lookup ?m k = (if eql key k then Some (use v) else lookup m k)" if "ok k" for k
  proof (cases "slot m k = slot m key")
    case True
    then show ?thesis using law(2) [of k] chain_find_update [OF c(1) key that, of use] Some
      by (simp add: inv_lookup [OF inv bs])
  next
    case False
    then have "\<not> eql key k" using slot_cong [OF key that, of m] by metis
    with False show ?thesis using law(2) [of k] by simp
  qed
  with law(1) Some show ?thesis
    by (simp add: used_def fm_set_bucket_def)
qed

text \<open>Copying entries into a table, by an insertion that obeys the law.\<close>

lemma fold_put_law:
  assumes put: "\<And>k v m. inv m \<Longrightarrow> ok k \<Longrightarrow> unat (fm_size m) \<le> N \<Longrightarrow> fm_load_factor m = L \<Longrightarrow>
      B \<le> unat (fm_nbucket m) \<Longrightarrow> \<exists>m'. put k v m = Inr m' \<and> used dflt (\<lambda>_. v) k m m'"
  shows "inv m \<Longrightarrow> fm_load_factor m = L \<Longrightarrow> B \<le> unat (fm_nbucket m) \<Longrightarrow> chain_ok es \<Longrightarrow>
    (\<And>e. e \<in> set es \<Longrightarrow> lookup m (fst e) = None) \<Longrightarrow> unat (fm_size m) + length es \<le> N \<Longrightarrow>
    \<exists>m'. foldE (\<lambda>m' (k, v). put k v m') m es = Inr m' \<and> inv m' \<and> fm_load_factor m' = L \<and>
      B \<le> unat (fm_nbucket m') \<and> unat (fm_size m') = unat (fm_size m) + length es \<and>
      (\<forall>k. ok k \<longrightarrow> lookup m' k =
        (case chain_find eql k es of None \<Rightarrow> lookup m k | Some v \<Rightarrow> Some v))"
proof (induction es arbitrary: m)
  case Nil
  then show ?case by simp
next
  case (Cons e es)
  obtain k v where e: "e = (k, v)" by (cases e)
  have k: "ok k" "chain_ok es" and distinct: "\<forall>x \<in> set es. \<not> eql k (fst x) \<and> ok (fst x)"
    using Cons.prems(4) by (auto simp: chain_ok_def e)
  obtain m1 where m1: "put k v m = Inr m1" and used: "used dflt (\<lambda>_. v) k m m1"
    using put [of m k v] Cons.prems k by auto
  have none: "lookup m k = None" using Cons.prems(5) [of e] by (simp add: e)
  have m1_law: "inv m1" "fm_load_factor m1 = L" "B \<le> unat (fm_nbucket m1)"
      "unat (fm_size m1) = unat (fm_size m) + 1"
      "\<And>k'. ok k' \<Longrightarrow> lookup m1 k' = (if eql k k' then Some v else lookup m k')"
    using used Cons.prems(2,3) none by (auto simp: used_def)
  have "lookup m1 (fst x) = None" if "x \<in> set es" for x
    using m1_law(5) [of "fst x"] distinct that Cons.prems(5) [of x] by simp
  then obtain m' where m': "foldE (\<lambda>m' (k, v). put k v m') m1 es = Inr m'" "inv m'"
      "fm_load_factor m' = L" "B \<le> unat (fm_nbucket m')"
      "unat (fm_size m') = unat (fm_size m1) + length es"
      "\<forall>k. ok k \<longrightarrow> lookup m' k = (case chain_find eql k es of None \<Rightarrow> lookup m1 k | Some v \<Rightarrow> Some v)"
    using Cons.IH [OF m1_law(1-3) k(2)] Cons.prems(6) m1_law(4) by auto
  have "lookup m' k' = (case chain_find eql k' (e # es) of None \<Rightarrow> lookup m k' | Some v \<Rightarrow> Some v)"
    if "ok k'" for k'
  proof (cases "eql k k'")
    case True
    then have "chain_find eql k' es = None"
      unfolding chain_find_None_iff using distinct that k(1) eql_sym eql_trans by metis
    with True that show ?thesis using m'(6) m1_law(5) by (simp add: e)
  next
    case False
    with that show ?thesis using m'(6) m1_law(5) [OF that]
      by (simp add: e split: option.splits)
  qed
  with m' m1 m1_law(4) show ?case by (simp add: e)
qed

lemma resize_law:
  assumes put: "\<And>k v m. inv m \<Longrightarrow> ok k \<Longrightarrow> unat (fm_size m) \<le> N \<Longrightarrow> fm_load_factor m = L \<Longrightarrow>
      B \<le> unat (fm_nbucket m) \<Longrightarrow> \<exists>m'. put k v m = Inr m' \<and> used dflt (\<lambda>_. v) k m m'"
    and inv: "inv m" "fm_load_factor m = L" "unat (fm_size m) \<le> N"
    and nb: "flatmap_round nb = 2 ^ n" "n \<le> 57" "B \<le> 2 ^ n"
  shows "\<exists>m'. fm_resize_with put nb m = Inr (fm_nbucket m \<noteq> 2 ^ n, m') \<and> inv m' \<and>
    fm_load_factor m' = L \<and> (fm_nbucket m \<noteq> 2 ^ n \<longrightarrow> B \<le> unat (fm_nbucket m')) \<and>
    fm_size m' = fm_size m \<and>
    (\<forall>k. ok k \<longrightarrow> lookup m' k = lookup m k)"
proof (cases "fm_nbucket m = 2 ^ n")
  case True
  with inv nb show ?thesis by (simp add: fm_resize_with_def)
next
  case False
  have u: "unat ((2 :: 64 word) ^ n) = 2 ^ n" using nb(2) by (intro unat_2_power_64) simp
  have "(2 :: nat) ^ n \<le> 2 ^ 57" using nb(2) by (intro power_increasing) auto
  moreover have "10 \<le> L" "L \<le> 100" using inv by (auto simp: inv_iff word_le_nat_alt)
  ultimately obtain m0 :: "('k, 'a) flat_map" where m0: "fm_init (2 ^ n) L fm_new = (True, m0)" "inv m0"
      "fm_size m0 = 0" "fm_load_factor m0 = L"
      "fm_nbucket m0 = flatmap_round (2 ^ n)" "\<forall>k. lookup m0 k = None"
    using init_law [of "2 ^ n" L "fm_new :: ('k, 'a) flat_map"] unfolding u
    by (auto simp: fm_initialized_def fm_new_def)
  have nb0: "fm_nbucket m0 = 2 ^ n"
    using nb(2) by (simp add: m0(5) flatmap_round_def find_power2_of_power)
  have *: "B \<le> unat (fm_nbucket m0)" "unat (fm_size m0) + length (fm_entries m) \<le> N"
    using nb0 u nb(3) m0(3) inv(3) length_entries [OF inv(1)] by simp_all
  obtain m' where m': "foldE (\<lambda>m' (k, v). put k v m') m0 (fm_entries m) = Inr m'" "inv m'"
      "fm_load_factor m' = L" "B \<le> unat (fm_nbucket m')"
      "unat (fm_size m') = unat (fm_size m0) + length (fm_entries m)"
    and look: "\<forall>k. ok k \<longrightarrow> lookup m' k =
      (case chain_find eql k (fm_entries m) of None \<Rightarrow> lookup m0 k | Some v \<Rightarrow> Some v)"
    using fold_put_law [of N L B put dflt m0 "fm_entries m", OF put m0(2,4) *(1) entries_ok [OF inv(1)] _ *(2)]
      m0(6) by blast
  have look': "lookup m' k = lookup m k" if "ok k" for k
    using look that m0(6) entries_lookup [OF inv(1) that] by (simp split: option.splits)
  have "fm_size m' = fm_size m"
    using m'(5) m0(3) length_entries [OF inv(1)] by (simp add: word_unat_eq_iff)
  with False m'(1-4) m0(1) nb(1) inv(2) look' show ?thesis
    by (simp add: fm_resize_with_def)
qed

text \<open>\<^verbatim>\<open>operator[]\<close> by cases; with every unit of fuel the number of buckets doubles.\<close>

lemma index_Suc:
  assumes "inv m" "fm_buckets m = Some bs"
  shows "fm_index (Suc f) hashfn eql dflt use key m =
    (let c = bs ! slot m key;
         app = Inr (fm_set_bucket (slot m key) (c @ [(key, use dflt)]) (m\<lparr>fm_size := fm_size m + 1\<rparr>)) in
     if lookup m key \<noteq> None then Inr (fm_set_bucket (slot m key) (chain_update eql key use c) m)
     else if c = [] \<or> \<not> is_too_crowded m (fm_size m) then app
     else bindE (fm_resize_with (\<lambda>k v. fm_index f hashfn eql dflt (\<lambda>_. v) k) (fm_nbucket m + 1) m)
            (\<lambda>(resized, m'). if resized then fm_index f hashfn eql dflt use key m' else app))"
  by (cases "bs ! slot m key = []")
    (simp_all add: inv_bucket(1) [OF assms] inv_lookup [OF assms] Let_def fm_index.simps)

lemma crowded_doubles:
  assumes inv: "inv m" and size: "unat (fm_size m) < 2 ^ 52" and crowded: "is_too_crowded m (fm_size m)"
  shows "\<exists>n \<le> 57. flatmap_round (fm_nbucket m + 1) = 2 ^ n \<and> fm_nbucket m \<noteq> 2 ^ n \<and>
    2 ^ n = 2 * unat (fm_nbucket m)"
proof -
  obtain n where n: "n \<le> 57" "fm_nbucket m = 2 ^ n"
    and lf: "10 \<le> unat (fm_load_factor m)" "unat (fm_load_factor m) \<le> 100"
    using inv by (auto simp: inv_iff)
  have u: "unat (fm_nbucket m) = 2 ^ n" using n by (simp add: unat_2_power_64)
  have "(2 :: nat) ^ n \<le> 2 ^ 57" using n(1) by (intro power_increasing) auto
  then have "2 ^ n * unat (fm_load_factor m) \<le> 100 * unat (fm_size m)"
    using crowded lf(2) size u by (subst (asm) is_too_crowded_iff) auto
  moreover have "2 ^ n * 10 \<le> 2 ^ n * unat (fm_load_factor m)" using lf(1) by simp
  moreover have "unat (fm_size m) < 4503599627370496" using size by simp
  ultimately have "(2 :: nat) ^ n < 72057594037927936" by linarith
  then have "(2 :: nat) ^ n < 2 ^ 56" by simp
  then have n56: "n < 56" by (rule power_less_imp_less_exp [rotated]) simp
  have "unat ((2 :: 64 word) ^ (n + 1)) = 2 ^ (n + 1)" using n56 by (intro unat_2_power_64) simp
  then have "fm_nbucket m \<noteq> 2 ^ (n + 1)" using u by (metis less_add_one nat_neq_iff one_less_numeral_iff power_strict_increasing_iff semiring_norm(76))
  moreover have "flatmap_round (fm_nbucket m + 1) = 2 ^ (n + 1)"
    using n56 by (simp only: flatmap_round_def n(2) find_power2_Suc_power)
  ultimately show ?thesis using n56 u by (intro exI [of _ "n + 1"]) simp
qed

lemma index_law:
  assumes "inv m" "ok key" "unat (fm_size m) \<le> N" "N < 2 ^ 52"
    "100 * N < unat (fm_nbucket m) * unat (fm_load_factor m) * 2 ^ f"
  shows "\<exists>m'. fm_index (Suc f) hashfn eql dflt use key m = Inr m' \<and> used dflt use key m m'"
  using assms
proof (induction f arbitrary: m key use)
  case 0
  obtain bs where bs: "fm_buckets m = Some bs" using inv_Some [OF 0(1)] ..
  have size: "unat (fm_size m) < 2 ^ 52" using 0(3,4) by linarith
  have lf: "unat (fm_nbucket m) \<le> 2 ^ 57" "unat (fm_load_factor m) \<le> 100"
    using 0(1) by (auto simp: inv_iff unat_2_power_64 intro!: power_increasing [of _ 57 "2 :: nat", simplified])
  have calm: "\<not> is_too_crowded m (fm_size m)"
    using 0(3,5) by (simp add: is_too_crowded_iff [OF lf size])
  show ?case
  proof (cases "lookup m key")
    case None
    then show ?thesis
      using append_law [OF 0(1) bs 0(2) None size, of dflt use] calm
      by (simp add: index_Suc [OF 0(1) bs] Let_def)
  next
    case (Some v)
    then show ?thesis
      using update_law [OF 0(1) bs 0(2) Some, of dflt use]
      by (simp add: index_Suc [OF 0(1) bs] Let_def)
  qed
next
  case (Suc f)
  obtain bs where bs: "fm_buckets m = Some bs" using inv_Some [OF Suc(2)] ..
  have size: "unat (fm_size m) < 2 ^ 52" using Suc(4,5) by linarith
  note step = index_Suc [OF Suc(2) bs, of "Suc f" dflt "use" key]
  show ?case
  proof (cases "lookup m key")
    case (Some v)
    then show ?thesis
      using update_law [OF Suc(2) bs Suc(3) Some, of dflt "use"] unfolding step by (simp add: Let_def)
  next
    case None
    note append = append_law [OF Suc(2) bs Suc(3) None size, of dflt "use"]
    show ?thesis
    proof (cases "bs ! slot m key = [] \<or> \<not> is_too_crowded m (fm_size m)")
      case True
      with None append show ?thesis unfolding step by (auto simp: Let_def)
    next
      case False
      then obtain n where n: "n \<le> 57" "flatmap_round (fm_nbucket m + 1) = 2 ^ n"
          "fm_nbucket m \<noteq> 2 ^ n" "2 ^ n = 2 * unat (fm_nbucket m)"
        using crowded_doubles [OF Suc(2) size] by blast
      let ?put = "\<lambda>k v. fm_index (Suc f) hashfn eql dflt (\<lambda>_. v) k"
      have fuel: "100 * N < unat (fm_nbucket m') * unat (fm_load_factor m') * 2 ^ f"
        if "fm_load_factor m' = fm_load_factor m" "2 ^ n \<le> unat (fm_nbucket m')" for m' :: "('k, 'a) flat_map"
      proof -
        have "100 * N < 2 ^ n * unat (fm_load_factor m) * 2 ^ f"
          using Suc(6) by (simp add: n(4) ac_simps)
        also have "\<dots> \<le> unat (fm_nbucket m') * unat (fm_load_factor m') * 2 ^ f"
          using that by (intro mult_le_mono) auto
        finally show ?thesis .
      qed
      have put: "\<exists>m''. ?put k v m' = Inr m'' \<and> used dflt (\<lambda>_. v) k m' m''"
        if "inv m'" "ok k" "unat (fm_size m') \<le> N" "fm_load_factor m' = fm_load_factor m"
          "2 ^ n \<le> unat (fm_nbucket m')" for k v m'
        using Suc.IH [OF that(1-3) Suc(5) fuel [OF that(4,5)]] .
      have "\<exists>m'. fm_resize_with ?put (fm_nbucket m + 1) m = Inr (fm_nbucket m \<noteq> 2 ^ n, m') \<and> inv m' \<and>
          fm_load_factor m' = fm_load_factor m \<and> (fm_nbucket m \<noteq> 2 ^ n \<longrightarrow> 2 ^ n \<le> unat (fm_nbucket m')) \<and>
          fm_size m' = fm_size m \<and> (\<forall>k. ok k \<longrightarrow> lookup m' k = lookup m k)"
        by (rule resize_law [OF put Suc(2) refl Suc(4) n(2,1) order_refl])
      with n(3) obtain m' where m': "fm_resize_with ?put (fm_nbucket m + 1) m = Inr (True, m')" "inv m'"
          "fm_load_factor m' = fm_load_factor m" "2 ^ n \<le> unat (fm_nbucket m')"
          "fm_size m' = fm_size m" "\<forall>k. ok k \<longrightarrow> lookup m' k = lookup m k"
        by auto
      have "unat (fm_size m') \<le> N" using Suc(4) m'(5) by simp
      from Suc.IH [OF m'(2) Suc(3) this Suc(5) fuel [OF m'(3,4)], of "use"]
      obtain m'' where m'': "fm_index (Suc f) hashfn eql dflt use key m' = Inr m''" "used dflt use key m' m''"
        by blast
      have "used dflt use key m m''"
        using m''(2) m'(3-6) n(4) Suc(3) by (auto simp: used_def)
      with False None m'(1) m''(1) show ?thesis unfolding step by (simp add: Let_def)
    qed
  qed
qed

lemma put_law:
  assumes "inv m" "ok key" "unat (fm_size m) < 2 ^ 52"
  shows "\<exists>m'. fm_put hashfn eql dflt key v m = Inr m' \<and> used dflt (\<lambda>_. v) key m m'"
proof -
  obtain n where n: "n \<le> 57" "fm_nbucket m = 2 ^ n" "10 \<le> unat (fm_load_factor m)"
    using assms(1) by (auto simp: inv_iff)
  have "unat (fm_nbucket m) = 2 ^ n" using n(1,2) by (simp add: unat_2_power_64)
  then have "1 * 10 * 2 ^ 63 \<le> unat (fm_nbucket m) * unat (fm_load_factor m) * 2 ^ 63"
    using n(3) by (intro mult_le_mono) auto
  moreover have "100 * unat (fm_size m) < 1 * 10 * 2 ^ 63" using assms(3) by simp
  ultimately have "100 * unat (fm_size m) < unat (fm_nbucket m) * unat (fm_load_factor m) * 2 ^ 63"
    by (rule less_le_trans [rotated])
  from index_law [OF assms(1,2) order_refl assms(3) this, of dflt "\<lambda>_. v"] show ?thesis
    by (simp add: fm_put_def)
qed

lemma put_law_full:
  assumes "inv m" "ok key" "unat (fm_size m) < 2 ^ 52"
  shows "\<exists>m'. fm_put hashfn eql dflt key v m = Inr m' \<and> inv m' \<and>
    unat (fm_size m') \<le> unat (fm_size m) + 1 \<and>
    (\<forall>k. ok k \<longrightarrow> lookup m' k = (if eql key k then Some v else lookup m k))"
  using put_law [OF assms, of dflt v] by (auto simp: used_def split: if_splits)

lemma resize_op_law:
  assumes inv: "inv m" and size: "unat (fm_size m) < 2 ^ 52" and nb: "1 \<le> unat nb" "unat nb \<le> 2 ^ 57"
  shows "\<exists>r m'. fm_resize hashfn eql dflt nb m = Inr (r, m') \<and> inv m' \<and> fm_size m' = fm_size m \<and>
    (\<forall>k. ok k \<longrightarrow> lookup m' k = lookup m k)"
proof -
  obtain n where n: "n \<le> 63" "find_power2 nb = 2 ^ n" "n = 0 \<or> 2 ^ (n - 1) < unat nb"
    using find_power2_bounds [of nb] nb by (auto simp: order.trans)
  have "n \<le> 57"
  proof (rule ccontr)
    assume "\<not> n \<le> 57"
    then have "(2 :: nat) ^ 57 \<le> 2 ^ (n - 1)" by (intro power_increasing) auto
    with n(3) nb(2) \<open>\<not> n \<le> 57\<close> show False by simp
  qed
  have put: "\<exists>m''. fm_put hashfn eql dflt k v m' = Inr m'' \<and> used dflt (\<lambda>_. v) k m' m''"
    if "inv m'" "ok k" "unat (fm_size m') \<le> unat (fm_size m)" "fm_load_factor m' = fm_load_factor m"
      "0 \<le> unat (fm_nbucket m')" for k v m'
    using put_law [OF that(1,2)] that(3) size by simp
  have round: "flatmap_round nb = 2 ^ n" by (simp add: flatmap_round_def n(2))
  have "\<exists>m'. fm_resize hashfn eql dflt nb m = Inr (fm_nbucket m \<noteq> 2 ^ n, m') \<and> inv m' \<and>
      fm_load_factor m' = fm_load_factor m \<and> (fm_nbucket m \<noteq> 2 ^ n \<longrightarrow> 0 \<le> unat (fm_nbucket m')) \<and>
      fm_size m' = fm_size m \<and> (\<forall>k. ok k \<longrightarrow> lookup m' k = lookup m k)"
    unfolding fm_resize_def by (rule resize_law [OF put inv refl order_refl round \<open>n \<le> 57\<close> le0])
  then show ?thesis by blast
qed

text \<open>Copying a table gives the same map, whatever the tables' sizes.\<close>

lemma assign_law:
  assumes rhs: "inv rhs" "unat (fm_size rhs) < 2 ^ 52" and m: "inv m \<or> m = fm_new"
  shows "\<exists>m'. fm_assign hashfn eql dflt rhs m = Inr m' \<and>
    (inv m' \<or> m' = fm_new) \<and> (\<forall>k. ok k \<longrightarrow> lookup m' k = lookup rhs k) \<and> fm_size m' = fm_size rhs"
proof (cases "fm_size rhs = 0")
  case True
  then have none: "lookup rhs k = None" if "ok k" for k
    using entries_lookup [OF rhs(1) that] length_entries [OF rhs(1)] by simp
  show ?thesis
  proof (cases "m = fm_new")
    case True
    then show ?thesis using none \<open>fm_size rhs = 0\<close>
      by (simp add: fm_assign_def fm_empty_def fm_new_def fm_clear_def fm_lookup_def fm_seek_def fm_initialized_def)
  next
    case False
    then show ?thesis using m clear_law [of m] none \<open>fm_size rhs = 0\<close>
      by (simp add: fm_assign_def fm_empty_def)
  qed
next
  case False
  define m1 where "m1 = fm_clear m"
  define m2 where "m2 = (if fm_initialized m1 then m1 else m1\<lparr>fm_load_factor := fm_load_factor rhs\<rparr>)"
  define m3 where "m3 = (if fm_buckets m2 = None \<or> is_too_crowded m2 (fm_size rhs)
    then m2\<lparr>fm_nbucket := fm_nbucket rhs, fm_buckets := Some []\<rparr> else m2)"
  have run: "fm_assign hashfn eql dflt rhs m =
    (if fm_nbucket m3 = fm_nbucket rhs
     then Inr (m3\<lparr>fm_buckets := fm_buckets rhs, fm_size := fm_size rhs\<rparr>)
     else foldE (\<lambda>m' (k, v). fm_put hashfn eql dflt k v m') m3 (fm_entries rhs))"
    using False by (simp add: fm_assign_def fm_empty_def m1_def m2_def m3_def Let_def)
  obtain bs where bs: "fm_buckets rhs = Some bs" using inv_Some [OF rhs(1)] ..
  have lf: "10 \<le> unat (fm_load_factor m3) \<and> unat (fm_load_factor m3) \<le> 100"
  proof (cases "m = fm_new")
    case True
    then have "fm_load_factor m3 = fm_load_factor rhs"
      by (simp add: m3_def m2_def m1_def fm_new_def fm_clear_def fm_initialized_def)
    with rhs(1) show ?thesis by (auto simp: inv_iff)
  next
    case False
    then have "inv m1" using m clear_law(1) by (auto simp: m1_def)
    then have "inv m1" "fm_load_factor m3 = fm_load_factor m1"
      by (auto simp: m3_def m2_def inv_iff fm_initialized_def)
    then show ?thesis by (auto simp: inv_iff)
  qed
  show ?thesis
  proof (cases "fm_nbucket m3 = fm_nbucket rhs")
    case True
    let ?m = "m3\<lparr>fm_buckets := fm_buckets rhs, fm_size := fm_size rhs\<rparr>"
    have inv': "inv ?m" using rhs(1) lf True unfolding inv_iff by auto
    have bs': "fm_buckets ?m = Some bs" by (simp add: bs)
    have "lookup ?m k = lookup rhs k" for k
      using True by (simp add: inv_lookup [OF inv' bs'] inv_lookup [OF rhs(1) bs])
    with inv' True run show ?thesis by simp
  next
    case False
    then have m3: "m3 = m2" "fm_buckets m2 \<noteq> None" by (auto simp: m3_def split: if_splits)
    then have "m3 = m1" by (auto simp: m2_def fm_initialized_def split: if_splits)
    moreover have "m \<noteq> fm_new"
      using m3 \<open>m3 = m1\<close> by (auto simp: m1_def fm_new_def fm_clear_def)
    ultimately have m3_law: "inv m3" "\<And>k. lookup m3 k = None" "fm_size m3 = 0"
      using m clear_law [of m] by (auto simp: m1_def)
    have put: "\<exists>m''. fm_put hashfn eql dflt k v m' = Inr m'' \<and> used dflt (\<lambda>_. v) k m' m''"
      if "inv m'" "ok k" "unat (fm_size m') \<le> unat (fm_size rhs)" "fm_load_factor m' = fm_load_factor m3"
        "0 \<le> unat (fm_nbucket m')" for k v m'
      using put_law [OF that(1,2)] that(3) rhs(2) by simp
    have len: "unat (fm_size m3) + length (fm_entries rhs) \<le> unat (fm_size rhs)"
      using m3_law(3) length_entries [OF rhs(1)] by simp
    obtain m' where m': "foldE (\<lambda>m' (k, v). fm_put hashfn eql dflt k v m') m3 (fm_entries rhs) = Inr m'"
        "inv m'" "unat (fm_size m') = unat (fm_size m3) + length (fm_entries rhs)"
      and look: "\<forall>k. ok k \<longrightarrow> lookup m' k =
        (case chain_find eql k (fm_entries rhs) of None \<Rightarrow> lookup m3 k | Some v \<Rightarrow> Some v)"
      using fold_put_law [OF put m3_law(1) refl le0 entries_ok [OF rhs(1)] _ len] m3_law(2) by blast
    have "lookup m' k = lookup rhs k" if "ok k" for k
      using look that m3_law(2) entries_lookup [OF rhs(1) that] by (simp split: option.splits)
    moreover have "fm_size m' = fm_size rhs"
      using m'(3) m3_law(3) length_entries [OF rhs(1)] by (simp add: word_unat_eq_iff)
    ultimately show ?thesis using run False m'(1,2) by simp
  qed
qed

end

subsection \<open>The contract of a keyed store\<close>

datatype ('k, 'v) store_op = Put 'k 'v | Erase 'k

primrec op_key :: "('k, 'v) store_op \<Rightarrow> 'k" where
  "op_key (Put k v) = k"
| "op_key (Erase k) = k"

text \<open>The map a sequence of operations describes: the last operation on an equal key decides.\<close>

fun map_step :: "('k \<Rightarrow> 'k \<Rightarrow> bool) \<Rightarrow> ('k \<Rightarrow> 'v option) \<Rightarrow> ('k, 'v) store_op \<Rightarrow> 'k \<Rightarrow> 'v option" where
  "map_step eql M (Put k v) = (\<lambda>k'. if eql k k' then Some v else M k')"
| "map_step eql M (Erase k) = (\<lambda>k'. if eql k k' then None else M k')"

fun store_step ::
  "('k \<Rightarrow> 'v \<Rightarrow> 'm \<Rightarrow> 'm run) \<Rightarrow> ('k \<Rightarrow> 'm \<Rightarrow> 'm run) \<Rightarrow> 'm \<Rightarrow> ('k, 'v) store_op \<Rightarrow> 'm run" where
  "store_step store remove m (Put k v) = store k v m"
| "store_step store remove m (Erase k) = remove k m"

locale keyed_store =
  fixes ok :: "'k \<Rightarrow> bool" and eql :: "'k \<Rightarrow> 'k \<Rightarrow> bool" and good :: "'m \<Rightarrow> bool"
    and get :: "'m \<Rightarrow> 'k \<Rightarrow> 'v option" and count :: "'m \<Rightarrow> nat" and limit :: nat
    and store :: "'k \<Rightarrow> 'v \<Rightarrow> 'm \<Rightarrow> 'm run" and remove :: "'k \<Rightarrow> 'm \<Rightarrow> 'm run"
  assumes store_law: "good m \<Longrightarrow> ok k \<Longrightarrow> count m < limit \<Longrightarrow>
      \<exists>m'. store k v m = Inr m' \<and> good m' \<and> count m' \<le> count m + 1 \<and>
        (\<forall>k'. ok k' \<longrightarrow> get m' k' = (if eql k k' then Some v else get m k'))"
    and remove_law: "good m \<Longrightarrow> ok k \<Longrightarrow>
      \<exists>m'. remove k m = Inr m' \<and> good m' \<and> count m' \<le> count m \<and>
        (\<forall>k'. ok k' \<longrightarrow> get m' k' = (if eql k k' then None else get m k'))"
begin

abbreviation step :: "'m \<Rightarrow> ('k, 'v) store_op \<Rightarrow> 'm run" where
  "step \<equiv> store_step store remove"

lemma step_refines:
  assumes "good m" "ok (op_key op)" "count m < limit" "\<And>k. ok k \<Longrightarrow> get m k = M k"
  shows "\<exists>m'. step m op = Inr m' \<and> good m' \<and> count m' \<le> count m + 1 \<and>
    (\<forall>k. ok k \<longrightarrow> get m' k = map_step eql M op k)"
proof (cases op)
  case (Put k v)
  with store_law [of m k v] assms show ?thesis by fastforce
next
  case (Erase k)
  with remove_law [of m k] assms show ?thesis by fastforce
qed

lemma run_refines:
  "good m \<Longrightarrow> (\<And>op. op \<in> set ops \<Longrightarrow> ok (op_key op)) \<Longrightarrow> count m + length ops \<le> limit \<Longrightarrow>
   (\<And>k. ok k \<Longrightarrow> get m k = M k) \<Longrightarrow>
   \<exists>m'. foldE step m ops = Inr m' \<and> good m' \<and> count m' \<le> count m + length ops \<and>
     (\<forall>k. ok k \<longrightarrow> get m' k = foldl (map_step eql) M ops k)"
proof (induction ops arbitrary: m M)
  case Nil
  then show ?case by simp
next
  case (Cons op ops)
  obtain m1 where m1: "step m op = Inr m1" "good m1" "count m1 \<le> count m + 1"
      "\<forall>k. ok k \<longrightarrow> get m1 k = map_step eql M op k"
    using step_refines [of m op M] Cons.prems by auto
  from m1 Cons.prems Cons.IH [of m1 "map_step eql M op"] show ?case by fastforce
qed

end

text \<open>A \<^verbatim>\<open>FlatMap\<close> is a keyed store of up to 2^52 entries; \<open>fm_remove\<close> is \<^verbatim>\<open>erase\<close> without its results.\<close>

definition fm_remove ::
  "('k \<Rightarrow> 64 word) \<Rightarrow> ('k \<Rightarrow> 'k \<Rightarrow> bool) \<Rightarrow> 'k \<Rightarrow> ('k, 'v) flat_map \<Rightarrow> ('k, 'v) flat_map run" where
  "fm_remove hashfn eql key m = mapE (\<lambda>(n, v, m'). m') (fm_erase hashfn eql key m)"

locale flat_map_store = flat_map_keys ok hashfn eql
  for ok :: "'k \<Rightarrow> bool" and hashfn :: "'k \<Rightarrow> 64 word" and eql :: "'k \<Rightarrow> 'k \<Rightarrow> bool" +
  fixes dflt :: 'v

sublocale flat_map_store \<subseteq> keyed_store ok eql
  "fm_inv ok hashfn eql :: ('k, 'v) flat_map \<Rightarrow> bool" "fm_lookup hashfn eql" "\<lambda>m. unat (fm_size m)"
  "2 ^ 52" "fm_put hashfn eql dflt" "fm_remove hashfn eql"
proof
  fix m :: "('k, 'v) flat_map" and k :: 'k and v :: 'v
  assume m: "inv m" "ok k"
  {
    assume "unat (fm_size m) < 2 ^ 52"
    from put_law_full [OF m this, of dflt v]
    show "\<exists>m'. fm_put hashfn eql dflt k v m = Inr m' \<and> inv m' \<and> unat (fm_size m') \<le> unat (fm_size m) + 1 \<and>
      (\<forall>k'. ok k' \<longrightarrow> lookup m' k' = (if eql k k' then Some v else lookup m k'))" .
  }
  from erase_law [OF m]
  show "\<exists>m'. fm_remove hashfn eql k m = Inr m' \<and> inv m' \<and> unat (fm_size m') \<le> unat (fm_size m) \<and>
    (\<forall>k'. ok k' \<longrightarrow> lookup m' k' = (if eql k k' then None else lookup m k'))"
    by (auto simp: fm_remove_def)
qed

text \<open>\<^verbatim>\<open>DefaultEqualTo\<close>: any hash function agrees with equality.\<close>

interpretation std_map: flat_map_store "\<lambda>_. True" hashfn "(=)" dflt for hashfn dflt
  by unfold_locales auto

definition fm_step ::
  "('k \<Rightarrow> 64 word) \<Rightarrow> ('k \<Rightarrow> 'k \<Rightarrow> bool) \<Rightarrow> 'v \<Rightarrow> ('k, 'v) flat_map \<Rightarrow> ('k, 'v) store_op \<Rightarrow>
   ('k, 'v) flat_map run" where
  "fm_step hashfn eql dflt = store_step (fm_put hashfn eql dflt) (fm_remove hashfn eql)"

context flat_map_store
begin

lemma ops_refine:
  fixes ops :: "('k, 'v) store_op list"
  assumes "1 \<le> nb" "nb \<le> 2 ^ 57" "10 \<le> lf" "lf \<le> 100"
    "\<forall>op \<in> set ops. ok (op_key op)" "length ops \<le> 2 ^ 52"
  shows "\<exists>m0 m. fm_init nb lf fm_new = (True, m0) \<and> foldE (fm_step hashfn eql dflt) m0 ops = Inr m \<and>
    unat (fm_size m) \<le> length ops \<and>
    (\<forall>k. ok k \<longrightarrow> fm_seek hashfn eql k m = Inr (foldl (map_step eql) (\<lambda>_. None) ops k))"
proof -
  have "unat ((2 :: 64 word) ^ 57) = 2 ^ 57" by (rule unat_2_power_64) simp
  then have nb: "1 \<le> unat nb" "unat nb \<le> 2 ^ 57"
    using assms(1,2) by (simp_all only: word_le_nat_alt) (simp_all)
  obtain m0 :: "('k, 'v) flat_map" where m0: "fm_init nb lf fm_new = (True, m0)" "inv m0" "fm_size m0 = 0"
      "\<forall>k. lookup m0 k = None"
    using init_law [OF nb assms(3,4), of "fm_new :: ('k, 'v) flat_map"]
    by (auto simp: fm_initialized_def fm_new_def)
  from run_refines [of m0 ops "\<lambda>_. None"] m0 assms(5,6)
  obtain m where "foldE step m0 ops = Inr m" "inv m" "unat (fm_size m) \<le> length ops"
      "\<forall>k. ok k \<longrightarrow> lookup m k = foldl (map_step eql) (\<lambda>_. None) ops k"
    by auto
  with m0 show ?thesis by (simp add: fm_step_def seek_lookup)
qed

end

text \<open>
  (C3) \<^verbatim>\<open>FlatMap\<close> implements a finite map.  From \<^verbatim>\<open>init\<close> with any legal size and load factor, any
  sequence of at most 2^52 insertions and erasures runs to its end, through every resize it
  triggers, and \<^verbatim>\<open>seek\<close> then finds for each key what the last operation on an equal key left; the
  hash function matters only for its agreement with equality.
\<close>

theorem flat_map_refines_map:
  fixes ops :: "('k, 'v) store_op list"
  assumes "flat_map_keys ok hashfn eql" "1 \<le> nb" "nb \<le> 2 ^ 57" "10 \<le> lf" "lf \<le> 100"
    "\<forall>op \<in> set ops. ok (op_key op)" "length ops \<le> 2 ^ 52"
  shows "\<exists>m0 m. fm_init nb lf fm_new = (True, m0) \<and> foldE (fm_step hashfn eql dflt) m0 ops = Inr m \<and>
    unat (fm_size m) \<le> length ops \<and>
    (\<forall>k. ok k \<longrightarrow> fm_seek hashfn eql k m = Inr (foldl (map_step eql) (\<lambda>_. None) ops k))"
  by (rule flat_map_store.ops_refine [OF _ assms(2-7)]) (use assms(1) in \<open>simp add: flat_map_store_def\<close>)

definition sample_ops :: "(64 word, nat) store_op list" where
  "sample_ops = [Put 1 10, Put 5 50, Put 9 90, Erase 5, Put 1 11]"

theorem flat_map_refines_map_witness:
  "\<exists>m0 m. fm_init 2 80 fm_new = (True, m0) \<and> foldE (fm_step (\<lambda>k. k) (=) 0) m0 sample_ops = Inr m \<and>
    unat (fm_size m) \<le> 5 \<and> fm_seek (\<lambda>k. k) (=) 1 m = Inr (Some 11) \<and>
    fm_seek (\<lambda>k. k) (=) 5 m = Inr None \<and> fm_seek (\<lambda>k. k) (=) 9 m = Inr (Some 90)"
proof -
  have "flat_map_keys (\<lambda>_. True) (\<lambda>k :: 64 word. k) (=)" by unfold_locales auto
  from flat_map_refines_map [OF this, of 2 80 sample_ops 0] show ?thesis
    by (auto simp: sample_ops_def)
qed


definition sample_map :: "(64 word, nat) flat_map" where
  "sample_map = \<lparr>fm_size = 2, fm_nbucket = 2, fm_buckets = Some [[], [(1, 10), (3, 30)]], fm_load_factor = 80\<rparr>"

definition small_map :: "(64 word, nat) flat_map" where
  "small_map = \<lparr>fm_size = 0, fm_nbucket = 4, fm_buckets = Some [[], [], [], []], fm_load_factor = 80\<rparr>"


end
