(* ===== verification/Ascii.thy ===== *)
theory Ascii
  imports Prelude
begin

text \<open>
  \<^verbatim>\<open>flare::ascii\<close> (src/flare/strings/ascii.h and ascii.cc): the classes of characters and the
  conversion of case, both by table lookup.  The tables are those of the source, entry by entry;
  the lemmas say which characters each class has.
\<close>

type_synonym character_properties = "32 word"

subsection \<open>Model\<close>

definition eNone :: character_properties where "eNone = 0x0"
definition eControl :: character_properties where "eControl = 0x0001"
definition eSpace :: character_properties where "eSpace = 0x0002"
definition ePunct :: character_properties where "ePunct = 0x0004"
definition eDigit :: character_properties where "eDigit = 0x0008"
definition eHexDigit :: character_properties where "eHexDigit = 0x0010"
definition eAlpha :: character_properties where "eAlpha = 0x0020"
definition eLower :: character_properties where "eLower = 0x0040"
definition eUpper :: character_properties where "eUpper = 0x0080"
definition eGraph :: character_properties where "eGraph = 0x0100"
definition ePrint :: character_properties where "ePrint = 0x0200"

definition kCtrlOrSpace :: character_properties where
  "kCtrlOrSpace = (eControl OR eSpace)"

definition kPPG :: character_properties where
  "kPPG = (ePunct OR ePrint OR eGraph)"

definition kDHGP :: character_properties where
  "kDHGP = (eHexDigit OR ePrint OR eGraph OR eDigit)"

definition kHAUGP :: character_properties where
  "kHAUGP = (eHexDigit OR eAlpha OR eUpper OR eGraph OR ePrint)"

definition kHALGP :: character_properties where
  "kHALGP = (eHexDigit OR eAlpha OR eLower OR eGraph OR ePrint)"

definition kAUGP :: character_properties where
  "kAUGP = (eAlpha OR eUpper OR eGraph OR ePrint)"

definition kALGP :: character_properties where
  "kALGP = (eAlpha OR eLower OR eGraph OR ePrint)"

definition kCharacterProperties :: "character_properties list" where
  "kCharacterProperties =
     [eControl, eControl, eControl, eControl, eControl, eControl, eControl, eControl,
      eControl, kCtrlOrSpace, kCtrlOrSpace, kCtrlOrSpace, kCtrlOrSpace, kCtrlOrSpace, eControl, eControl,
      eControl, eControl, eControl, eControl, eControl, eControl, eControl, eControl,
      eControl, eControl, eControl, eControl, eControl, eControl, eControl, eControl,
      eSpace OR ePrint, kPPG, kPPG, kPPG, kPPG, kPPG, kPPG, kPPG,
      kPPG, kPPG, kPPG, kPPG, kPPG, kPPG, kPPG, kPPG,
      kDHGP, kDHGP, kDHGP, kDHGP, kDHGP, kDHGP, kDHGP, kDHGP,
      kDHGP, kDHGP, kPPG, kPPG, kPPG, kPPG, kPPG, kPPG,
      kPPG, kHAUGP, kHAUGP, kHAUGP, kHAUGP, kHAUGP, kHAUGP, kAUGP,
      kAUGP, kAUGP, kAUGP, kAUGP, kAUGP, kAUGP, kAUGP, kAUGP,
      kAUGP, kAUGP, kAUGP, kAUGP, kAUGP, kAUGP, kAUGP, kAUGP,
      kAUGP, kAUGP, kAUGP, kPPG, kPPG, kPPG, kPPG, kPPG,
      kPPG, kHALGP, kHALGP, kHALGP, kHALGP, kHALGP, kHALGP, kALGP,
      kALGP, kALGP, kALGP, kALGP, kALGP, kALGP, kALGP, kALGP,
      kALGP, kALGP, kALGP, kALGP, kALGP, kALGP, kALGP, kALGP,
      kALGP, kALGP, kALGP, kPPG, kPPG, kPPG, kPPG, eControl]"

definition kToUpper :: bytes where
  "kToUpper =
     [0x00, 0x01, 0x02, 0x03, 0x04, 0x05, 0x06, 0x07, 0x08, 0x09, 0x0a, 0x0b, 0x0c, 0x0d, 0x0e, 0x0f,
      0x10, 0x11, 0x12, 0x13, 0x14, 0x15, 0x16, 0x17, 0x18, 0x19, 0x1a, 0x1b, 0x1c, 0x1d, 0x1e, 0x1f,
      0x20, 0x21, 0x22, 0x23, 0x24, 0x25, 0x26, 0x27, 0x28, 0x29, 0x2a, 0x2b, 0x2c, 0x2d, 0x2e, 0x2f,
      0x30, 0x31, 0x32, 0x33, 0x34, 0x35, 0x36, 0x37, 0x38, 0x39, 0x3a, 0x3b, 0x3c, 0x3d, 0x3e, 0x3f,
      0x40, 0x41, 0x42, 0x43, 0x44, 0x45, 0x46, 0x47, 0x48, 0x49, 0x4a, 0x4b, 0x4c, 0x4d, 0x4e, 0x4f,
      0x50, 0x51, 0x52, 0x53, 0x54, 0x55, 0x56, 0x57, 0x58, 0x59, 0x5a, 0x5b, 0x5c, 0x5d, 0x5e, 0x5f,
      0x60, 0x41, 0x42, 0x43, 0x44, 0x45, 0x46, 0x47, 0x48, 0x49, 0x4a, 0x4b, 0x4c, 0x4d, 0x4e, 0x4f,
      0x50, 0x51, 0x52, 0x53, 0x54, 0x55, 0x56, 0x57, 0x58, 0x59, 0x5a, 0x7b, 0x7c, 0x7d, 0x7e, 0x7f,
      0x80, 0x81, 0x82, 0x83, 0x84, 0x85, 0x86, 0x87, 0x88, 0x89, 0x8a, 0x8b, 0x8c, 0x8d, 0x8e, 0x8f,
      0x90, 0x91, 0x92, 0x93, 0x94, 0x95, 0x96, 0x97, 0x98, 0x99, 0x9a, 0x9b, 0x9c, 0x9d, 0x9e, 0x9f,
      0xa0, 0xa1, 0xa2, 0xa3, 0xa4, 0xa5, 0xa6, 0xa7, 0xa8, 0xa9, 0xaa, 0xab, 0xac, 0xad, 0xae, 0xaf,
      0xb0, 0xb1, 0xb2, 0xb3, 0xb4, 0xb5, 0xb6, 0xb7, 0xb8, 0xb9, 0xba, 0xbb, 0xbc, 0xbd, 0xbe, 0xbf,
      0xc0, 0xc1, 0xc2, 0xc3, 0xc4, 0xc5, 0xc6, 0xc7, 0xc8, 0xc9, 0xca, 0xcb, 0xcc, 0xcd, 0xce, 0xcf,
      0xd0, 0xd1, 0xd2, 0xd3, 0xd4, 0xd5, 0xd6, 0xd7, 0xd8, 0xd9, 0xda, 0xdb, 0xdc, 0xdd, 0xde, 0xdf,
      0xe0, 0xe1, 0xe2, 0xe3, 0xe4, 0xe5, 0xe6, 0xe7, 0xe8, 0xe9, 0xea, 0xeb, 0xec, 0xed, 0xee, 0xef,
      0xf0, 0xf1, 0xf2, 0xf3, 0xf4, 0xf5, 0xf6, 0xf7, 0xf8, 0xf9, 0xfa, 0xfb, 0xfc, 0xfd, 0xfe, 0xff]"

definition kToLower :: bytes where
  "kToLower =
     [0x00, 0x01, 0x02, 0x03, 0x04, 0x05, 0x06, 0x07, 0x08, 0x09, 0x0a, 0x0b, 0x0c, 0x0d, 0x0e, 0x0f,
      0x10, 0x11, 0x12, 0x13, 0x14, 0x15, 0x16, 0x17, 0x18, 0x19, 0x1a, 0x1b, 0x1c, 0x1d, 0x1e, 0x1f,
      0x20, 0x21, 0x22, 0x23, 0x24, 0x25, 0x26, 0x27, 0x28, 0x29, 0x2a, 0x2b, 0x2c, 0x2d, 0x2e, 0x2f,
      0x30, 0x31, 0x32, 0x33, 0x34, 0x35, 0x36, 0x37, 0x38, 0x39, 0x3a, 0x3b, 0x3c, 0x3d, 0x3e, 0x3f,
      0x40, 0x61, 0x62, 0x63, 0x64, 0x65, 0x66, 0x67, 0x68, 0x69, 0x6a, 0x6b, 0x6c, 0x6d, 0x6e, 0x6f,
      0x70, 0x71, 0x72, 0x73, 0x74, 0x75, 0x76, 0x77, 0x78, 0x79, 0x7a, 0x5b, 0x5c, 0x5d, 0x5e, 0x5f,
      0x60, 0x61, 0x62, 0x63, 0x64, 0x65, 0x66, 0x67, 0x68, 0x69, 0x6a, 0x6b, 0x6c, 0x6d, 0x6e, 0x6f,
      0x70, 0x71, 0x72, 0x73, 0x74, 0x75, 0x76, 0x77, 0x78, 0x79, 0x7a, 0x7b, 0x7c, 0x7d, 0x7e, 0x7f,
      0x80, 0x81, 0x82, 0x83, 0x84, 0x85, 0x86, 0x87, 0x88, 0x89, 0x8a, 0x8b, 0x8c, 0x8d, 0x8e, 0x8f,
      0x90, 0x91, 0x92, 0x93, 0x94, 0x95, 0x96, 0x97, 0x98, 0x99, 0x9a, 0x9b, 0x9c, 0x9d, 0x9e, 0x9f,
      0xa0, 0xa1, 0xa2, 0xa3, 0xa4, 0xa5, 0xa6, 0xa7, 0xa8, 0xa9, 0xaa, 0xab, 0xac, 0xad, 0xae, 0xaf,
      0xb0, 0xb1, 0xb2, 0xb3, 0xb4, 0xb5, 0xb6, 0xb7, 0xb8, 0xb9, 0xba, 0xbb, 0xbc, 0xbd, 0xbe, 0xbf,
      0xc0, 0xc1, 0xc2, 0xc3, 0xc4, 0xc5, 0xc6, 0xc7, 0xc8, 0xc9, 0xca, 0xcb, 0xcc, 0xcd, 0xce, 0xcf,
      0xd0, 0xd1, 0xd2, 0xd3, 0xd4, 0xd5, 0xd6, 0xd7, 0xd8, 0xd9, 0xda, 0xdb, 0xdc, 0xdd, 0xde, 0xdf,
      0xe0, 0xe1, 0xe2, 0xe3, 0xe4, 0xe5, 0xe6, 0xe7, 0xe8, 0xe9, 0xea, 0xeb, 0xec, 0xed, 0xee, 0xef,
      0xf0, 0xf1, 0xf2, 0xf3, 0xf4, 0xf5, 0xf6, 0xf7, 0xf8, 0xf9, 0xfa, 0xfb, 0xfc, 0xfd, 0xfe, 0xff]"

definition is_white :: "byte \<Rightarrow> bool" where
  "is_white ch \<longleftrightarrow> ch = 0x20 \<or> ch = 0x0a \<or> ch = 0x09 \<or> ch = 0x0d"

definition is_blank :: "byte \<Rightarrow> bool" where
  "is_blank ch \<longleftrightarrow> ch = 0x20 \<or> ch = 0x09"

definition is_ascii :: "byte \<Rightarrow> bool" where
  "is_ascii ch \<longleftrightarrow> (ucast ch :: 32 word) AND 0xFFFFFF80 = 0"

definition properties :: "byte \<Rightarrow> character_properties" where
  "properties ch = (if is_ascii ch then kCharacterProperties ! unat ch else eNone)"

definition has_properties :: "byte \<Rightarrow> character_properties \<Rightarrow> bool" where
  "has_properties ch prop \<longleftrightarrow> (properties ch AND prop) = prop"

definition has_some_properties :: "byte \<Rightarrow> character_properties \<Rightarrow> bool" where
  "has_some_properties ch prop \<longleftrightarrow> (properties ch AND prop) \<noteq> eNone"

definition is_space :: "byte \<Rightarrow> bool" where
  "is_space ch = has_properties ch eSpace"

definition is_print :: "byte \<Rightarrow> bool" where
  "is_print ch = has_properties ch ePrint"

definition is_graph :: "byte \<Rightarrow> bool" where
  "is_graph ch = has_properties ch eGraph"

definition is_digit :: "byte \<Rightarrow> bool" where
  "is_digit ch = has_properties ch eDigit"

definition is_hex_digit :: "byte \<Rightarrow> bool" where
  "is_hex_digit ch = has_properties ch eHexDigit"

definition is_punct :: "byte \<Rightarrow> bool" where
  "is_punct ch = has_properties ch ePunct"

definition is_alpha :: "byte \<Rightarrow> bool" where
  "is_alpha ch = has_properties ch eAlpha"

definition is_control :: "byte \<Rightarrow> bool" where
  "is_control ch = has_properties ch eControl"

definition is_alpha_numeric :: "byte \<Rightarrow> bool" where
  "is_alpha_numeric ch = has_some_properties ch (eAlpha OR eDigit)"

definition is_lower :: "byte \<Rightarrow> bool" where
  "is_lower ch = has_properties ch eLower"

definition is_upper :: "byte \<Rightarrow> bool" where
  "is_upper ch = has_properties ch eUpper"

definition to_lower :: "byte \<Rightarrow> byte" where
  "to_lower ch = kToLower ! unat ch"

definition to_upper :: "byte \<Rightarrow> byte" where
  "to_upper ch = kToUpper ! unat ch"

subsection \<open>What the tables say\<close>

lemmas property_defs = eNone_def eControl_def eSpace_def ePunct_def eDigit_def eHexDigit_def
  eAlpha_def eLower_def eUpper_def eGraph_def ePrint_def kCtrlOrSpace_def kPPG_def kDHGP_def
  kHAUGP_def kHALGP_def kAUGP_def kALGP_def

lemma unat_byte_less [simp]: "unat (c :: byte) < 256"
  using unsigned_less [of c, where 'a = nat] by simp

lemma is_ascii_iff: "is_ascii c \<longleftrightarrow> unat c < 128"
proof -
  have mask: "(0xFFFFFF80 :: 32 word) = NOT (mask 7)" by (simp add: mask_eq_exp_minus_1)
  have "bit ((ucast c :: 32 word) AND NOT (mask 7)) n \<longleftrightarrow> bit c n \<and> 7 \<le> n" for n
    by (auto simp: bit_simps not_less dest: bit_imp_le_length)
  then have "is_ascii c \<longleftrightarrow> (\<forall>n. \<not> (bit c n \<and> 7 \<le> n))"
    unfolding is_ascii_def mask by (metis bit_0_eq bit_eqI bot_apply bot_bool_def)
  also have "\<dots> \<longleftrightarrow> take_bit 7 c = c"
    by (metis bit_eqI bit_take_bit_iff not_le)
  also have "\<dots> \<longleftrightarrow> unat c < 128"
    by (simp add: word_unat_eq_iff unsigned_take_bit_eq take_bit_nat_eq_self_iff)
  finally show ?thesis .
qed

lemma to_lower_table: "map unat kToLower = map (\<lambda>i. if 65 \<le> i \<and> i \<le> 90 then i + 32 else i) [0..<256]"
  by (simp add: kToLower_def upt_rec)

lemma to_upper_table: "map unat kToUpper = map (\<lambda>i. if 97 \<le> i \<and> i \<le> 122 then i - 32 else i) [0..<256]"
  by (simp add: kToUpper_def upt_rec)

lemma length_tables [simp]: "length kToLower = 256" "length kToUpper = 256" "length kCharacterProperties = 128"
  by (simp_all add: kToLower_def kToUpper_def kCharacterProperties_def)

lemma unat_to_lower: "unat (to_lower c) = (if 65 \<le> unat c \<and> unat c \<le> 90 then unat c + 32 else unat c)"
proof -
  have "map unat kToLower ! unat c = (if 65 \<le> unat c \<and> unat c \<le> 90 then unat c + 32 else unat c)"
    unfolding to_lower_table by simp
  then show ?thesis by (simp add: to_lower_def)
qed

lemma unat_to_upper: "unat (to_upper c) = (if 97 \<le> unat c \<and> unat c \<le> 122 then unat c - 32 else unat c)"
proof -
  have "map unat kToUpper ! unat c = (if 97 \<le> unat c \<and> unat c \<le> 122 then unat c - 32 else unat c)"
    unfolding to_upper_table by simp
  then show ?thesis by (simp add: to_upper_def)
qed

lemma to_lower_word: "to_lower c = (if 65 \<le> c \<and> c \<le> 90 then c + 32 else c)"
proof -
  have "unat (c + 32) = unat c + 32" if "c \<le> 90"
    using that by (subst unat_add_small) (auto simp: word_le_nat_alt)
  then show ?thesis by (auto simp: word_unat_eq_iff unat_to_lower word_le_nat_alt)
qed

lemma to_lower_idem [simp]: "to_lower (to_lower c) = to_lower c"
  by (simp add: word_unat_eq_iff unat_to_lower)

lemma to_lower_eq_0 [simp]: "to_lower c = 0 \<longleftrightarrow> c = 0"
  by (simp add: word_unat_eq_iff unat_to_lower)

lemma has_properties_iff:
  assumes "map (\<lambda>p. p AND prop = prop) kCharacterProperties = map Q [0..<128]" "prop \<noteq> 0"
  shows "has_properties c prop \<longleftrightarrow> unat c < 128 \<and> Q (unat c)"
proof (cases "unat c < 128")
  case True
  then have "map (\<lambda>p. p AND prop = prop) kCharacterProperties ! unat c = map Q [0..<128] ! unat c"
    by (simp only: assms(1))
  with True show ?thesis by (simp add: has_properties_def properties_def is_ascii_iff)
next
  case False
  with assms(2) show ?thesis by (simp add: has_properties_def properties_def is_ascii_iff eNone_def)
qed

lemma is_digit_iff: "is_digit c \<longleftrightarrow> 48 \<le> unat c \<and> unat c \<le> 57"
proof -
  have "map (\<lambda>p. p AND eDigit = eDigit) kCharacterProperties = map (\<lambda>i. 48 \<le> i \<and> i \<le> 57) [0..<128]"
    by (simp add: kCharacterProperties_def property_defs upt_rec)
  from has_properties_iff [OF this, of c] show ?thesis
    by (auto simp: is_digit_def eDigit_def)
qed

lemma is_hex_digit_iff: "is_hex_digit c \<longleftrightarrow> 48 \<le> unat c \<and> unat c \<le> 57 \<or> 65 \<le> unat c \<and> unat c \<le> 70 \<or> 97 \<le> unat c \<and> unat c \<le> 102"
proof -
  have "map (\<lambda>p. p AND eHexDigit = eHexDigit) kCharacterProperties = map (\<lambda>i. 48 \<le> i \<and> i \<le> 57 \<or> 65 \<le> i \<and> i \<le> 70 \<or> 97 \<le> i \<and> i \<le> 102) [0..<128]"
    by (simp add: kCharacterProperties_def property_defs upt_rec)
  from has_properties_iff [OF this, of c] show ?thesis
    by (auto simp: is_hex_digit_def eHexDigit_def)
qed

lemma is_upper_iff: "is_upper c \<longleftrightarrow> 65 \<le> unat c \<and> unat c \<le> 90"
proof -
  have "map (\<lambda>p. p AND eUpper = eUpper) kCharacterProperties = map (\<lambda>i. 65 \<le> i \<and> i \<le> 90) [0..<128]"
    by (simp add: kCharacterProperties_def property_defs upt_rec)
  from has_properties_iff [OF this, of c] show ?thesis
    by (auto simp: is_upper_def eUpper_def)
qed

lemma is_lower_iff: "is_lower c \<longleftrightarrow> 97 \<le> unat c \<and> unat c \<le> 122"
proof -
  have "map (\<lambda>p. p AND eLower = eLower) kCharacterProperties = map (\<lambda>i. 97 \<le> i \<and> i \<le> 122) [0..<128]"
    by (simp add: kCharacterProperties_def property_defs upt_rec)
  from has_properties_iff [OF this, of c] show ?thesis
    by (auto simp: is_lower_def eLower_def)
qed

lemma is_alpha_iff: "is_alpha c \<longleftrightarrow> 65 \<le> unat c \<and> unat c \<le> 90 \<or> 97 \<le> unat c \<and> unat c \<le> 122"
proof -
  have "map (\<lambda>p. p AND eAlpha = eAlpha) kCharacterProperties = map (\<lambda>i. 65 \<le> i \<and> i \<le> 90 \<or> 97 \<le> i \<and> i \<le> 122) [0..<128]"
    by (simp add: kCharacterProperties_def property_defs upt_rec)
  from has_properties_iff [OF this, of c] show ?thesis
    by (auto simp: is_alpha_def eAlpha_def)
qed

lemma is_space_iff: "is_space c \<longleftrightarrow> unat c = 32 \<or> 9 \<le> unat c \<and> unat c \<le> 13"
proof -
  have "map (\<lambda>p. p AND eSpace = eSpace) kCharacterProperties = map (\<lambda>i. i = 32 \<or> 9 \<le> i \<and> i \<le> 13) [0..<128]"
    by (simp add: kCharacterProperties_def property_defs upt_rec)
  from has_properties_iff [OF this, of c] show ?thesis
    by (auto simp: is_space_def eSpace_def)
qed

lemma is_control_iff: "is_control c \<longleftrightarrow> unat c < 32 \<or> unat c = 127"
proof -
  have "map (\<lambda>p. p AND eControl = eControl) kCharacterProperties = map (\<lambda>i. i < 32 \<or> i = 127) [0..<128]"
    by (simp add: kCharacterProperties_def property_defs upt_rec)
  from has_properties_iff [OF this, of c] show ?thesis
    by (auto simp: is_control_def eControl_def)
qed

lemma is_graph_iff: "is_graph c \<longleftrightarrow> 33 \<le> unat c \<and> unat c \<le> 126"
proof -
  have "map (\<lambda>p. p AND eGraph = eGraph) kCharacterProperties = map (\<lambda>i. 33 \<le> i \<and> i \<le> 126) [0..<128]"
    by (simp add: kCharacterProperties_def property_defs upt_rec)
  from has_properties_iff [OF this, of c] show ?thesis
    by (auto simp: is_graph_def eGraph_def)
qed

lemma is_print_iff: "is_print c \<longleftrightarrow> 32 \<le> unat c \<and> unat c \<le> 126"
proof -
  have "map (\<lambda>p. p AND ePrint = ePrint) kCharacterProperties = map (\<lambda>i. 32 \<le> i \<and> i \<le> 126) [0..<128]"
    by (simp add: kCharacterProperties_def property_defs upt_rec)
  from has_properties_iff [OF this, of c] show ?thesis
    by (auto simp: is_print_def ePrint_def)
qed

lemma is_punct_iff: "is_punct c \<longleftrightarrow> 33 \<le> unat c \<and> unat c \<le> 47 \<or> 58 \<le> unat c \<and> unat c \<le> 64 \<or> 91 \<le> unat c \<and> unat c \<le> 96 \<or> 123 \<le> unat c \<and> unat c \<le> 126"
proof -
  have "map (\<lambda>p. p AND ePunct = ePunct) kCharacterProperties = map (\<lambda>i. 33 \<le> i \<and> i \<le> 47 \<or> 58 \<le> i \<and> i \<le> 64 \<or> 91 \<le> i \<and> i \<le> 96 \<or> 123 \<le> i \<and> i \<le> 126) [0..<128]"
    by (simp add: kCharacterProperties_def property_defs upt_rec)
  from has_properties_iff [OF this, of c] show ?thesis
    by (auto simp: is_punct_def ePunct_def)
qed

lemma is_alpha_numeric_iff: "is_alpha_numeric c \<longleftrightarrow> is_alpha c \<or> is_digit c"
proof (cases "unat c < 128")
  case True
  have "map (\<lambda>p. p AND (eAlpha OR eDigit) \<noteq> eNone) kCharacterProperties =
      map (\<lambda>i. 48 \<le> i \<and> i \<le> 57 \<or> 65 \<le> i \<and> i \<le> 90 \<or> 97 \<le> i \<and> i \<le> 122) [0..<128]"
    by (simp add: kCharacterProperties_def property_defs upt_rec)
  then have "map (\<lambda>p. p AND (eAlpha OR eDigit) \<noteq> eNone) kCharacterProperties ! unat c =
      map (\<lambda>i. 48 \<le> i \<and> i \<le> 57 \<or> 65 \<le> i \<and> i \<le> 90 \<or> 97 \<le> i \<and> i \<le> 122) [0..<128] ! unat c"
    by (simp only:)
  with True show ?thesis
    by (auto simp: is_alpha_numeric_def has_some_properties_def properties_def is_ascii_iff
        is_alpha_iff is_digit_iff)
next
  case False
  then show ?thesis
    by (simp add: is_alpha_numeric_def has_some_properties_def properties_def is_ascii_iff
        is_alpha_iff is_digit_iff eNone_def)
qed

text \<open>
  (C21) The character classes are those of ASCII: each predicate, computed from the bit masks of
  \<^verbatim>\<open>kCharacterProperties\<close>, holds for exactly the code points of its class, and for no byte above 127.
\<close>

theorem ascii_classes:
  "(is_digit c \<longleftrightarrow> unat c \<in> {48..57}) \<and>
   (is_upper c \<longleftrightarrow> unat c \<in> {65..90}) \<and>
   (is_lower c \<longleftrightarrow> unat c \<in> {97..122}) \<and>
   (is_alpha c \<longleftrightarrow> is_upper c \<or> is_lower c) \<and>
   (is_alpha_numeric c \<longleftrightarrow> is_alpha c \<or> is_digit c) \<and>
   (is_hex_digit c \<longleftrightarrow> is_digit c \<or> unat c \<in> {65..70} \<or> unat c \<in> {97..102}) \<and>
   (is_space c \<longleftrightarrow> unat c = 32 \<or> unat c \<in> {9..13}) \<and>
   (is_graph c \<longleftrightarrow> unat c \<in> {33..126}) \<and>
   (is_print c \<longleftrightarrow> is_graph c \<or> unat c = 32) \<and>
   (is_punct c \<longleftrightarrow> is_graph c \<and> \<not> is_alpha_numeric c) \<and>
   (is_control c \<longleftrightarrow> is_ascii c \<and> \<not> is_print c)"
  by (auto simp: is_digit_iff is_upper_iff is_lower_iff is_alpha_iff is_alpha_numeric_iff
      is_hex_digit_iff is_space_iff is_graph_iff is_print_iff is_punct_iff is_control_iff is_ascii_iff)

text \<open>
  (C22) The case tables agree with the classes: \<^verbatim>\<open>to_lower\<close> moves exactly the upper-case letters, to
  lower-case ones, \<^verbatim>\<open>to_upper\<close> moves exactly the lower-case ones back, and both are the identity on
  all other bytes, those above 127 included.
\<close>

theorem case_conversion:
  "(to_lower c \<noteq> c \<longleftrightarrow> is_upper c) \<and> (to_upper c \<noteq> c \<longleftrightarrow> is_lower c) \<and>
   \<not> is_upper (to_lower c) \<and> \<not> is_lower (to_upper c) \<and>
   to_upper (to_lower c) = to_upper c \<and> to_lower (to_upper c) = to_lower c"
  by (auto simp: word_unat_eq_iff unat_to_lower unat_to_upper is_upper_iff is_lower_iff)

end
