(* ===== verification/Case_Ignored.thy ===== *)
theory Case_Ignored
  imports Ascii Flat_Map
begin

text \<open>
  Keys that are compared without regard to case (src/flare/container/case_ignored_flat_map.h), the
  hash of strings (\<^verbatim>\<open>DefaultHasher<std::string>\<close> in src/flare/container/flat_map.h) and the lower-casing
  of names (\<^verbatim>\<open>tolower\<close> in src/flare/rpc/details/hpack.cc).  A \<^verbatim>\<open>char\<close> is signed, so that adding it to a
  \<^verbatim>\<open>size_t\<close> sign-extends it.
\<close>

subsection \<open>Model\<close>

definition case_ignored_hash :: "bytes \<Rightarrow> 64 word" where
  "case_ignored_hash s = foldl (\<lambda>result c. result * 101 + scast (to_lower c)) 0 s"

definition string_hash :: "bytes \<Rightarrow> 64 word" where
  "string_hash s = foldl (\<lambda>result c. result * 101 + scast c) 0 s"

text \<open>What a C function sees of \<^verbatim>\<open>s.c_str()\<close>: the bytes up to the first NUL.\<close>

definition c_str :: "bytes \<Rightarrow> bytes" where
  "c_str s = takeWhile (\<lambda>c. c \<noteq> 0) s"

definition strcasecmp_eq :: "bytes \<Rightarrow> bytes \<Rightarrow> bool" where
  "strcasecmp_eq s1 s2 \<longleftrightarrow> map to_lower (c_str s1) = map to_lower (c_str s2)"

definition case_ignored_equal :: "bytes \<Rightarrow> bytes \<Rightarrow> bool" where
  "case_ignored_equal s1 s2 \<longleftrightarrow> length s1 = length s2 \<and> strcasecmp_eq s1 s2"

text \<open>The overloads for C strings, which look a key up without building a \<^verbatim>\<open>std::string\<close>.\<close>

definition case_ignored_hash_cstr :: "bytes \<Rightarrow> 64 word" where
  "case_ignored_hash_cstr s = foldl (\<lambda>result c. result * 101 + scast (to_lower c)) 0 (c_str s)"

definition case_ignored_equal_cstr :: "bytes \<Rightarrow> bytes \<Rightarrow> bool" where
  "case_ignored_equal_cstr s1 s2 \<longleftrightarrow> strcasecmp_eq s1 s2"

definition string_hash_cstr :: "bytes \<Rightarrow> 64 word" where
  "string_hash_cstr s = foldl (\<lambda>result c. result * 101 + scast c) 0 (c_str s)"

text \<open>\<^verbatim>\<open>tolower(std::string*)\<close> writes back only the characters that change.\<close>

fun tolower_loop :: "nat \<Rightarrow> bytes \<Rightarrow> nat \<Rightarrow> bytes" where
  "tolower_loop 0 s i = s"
| "tolower_loop (Suc k) s i =
     (let c = s ! i; c2 = to_lower c in tolower_loop k (if c2 \<noteq> c then s[i := c2] else s) (Suc i))"

definition tolower :: "bytes \<Rightarrow> bytes" where
  "tolower s = tolower_loop (length s) s 0"

subsection \<open>Names without NUL\<close>

definition no_nul :: "bytes \<Rightarrow> bool" where
  "no_nul s \<longleftrightarrow> 0 \<notin> set s"

lemma tolower_loop_eq:
  "i + k = length s \<Longrightarrow> tolower_loop k s i = take i s @ map to_lower (drop i s)"
proof (induction k arbitrary: s i)
  case (Suc k)
  have "(if to_lower (s ! i) \<noteq> s ! i then s[i := to_lower (s ! i)] else s) = s[i := to_lower (s ! i)]"
    by simp
  then have "tolower_loop (Suc k) s i = tolower_loop k (s[i := to_lower (s ! i)]) (Suc i)"
    by (simp add: Let_def)
  also have "\<dots> = take (Suc i) (s[i := to_lower (s ! i)]) @ map to_lower (drop (Suc i) s)"
    using Suc.prems by (subst Suc.IH) auto
  also have "\<dots> = take i s @ map to_lower (drop i s)"
    using Suc.prems by (simp add: take_Suc_conv_app_nth Cons_nth_drop_Suc [symmetric])
  finally show ?case .
qed simp

lemma tolower_eq: "tolower s = map to_lower s"
  by (simp add: tolower_def tolower_loop_eq)

lemma tolower_idem [simp]: "tolower (tolower s) = tolower s"
  by (simp add: tolower_eq comp_def)

lemma length_tolower [simp]: "length (tolower s) = length s"
  by (simp add: tolower_eq)

lemma tolower_Nil_iff [simp]: "tolower s = [] \<longleftrightarrow> s = []"
  by (simp add: tolower_eq)

lemma no_nul_tolower [simp]: "no_nul (tolower s) \<longleftrightarrow> no_nul s"
  by (auto simp: no_nul_def tolower_eq image_iff)

lemma c_str_no_nul: "no_nul s \<Longrightarrow> c_str s = s"
  by (auto simp: no_nul_def c_str_def takeWhile_eq_all_conv)

lemma case_ignored_equal_iff:
  assumes "no_nul a" "no_nul b"
  shows "case_ignored_equal a b \<longleftrightarrow> tolower a = tolower b"
  using assms
  by (auto simp: case_ignored_equal_def strcasecmp_eq_def c_str_no_nul tolower_eq dest: map_eq_imp_length_eq)

lemma case_ignored_hash_tolower: "case_ignored_hash (tolower s) = case_ignored_hash s"
proof -
  have "foldl (\<lambda>result c. result * 101 + scast (to_lower c)) r (map to_lower s) =
      foldl (\<lambda>result c. result * 101 + scast (to_lower c)) (r :: 64 word) s" for r
    by (induction s arbitrary: r) auto
  then show ?thesis by (simp add: case_ignored_hash_def tolower_eq)
qed

lemma case_ignored_hash_cong:
  assumes "tolower a = tolower b" shows "case_ignored_hash a = case_ignored_hash b"
  using case_ignored_hash_tolower [of a] case_ignored_hash_tolower [of b] assms by simp

text \<open>\<^verbatim>\<open>CaseIgnoredFlatMap\<close>.\<close>

interpretation ci_map: flat_map_store no_nul case_ignored_hash case_ignored_equal dflt for dflt
  by unfold_locales (auto simp: case_ignored_equal_iff intro: case_ignored_hash_cong)

text \<open>
  (C23) A lookup by C string finds the entry of the equal \<^verbatim>\<open>std::string\<close> key: for names without NUL
  the two overloads of hash and of equality agree, and equality is equality after \<^verbatim>\<open>tolower\<close>.
\<close>

theorem case_ignored_overloads_agree:
  assumes "no_nul a" "no_nul b"
  shows "case_ignored_equal a b = case_ignored_equal_cstr a b \<and>
    case_ignored_hash a = case_ignored_hash_cstr a \<and>
    (case_ignored_equal a b \<longleftrightarrow> tolower a = tolower b) \<and>
    (case_ignored_equal a b \<longrightarrow> case_ignored_hash a = case_ignored_hash b)"
proof -
  have "case_ignored_equal a b = case_ignored_equal_cstr a b"
    using assms by (auto simp: case_ignored_equal_cstr_def case_ignored_equal_def strcasecmp_eq_def
        c_str_no_nul dest: map_eq_imp_length_eq)
  moreover have "case_ignored_hash a = case_ignored_hash_cstr a"
    using assms by (simp add: case_ignored_hash_def case_ignored_hash_cstr_def c_str_no_nul)
  ultimately show ?thesis
    using case_ignored_equal_iff [OF assms] case_ignored_hash_cong [of a b] by blast
qed

theorem case_ignored_overloads_agree_witness:
  "case_ignored_equal (bytes_of ''Host'') (bytes_of ''hOST'') \<and>
   case_ignored_hash (bytes_of ''Host'') = case_ignored_hash_cstr (bytes_of ''Host'')"
proof -
  have "no_nul (bytes_of ''Host'')" "no_nul (bytes_of ''hOST'')"
    by (simp_all add: no_nul_def bytes_of_def)
  moreover have "tolower (bytes_of ''Host'') = tolower (bytes_of ''hOST'')"
    by (simp add: tolower_eq bytes_of_def to_lower_word)
  ultimately show ?thesis using case_ignored_overloads_agree by blast
qed

text \<open>With a NUL inside, equal keys can have different hash codes.\<close>

lemma nul_breaks_hash:
  "case_ignored_equal [97, 0, 120] [97, 0, 121] \<and> case_ignored_hash [97, 0, 120] \<noteq> case_ignored_hash [97, 0, 121]"
  by (simp add: case_ignored_equal_def strcasecmp_eq_def c_str_def case_ignored_hash_def to_lower_word)

end
