(* ===== verification/Index_Table.thy ===== *)
theory Index_Table
  imports Bounded_Queue Case_Ignored
begin

text \<open>
  \<^verbatim>\<open>IndexTable\<close> (src/flare/rpc/details/hpack.cc): the static and the dynamic header tables of HPACK,
  RFC 7541 section 2.3.  The entries are in a bounded queue, the oldest at the top; the encoder's
  tables also have two hash tables that lead from a header, and from a name, to the number of the
  addition that entered it last.

  Sizes in bytes (\<^verbatim>\<open>size_t\<close>) are natural numbers: they are bounded by \<^verbatim>\<open>_max_size\<close> plus the size of one
  header.  The counter of additions is a 64-bit word, and the detour of its value through an \<^verbatim>\<open>int\<close>
  in \<^verbatim>\<open>AddHeader\<close> is kept.
\<close>

record header =
  hdr_name :: bytes
  hdr_value :: bytes

record index_table =
  it_start_index :: int
  it_need_indexes :: bool
  it_add_times :: "64 word"
  it_max_size :: nat
  it_size :: nat
  it_header_queue :: "header bounded_queue"
  it_header_index :: "(header, 64 word) flat_map"
  it_name_index :: "(bytes, 64 word) flat_map"

record index_table_options =
  opt_max_size :: nat
  opt_start_index :: "64 word"
  opt_static_table :: "header list"
  opt_need_indexes :: bool

subsection \<open>Model\<close>

definition header_hash :: "header \<Rightarrow> 64 word" where
  "header_hash h = case_ignored_hash (hdr_name h) * 101 + string_hash (hdr_value h)"

definition header_equal :: "header \<Rightarrow> header \<Rightarrow> bool" where
  "header_equal h1 h2 \<longleftrightarrow> case_ignored_equal (hdr_name h1) (hdr_name h2) \<and> hdr_value h1 = hdr_value h2"

definition it_new :: index_table where
  "it_new = \<lparr>it_start_index = 0, it_need_indexes = False, it_add_times = 0, it_max_size = 0, it_size = 0,
     it_header_queue = bq_empty_queue, it_header_index = fm_new, it_name_index = fm_new\<rparr>"

definition header_at :: "int \<Rightarrow> index_table \<Rightarrow> header option run" where
  "header_at index t =
     (if index < it_start_index t then Inr None
      else bq_bottom_at (word_of_int (index - it_start_index t)) (it_header_queue t))"

text \<open>\<^verbatim>\<open>_start_index + (_add_times - *v) - 1\<close> is computed with 64 bits and returned as an \<^verbatim>\<open>int\<close>.\<close>

definition index_of_id :: "index_table \<Rightarrow> 64 word \<Rightarrow> int" where
  "index_of_id t v = sint (ucast (word_of_int (it_start_index t) + (it_add_times t - v) - 1 :: 64 word) :: 32 word)"

definition get_index_of_header :: "header \<Rightarrow> index_table \<Rightarrow> int run" where
  "get_index_of_header h t =
     mapE (\<lambda>v. case v of None \<Rightarrow> 0 | Some v \<Rightarrow> index_of_id t v)
       (fm_seek header_hash header_equal h (it_header_index t))"

definition get_index_of_name :: "bytes \<Rightarrow> index_table \<Rightarrow> int run" where
  "get_index_of_name name t =
     mapE (\<lambda>v. case v of None \<Rightarrow> 0 | Some v \<Rightarrow> index_of_id t v)
       (fm_seek case_ignored_hash case_ignored_equal name (it_name_index t))"

definition it_empty :: "index_table \<Rightarrow> bool" where
  "it_empty t \<longleftrightarrow> it_size t = 0"

definition end_index :: "index_table \<Rightarrow> int" where
  "end_index t = sint (ucast (word_of_int (it_start_index t) + bq_size (it_header_queue t) :: 64 word) :: 32 word)"

definition header_size :: "header \<Rightarrow> nat" where
  "header_size h = length (hdr_name h) + length (hdr_value h) + 32"

text \<open>Dereferencing the result of a \<^verbatim>\<open>seek\<close> that found nothing is undefined behaviour.\<close>

definition remove_header_from_indexes :: "header \<Rightarrow> 64 word \<Rightarrow> index_table \<Rightarrow> index_table run" where
  "remove_header_from_indexes h expected_id t =
     bindE
       (if hdr_value h \<noteq> [] then
          bindE (fm_seek header_hash header_equal h (it_header_index t)) (\<lambda>v.
            case v of
              None \<Rightarrow> Inl Undefined
            | Some v \<Rightarrow>
                if v = expected_id
                then mapE (\<lambda>m. t\<lparr>it_header_index := m\<rparr>)
                       (fm_remove header_hash header_equal h (it_header_index t))
                else Inr t)
        else Inr t)
       (\<lambda>t. bindE (fm_seek case_ignored_hash case_ignored_equal (hdr_name h) (it_name_index t)) (\<lambda>v.
            case v of
              None \<Rightarrow> Inl Undefined
            | Some v \<Rightarrow>
                if v = expected_id
                then mapE (\<lambda>m. t\<lparr>it_name_index := m\<rparr>)
                       (fm_remove case_ignored_hash case_ignored_equal (hdr_name h) (it_name_index t))
                else Inr t))"

definition pop_header :: "index_table \<Rightarrow> index_table run" where
  "pop_header t =
     bindE (bq_top (it_header_queue t)) (\<lambda>top.
       case top of
         None \<Rightarrow> Inl Undefined
       | Some h \<Rightarrow>
           let entry_size = header_size h;
               id = it_add_times t - bq_size (it_header_queue t)
           in bindE (if it_need_indexes t then remove_header_from_indexes h id t else Inr t) (\<lambda>t.
              bindE (bq_pop (it_header_queue t)) (\<lambda>(popped, q).
                Inr (t\<lparr>it_size := it_size t - entry_size, it_header_queue := q\<rparr>))))"

text \<open>
  The two loops that pop headers.  Every \<^verbatim>\<open>PopHeader\<close> that returns has taken an entry out of the
  queue, and one on an empty queue does not return.
\<close>

lemma remove_header_from_indexes_queue:
  "remove_header_from_indexes h i t = Inr t' \<Longrightarrow> it_header_queue t' = it_header_queue t"
  by (auto simp: remove_header_from_indexes_def run_simps split: if_splits option.splits)

lemma pop_header_count:
  assumes "pop_header t = Inr t'"
  shows "unat (bq_count (it_header_queue t')) < unat (bq_count (it_header_queue t))"
proof -
  have nz: "bq_count (it_header_queue t) \<noteq> 0"
    using assms by (auto simp: pop_header_def bq_top_def run_simps split: option.splits if_splits)
  obtain h t1 p q where
      "(if it_need_indexes t then remove_header_from_indexes h (it_add_times t - bq_size (it_header_queue t)) t
        else Inr t) = Inr t1"
      and pop: "bq_pop (it_header_queue t1) = Inr (p, q)" and t': "it_header_queue t' = q"
    using assms by (auto simp: pop_header_def Let_def run_simps split: option.splits)
  then have "it_header_queue t1 = it_header_queue t"
    by (auto simp: remove_header_from_indexes_queue split: if_splits)
  then have "bq_count q = bq_count (it_header_queue t) - 1"
    using pop nz by (auto simp: bq_pop_def run_simps)
  then show ?thesis using nz unat_pos [of "bq_count (it_header_queue t)"] by (simp add: t' unat_pred)
qed

function evict_for :: "nat \<Rightarrow> index_table \<Rightarrow> index_table run" where
  "evict_for entry_size t =
     (if \<not> it_empty t \<and> it_size t + entry_size > it_max_size t
      then bindE (pop_header t) (\<lambda>t'. evict_for entry_size t') else Inr t)"
  by pat_completeness auto
termination
  by (relation "measure (\<lambda>(_, t). unat (bq_count (it_header_queue t)))") (auto simp: pop_header_count)

function shrink_to_fit :: "index_table \<Rightarrow> index_table run" where
  "shrink_to_fit t =
     (if it_size t > it_max_size t then bindE (pop_header t) (\<lambda>t'. shrink_to_fit t') else Inr t)"
  by pat_completeness auto
termination
  by (relation "measure (\<lambda>t. unat (bq_count (it_header_queue t)))") (auto simp: pop_header_count)

declare evict_for.simps [simp del] shrink_to_fit.simps [simp del]

definition add_header :: "header \<Rightarrow> index_table \<Rightarrow> index_table run" where
  "add_header h t =
     bindE (checkE (hdr_name h \<noteq> [])) (\<lambda>_.
       let entry_size = header_size h in
       bindE (evict_for entry_size t) (\<lambda>t.
         if entry_size > it_max_size t then Inr t
         else
           let t = t\<lparr>it_size := it_size t + entry_size\<rparr> in
           bindE (checkE (\<not> bq_full (it_header_queue t))) (\<lambda>_.
           bindE (bq_push h (it_header_queue t)) (\<lambda>(pushed, q).
             let id = (scast (ucast (it_add_times t) :: 32 word) :: 64 word);
                 t = t\<lparr>it_header_queue := q, it_add_times := it_add_times t + 1\<rparr>
             in if it_need_indexes t then
                  bindE (if hdr_value h \<noteq> []
                         then mapE (\<lambda>m. t\<lparr>it_header_index := m\<rparr>)
                                (fm_put header_hash header_equal 0 h id (it_header_index t))
                         else Inr t) (\<lambda>t.
                    mapE (\<lambda>m. t\<lparr>it_name_index := m\<rparr>)
                      (fm_put case_ignored_hash case_ignored_equal 0 (hdr_name h) id (it_name_index t)))
                else Inr t))))"

definition reset_max_size :: "nat \<Rightarrow> index_table \<Rightarrow> index_table run" where
  "reset_max_size new_max_size t =
     (if new_max_size > it_max_size t then Inr (t\<lparr>it_max_size := new_max_size\<rparr>)
      else if new_max_size < it_max_size t then shrink_to_fit (t\<lparr>it_max_size := new_max_size\<rparr>)
      else Inr t)"

definition sizeof_header :: "64 word" where
  "sizeof_header = 64"

definition num_headers :: "index_table_options \<Rightarrow> nat" where
  "num_headers options =
     (if opt_static_table options \<noteq> [] then length (opt_static_table options)
      else opt_max_size options div (32 + 2))"

definition it_init :: "index_table_options \<Rightarrow> index_table \<Rightarrow> (bool \<times> index_table) run" where
  "it_init options t =
     (let static = opt_static_table options;
          num = num_headers options;
          t = t\<lparr>it_max_size := if static \<noteq> [] then 4294967295 else opt_max_size options\<rparr>;
          t = t\<lparr>it_header_queue := bq_create (Some (replicate num None))
                   (word_of_nat num * sizeof_header) sizeof_header OWNS_STORAGE,
                it_start_index := sint (ucast (opt_start_index options) :: 32 word),
                it_need_indexes := opt_need_indexes options\<rparr>;
          (ok, t) =
            (if it_need_indexes t then
               case fm_init (word_of_nat num * 2) 80 (it_name_index t) of
                 (False, m) \<Rightarrow> (False, t\<lparr>it_name_index := m\<rparr>)
               | (True, m) \<Rightarrow>
                   let t = t\<lparr>it_name_index := m\<rparr> in
                   (case fm_init (word_of_nat num * 2) 80 (it_header_index t) of
                      (r, m) \<Rightarrow> (r, t\<lparr>it_header_index := m\<rparr>))
             else (True, t))
      in if \<not> ok then Inr (False, t)
         else mapE (\<lambda>t. (True, t)) (foldE (\<lambda>t h. add_header h t) t (rev static)))"

subsection \<open>The list a table stands for\<close>

text \<open>
  The entries from the oldest to the newest; \<open>latest\<close> is the position of the last entry with a
  property.  RFC 7541 section 4.4 is \<open>table_add\<close>: entries are evicted from the old end until the
  new one fits, and a header that is larger than the table empties it.
\<close>

definition it_list :: "index_table \<Rightarrow> header list" where
  "it_list t = bq_list (it_header_queue t)"

definition table_size :: "header list \<Rightarrow> nat" where
  "table_size xs = sum_list (map header_size xs)"

fun evicted :: "nat \<Rightarrow> header list \<Rightarrow> header list" where
  "evicted room [] = []"
| "evicted room (x # xs) = (if table_size (x # xs) > room then evicted room xs else x # xs)"

definition table_add :: "nat \<Rightarrow> header \<Rightarrow> header list \<Rightarrow> header list" where
  "table_add max_size h xs =
     (if header_size h > max_size then [] else evicted (max_size - header_size h) xs @ [h])"

fun latest :: "('a \<Rightarrow> bool) \<Rightarrow> 'a list \<Rightarrow> nat option" where
  "latest P [] = None"
| "latest P (x # xs) = (case latest P xs of Some i \<Rightarrow> Some (Suc i) | None \<Rightarrow> if P x then Some 0 else None)"

lemma latest_append1: "latest P (xs @ [x]) = (if P x then Some (length xs) else latest P xs)"
  by (induction xs) auto

lemma latest_None_iff: "latest P xs = None \<longleftrightarrow> (\<forall>x \<in> set xs. \<not> P x)"
  by (induction xs) (auto split: option.splits)

lemma latest_SomeD: "latest P xs = Some i \<Longrightarrow> i < length xs \<and> P (xs ! i)"
  by (induction xs arbitrary: i) (auto split: option.splits if_splits)

lemma latest_tl:
  "latest P xs = (case latest P (x # xs) of Some (Suc i) \<Rightarrow> Some i | _ \<Rightarrow> None)"
  by (auto split: option.splits)

lemma latest_cong: "(\<And>x. x \<in> set xs \<Longrightarrow> P x = Q x) \<Longrightarrow> latest P xs = latest Q xs"
  by (induction xs) (auto split: option.splits)

lemma header_size_ge: "32 \<le> header_size h"
  by (simp add: header_size_def)

lemma table_size_simps [simp]: "table_size [] = 0" "table_size (x # xs) = header_size x + table_size xs"
  "table_size (xs @ ys) = table_size xs + table_size ys"
  by (simp_all add: table_size_def)

lemma table_size_0_iff: "table_size xs = 0 \<longleftrightarrow> xs = []"
  using header_size_ge by (cases xs) (auto simp: header_size_def)

lemma table_size_evicted: "table_size (evicted room xs) \<le> room"
  by (induction xs) auto

lemma set_evicted: "set (evicted room xs) \<subseteq> set xs"
  by (induction xs) auto

lemma length_evicted: "length (evicted room xs) \<le> length xs"
  by (induction xs) auto

lemma evicted_id: "table_size xs \<le> room \<Longrightarrow> evicted room xs = xs"
  by (cases xs) auto

lemma evicted_no_room:
  assumes "\<forall>x \<in> set xs. room < header_size x" shows "evicted room xs = []"
  using assms by (induction xs) auto

text \<open>The keys of the two hash tables.\<close>

definition hdr_ok :: "header \<Rightarrow> bool" where
  "hdr_ok h \<longleftrightarrow> hdr_name h \<noteq> [] \<and> no_nul (hdr_name h)"

abbreviation key_ok :: "header \<Rightarrow> bool" where
  "key_ok h \<equiv> no_nul (hdr_name h)"

lemma header_equal_iff:
  "key_ok a \<Longrightarrow> key_ok b \<Longrightarrow>
   header_equal a b \<longleftrightarrow> tolower (hdr_name a) = tolower (hdr_name b) \<and> hdr_value a = hdr_value b"
  by (simp add: header_equal_def case_ignored_equal_iff)

interpretation hdr_map: flat_map_store key_ok header_hash header_equal dflt for dflt
  by unfold_locales (auto simp: header_equal_iff header_hash_def dest!: case_ignored_hash_cong)

text \<open>The number of the addition that entered the entry at position \<open>i\<close>.\<close>

definition id_at :: "index_table \<Rightarrow> nat \<Rightarrow> 64 word" where
  "id_at t i = word_of_nat (unat (it_add_times t) - length (it_list t) + i)"

definition name_pos :: "bytes \<Rightarrow> header list \<Rightarrow> nat option" where
  "name_pos n xs = latest (\<lambda>x. tolower (hdr_name x) = tolower n) xs"

definition header_pos :: "header \<Rightarrow> header list \<Rightarrow> nat option" where
  "header_pos h xs =
     (if hdr_value h = [] then None
      else latest (\<lambda>x. tolower (hdr_name x) = tolower (hdr_name h) \<and> hdr_value x = hdr_value h) xs)"

definition indexes_ok :: "index_table \<Rightarrow> bool" where
  "indexes_ok t \<longleftrightarrow>
     fm_inv key_ok header_hash header_equal (it_header_index t) \<and>
     fm_inv no_nul case_ignored_hash case_ignored_equal (it_name_index t) \<and>
     unat (fm_size (it_header_index t)) \<le> unat (it_add_times t) \<and>
     unat (fm_size (it_name_index t)) \<le> unat (it_add_times t) \<and>
     (\<forall>h. key_ok h \<longrightarrow> fm_lookup header_hash header_equal (it_header_index t) h =
        map_option (id_at t) (header_pos h (it_list t))) \<and>
     (\<forall>n. no_nul n \<longrightarrow> fm_lookup case_ignored_hash case_ignored_equal (it_name_index t) n =
        map_option (id_at t) (name_pos n (it_list t)))"

definition it_inv :: "index_table \<Rightarrow> bool" where
  "it_inv t \<longleftrightarrow>
     bq_inv (it_header_queue t) \<and> (\<forall>h \<in> set (it_list t). hdr_ok h) \<and>
     it_size t = table_size (it_list t) \<and>
     length (it_list t) \<le> unat (it_add_times t) \<and> unat (it_add_times t) < 2 ^ 31 \<and>
     (it_need_indexes t \<longrightarrow> indexes_ok t)"

text \<open>What adding and removing entries leaves alone.\<close>

definition it_frame :: "index_table \<Rightarrow> index_table \<Rightarrow> bool" where
  "it_frame t t' \<longleftrightarrow>
     it_start_index t' = it_start_index t \<and> it_need_indexes t' = it_need_indexes t \<and>
     it_max_size t' = it_max_size t \<and> bq_cap (it_header_queue t') = bq_cap (it_header_queue t)"

lemma it_frame_refl [simp]: "it_frame t t"
  by (simp add: it_frame_def)

lemma it_frame_trans: "it_frame t t' \<Longrightarrow> it_frame t' t'' \<Longrightarrow> it_frame t t''"
  by (simp add: it_frame_def)

lemma indexes_okD:
  assumes "indexes_ok t"
  shows "key_ok h \<Longrightarrow> fm_seek header_hash header_equal h (it_header_index t) =
      Inr (map_option (id_at t) (header_pos h (it_list t)))"
    and "no_nul n \<Longrightarrow> fm_seek case_ignored_hash case_ignored_equal n (it_name_index t) =
      Inr (map_option (id_at t) (name_pos n (it_list t)))"
  using assms by (auto simp: indexes_ok_def hdr_map.seek_lookup ci_map.seek_lookup)

lemma bq_size_list: "bq_inv q \<Longrightarrow> unat (bq_size q) = length (bq_list q)"
  by (simp add: bq_size_def bq_list_def unat_ucast_up)

subsection \<open>Popping\<close>

lemma pop_lookup:
  assumes "Px x" "eq \<Longrightarrow> latest Ph (x # ys) = latest Px (x # ys)" "\<not> eq \<Longrightarrow> \<not> Ph x"
  shows "(if latest Px (x # ys) = Some 0 \<and> eq then None else map_option f (latest Ph (x # ys))) =
    map_option (\<lambda>i. f (Suc i)) (latest Ph ys)"
proof (cases eq)
  case True
  then show ?thesis using assms(1) assms(2) [OF True] by (auto split: option.splits if_splits)
next
  case False
  then show ?thesis using assms(3) by (auto split: option.splits)
qed

lemma id_at_eq_iff:
  assumes "length (it_list t) \<le> unat (it_add_times t)" "unat (it_add_times t) < 2 ^ 31" "i < length (it_list t)"
    "bq_inv (it_header_queue t)"
  shows "id_at t i = it_add_times t - bq_size (it_header_queue t) \<longleftrightarrow> i = 0"
proof -
  have len: "unat (bq_size (it_header_queue t)) = length (it_list t)"
    using bq_size_list [OF assms(4)] by (simp add: it_list_def)
  have "unat (it_add_times t - bq_size (it_header_queue t)) = unat (it_add_times t) - length (it_list t)"
    using assms(1) len by (subst unat_sub_small) auto
  moreover have "unat (id_at t i) = unat (it_add_times t) - length (it_list t) + i"
    unfolding id_at_def using assms(1-3) by (intro unat_of_nat_small) simp
  ultimately show ?thesis by (simp add: word_unat_eq_iff)
qed

lemma id_at_Suc:
  assumes "length (it_list t) = Suc (length (it_list t'))" "length (it_list t) \<le> unat (it_add_times t)"
    "it_add_times t' = it_add_times t"
  shows "id_at t' i = id_at t (Suc i)"
  using assms by (simp add: id_at_def)

lemma it_invD:
  assumes "it_inv t"
  shows "bq_inv (it_header_queue t)" "\<And>h. h \<in> set (it_list t) \<Longrightarrow> hdr_ok h"
    "it_size t = table_size (it_list t)" "length (it_list t) \<le> unat (it_add_times t)"
    "unat (it_add_times t) < 2 ^ 31" "it_need_indexes t \<Longrightarrow> indexes_ok t"
  using assms by (auto simp: it_inv_def)

text \<open>
  One index, from keys to additions: dropping the oldest entry.  \<open>Px\<close> selects the entries with the
  key of the dropped one.
\<close>

context flat_map_store
begin

lemma drop_oldest:
  fixes m :: "('k, 'v) flat_map"
  assumes inv: "inv m" and k: "ok k" and x: "Px x"
    and lookup: "\<And>k. ok k \<Longrightarrow> lookup m k = map_option f (if indexed k then latest (P k) (x # ys) else None)"
    and Px: "indexed k" "Px = P k"
    and eq: "\<And>k'. ok k' \<Longrightarrow> eql k k' \<Longrightarrow> indexed k' \<and> P k' = P k"
    and neq: "\<And>k'. ok k' \<Longrightarrow> \<not> eql k k' \<Longrightarrow> \<not> P k' x"
    and first: "\<And>i. i < Suc (length ys) \<Longrightarrow> f i = expected \<longleftrightarrow> i = 0"
  shows "\<exists>m'. bindE (fm_seek hashfn eql k m) (\<lambda>v.
      case v of None \<Rightarrow> Inl Undefined
      | Some v \<Rightarrow> if v = expected then mapE g (fm_remove hashfn eql k m) else Inr (g m)) = Inr (g m') \<and>
    inv m' \<and> unat (fm_size m') \<le> unat (fm_size m) \<and>
    (\<forall>k'. ok k' \<longrightarrow> lookup m' k' = map_option (\<lambda>i. f (Suc i)) (if indexed k' then latest (P k') ys else None))"
proof -
  have "latest (P k) (x # ys) \<noteq> None" using x Px by (simp split: option.splits)
  then obtain i where i: "latest (P k) (x # ys) = Some i" by blast
  have seek: "fm_seek hashfn eql k m = Inr (Some (f i))"
    using seek_lookup [OF inv, of k] lookup [OF k] i Px(1) by simp
  have exp: "f i = expected \<longleftrightarrow> i = 0" using first latest_SomeD [OF i] by simp
  have look: "(if i = 0 \<and> eql k k' then None else lookup m k') =
      map_option (\<lambda>i. f (Suc i)) (if indexed k' then latest (P k') ys else None)" if "ok k'" for k'
  proof (cases "indexed k'")
    case True
    from pop_lookup [of Px x "eql k k'" "P k'" ys f] x eq [OF that] neq [OF that]
    have "(if i = 0 \<and> eql k k' then None else map_option f (latest (P k') (x # ys))) =
        map_option (\<lambda>i. f (Suc i)) (latest (P k') ys)"
      using i Px(2) by simp
    then show ?thesis unfolding lookup [OF that] using True by (simp only: if_True)
  next
    case False
    then have "\<not> eql k k'" using eq [OF that] by blast
    with False show ?thesis unfolding lookup [OF that] by simp
  qed
  show ?thesis
  proof (cases "i = 0")
    case True
    from remove_law [OF inv k] obtain m' where "fm_remove hashfn eql k m = Inr m'" "inv m'"
      "unat (fm_size m') \<le> unat (fm_size m)"
      "\<forall>k'. ok k' \<longrightarrow> lookup m' k' = (if eql k k' then None else lookup m k')" by blast
    with True seek exp look show ?thesis by (intro exI [of _ m']) auto
  next
    case False
    with seek exp look inv show ?thesis by (intro exI [of _ m]) auto
  qed
qed

end

lemma remove_law:
  assumes inv: "it_inv t" and need: "it_need_indexes t" and xs: "it_list t = x # ys"
  shows "\<exists>m1 m2. remove_header_from_indexes x (it_add_times t - bq_size (it_header_queue t)) t =
      Inr (t\<lparr>it_header_index := m1, it_name_index := m2\<rparr>) \<and>
    fm_inv key_ok header_hash header_equal m1 \<and>
    fm_inv no_nul case_ignored_hash case_ignored_equal m2 \<and>
    unat (fm_size m1) \<le> unat (fm_size (it_header_index t)) \<and>
    unat (fm_size m2) \<le> unat (fm_size (it_name_index t)) \<and>
    (\<forall>h. key_ok h \<longrightarrow> fm_lookup header_hash header_equal m1 h = map_option (\<lambda>i. id_at t (Suc i)) (header_pos h ys)) \<and>
    (\<forall>n. no_nul n \<longrightarrow> fm_lookup case_ignored_hash case_ignored_equal m2 n = map_option (\<lambda>i. id_at t (Suc i)) (name_pos n ys))"
proof -
  note I = it_invD [OF inv]
  note idx = I(6) [OF need, unfolded indexes_ok_def xs]
  have x: "key_ok x" using I(2) xs by (simp add: hdr_ok_def)
  let ?id = "it_add_times t - bq_size (it_header_queue t)"
  have ids: "id_at t i = ?id \<longleftrightarrow> i = 0" if "i < Suc (length ys)" for i
    using id_at_eq_iff [OF I(4,5) _ I(1)] that xs by simp
  let ?P = "\<lambda>h x. tolower (hdr_name x) = tolower (hdr_name h) \<and> hdr_value x = hdr_value h"
  have "\<exists>m1. (if hdr_value x \<noteq> [] then
          bindE (fm_seek header_hash header_equal x (it_header_index t)) (\<lambda>v.
            case v of None \<Rightarrow> Inl Undefined
            | Some v \<Rightarrow> if v = ?id then mapE (\<lambda>m. t\<lparr>it_header_index := m\<rparr>)
                       (fm_remove header_hash header_equal x (it_header_index t)) else Inr t)
        else Inr t) = Inr (t\<lparr>it_header_index := m1\<rparr>) \<and> fm_inv key_ok header_hash header_equal m1 \<and>
      unat (fm_size m1) \<le> unat (fm_size (it_header_index t)) \<and>
      (\<forall>h. key_ok h \<longrightarrow> fm_lookup header_hash header_equal m1 h = map_option (\<lambda>i. id_at t (Suc i)) (header_pos h ys))"
  proof (cases "hdr_value x = []")
    case True
    have "map_option (id_at t) (header_pos h (x # ys)) = map_option (\<lambda>i. id_at t (Suc i)) (header_pos h ys)" for h
      using True by (auto simp: header_pos_def split: option.splits)
    with True idx show ?thesis by (intro exI [of _ "it_header_index t"]) simp
  next
    case False
    have "\<exists>m1. bindE (fm_seek header_hash header_equal x (it_header_index t)) (\<lambda>v.
            case v of None \<Rightarrow> Inl Undefined
            | Some v \<Rightarrow> if v = ?id then mapE (\<lambda>m. t\<lparr>it_header_index := m\<rparr>)
                       (fm_remove header_hash header_equal x (it_header_index t))
                else Inr (t\<lparr>it_header_index := it_header_index t\<rparr>)) = Inr (t\<lparr>it_header_index := m1\<rparr>) \<and>
      fm_inv key_ok header_hash header_equal m1 \<and>
      unat (fm_size m1) \<le> unat (fm_size (it_header_index t)) \<and>
      (\<forall>h. key_ok h \<longrightarrow> fm_lookup header_hash header_equal m1 h =
         map_option (\<lambda>i. id_at t (Suc i)) (if hdr_value h \<noteq> [] then latest (?P h) ys else None))"
      by (rule hdr_map.drop_oldest [where Px = "?P x" and x = x])
        (use False idx ids x in \<open>auto simp: header_equal_iff header_pos_def\<close>)
    moreover have "t\<lparr>it_header_index := it_header_index t\<rparr> = t" by (cases t) simp
    moreover have "header_pos h ys = (if hdr_value h \<noteq> [] then latest (?P h) ys else None)" for h
      by (simp add: header_pos_def)
    ultimately show ?thesis using False by (simp only: not_False_eq_True if_True)
  qed
  then obtain m1 where m1: "(if hdr_value x \<noteq> [] then
          bindE (fm_seek header_hash header_equal x (it_header_index t)) (\<lambda>v.
            case v of None \<Rightarrow> Inl Undefined
            | Some v \<Rightarrow> if v = ?id then mapE (\<lambda>m. t\<lparr>it_header_index := m\<rparr>)
                       (fm_remove header_hash header_equal x (it_header_index t)) else Inr t)
        else Inr t) = Inr (t\<lparr>it_header_index := m1\<rparr>)" "fm_inv key_ok header_hash header_equal m1"
      "unat (fm_size m1) \<le> unat (fm_size (it_header_index t))"
      "\<forall>h. key_ok h \<longrightarrow> fm_lookup header_hash header_equal m1 h = map_option (\<lambda>i. id_at t (Suc i)) (header_pos h ys)"
    by blast
  let ?t = "t\<lparr>it_header_index := m1\<rparr>"
  let ?Q = "\<lambda>n x. tolower (hdr_name x) = tolower n"
  have "\<exists>m2. bindE (fm_seek case_ignored_hash case_ignored_equal (hdr_name x) (it_name_index t)) (\<lambda>v.
            case v of None \<Rightarrow> Inl Undefined
            | Some v \<Rightarrow> if v = ?id then mapE (\<lambda>m. ?t\<lparr>it_name_index := m\<rparr>)
                       (fm_remove case_ignored_hash case_ignored_equal (hdr_name x) (it_name_index t))
                else Inr (?t\<lparr>it_name_index := it_name_index t\<rparr>)) = Inr (?t\<lparr>it_name_index := m2\<rparr>) \<and>
      fm_inv no_nul case_ignored_hash case_ignored_equal m2 \<and>
      unat (fm_size m2) \<le> unat (fm_size (it_name_index t)) \<and>
      (\<forall>n. no_nul n \<longrightarrow> fm_lookup case_ignored_hash case_ignored_equal m2 n =
         map_option (\<lambda>i. id_at t (Suc i)) (if True then latest (?Q n) ys else None))"
    by (rule ci_map.drop_oldest [where indexed = "\<lambda>_. True" and Px = "?Q (hdr_name x)" and x = x])
      (use idx ids x in \<open>auto simp: case_ignored_equal_iff name_pos_def\<close>)
  then obtain m2 where m2: "bindE (fm_seek case_ignored_hash case_ignored_equal (hdr_name x) (it_name_index t)) (\<lambda>v.
            case v of None \<Rightarrow> Inl Undefined
            | Some v \<Rightarrow> if v = ?id then mapE (\<lambda>m. ?t\<lparr>it_name_index := m\<rparr>)
                       (fm_remove case_ignored_hash case_ignored_equal (hdr_name x) (it_name_index t))
                else Inr (?t\<lparr>it_name_index := it_name_index t\<rparr>)) = Inr (?t\<lparr>it_name_index := m2\<rparr>)"
      "fm_inv no_nul case_ignored_hash case_ignored_equal m2"
      "unat (fm_size m2) \<le> unat (fm_size (it_name_index t))"
      "\<forall>n. no_nul n \<longrightarrow> fm_lookup case_ignored_hash case_ignored_equal m2 n =
         map_option (\<lambda>i. id_at t (Suc i)) (name_pos n ys)"
    by (auto simp: name_pos_def)
  have ix: "it_name_index ?t = it_name_index t" by simp
  have same: "?t\<lparr>it_name_index := it_name_index t\<rparr> = ?t" by (cases t) simp
  have "remove_header_from_indexes x ?id t = Inr (?t\<lparr>it_name_index := m2\<rparr>)"
    unfolding remove_header_from_indexes_def m1(1) bindE.simps ix by (rule m2(1) [unfolded same])
  with m1 m2 show ?thesis by blast
qed

lemma pop_header_law:
  assumes inv: "it_inv t" and xs: "it_list t = x # ys"
  shows "\<exists>t'. pop_header t = Inr t' \<and> it_inv t' \<and> it_list t' = ys \<and> it_frame t t' \<and>
    it_add_times t' = it_add_times t"
proof -
  note I = it_invD [OF inv]
  let ?q = "it_header_queue t"
  have top: "bq_top ?q = Inr (Some x)" using bq_top_spec [OF I(1)] xs by (simp add: it_list_def)
  obtain q where q: "bq_pop ?q = Inr (True, q)" "bq_inv q" "bq_cap q = bq_cap ?q" "bq_list q = ys"
    using bq_pop_spec [OF I(1)] xs by (auto simp: it_list_def)
  have size: "it_size t - header_size x = table_size ys" using I(3) xs by simp
  show ?thesis
  proof (cases "it_need_indexes t")
    case False
    let ?t = "t\<lparr>it_size := it_size t - header_size x, it_header_queue := q\<rparr>"
    have "pop_header t = Inr ?t" using False top q(1) by (simp add: pop_header_def)
    moreover have "it_list ?t = ys" using q(4) by (simp add: it_list_def)
    moreover have "it_inv ?t"
      using False I(2,4,5) xs q(2) size calculation(2) by (simp add: it_inv_def)
    ultimately show ?thesis using q(3) by (intro exI [of _ ?t]) (simp add: it_frame_def)
  next
    case True
    obtain m1 m2 where m: "remove_header_from_indexes x (it_add_times t - bq_size ?q) t =
        Inr (t\<lparr>it_header_index := m1, it_name_index := m2\<rparr>)"
        "fm_inv key_ok header_hash header_equal m1" "fm_inv no_nul case_ignored_hash case_ignored_equal m2"
        "unat (fm_size m1) \<le> unat (fm_size (it_header_index t))"
        "unat (fm_size m2) \<le> unat (fm_size (it_name_index t))"
        "\<forall>h. key_ok h \<longrightarrow> fm_lookup header_hash header_equal m1 h =
           map_option (\<lambda>i. id_at t (Suc i)) (header_pos h ys)"
        "\<forall>n. no_nul n \<longrightarrow> fm_lookup case_ignored_hash case_ignored_equal m2 n =
           map_option (\<lambda>i. id_at t (Suc i)) (name_pos n ys)"
      using remove_law [OF inv True xs] by blast
    let ?t = "t\<lparr>it_header_index := m1, it_name_index := m2, it_size := it_size t - header_size x,
      it_header_queue := q\<rparr>"
    have run: "pop_header t = Inr ?t" using True top q(1) m(1) by (simp add: pop_header_def Let_def)
    have list: "it_list ?t = ys" using q(4) by (simp add: it_list_def)
    have ids: "id_at ?t = (\<lambda>i. id_at t (Suc i))"
      by (intro ext id_at_Suc) (use list xs I(4) in simp_all)
    have "indexes_ok ?t"
      using I(6) [OF True] m(2-7) list by (simp add: indexes_ok_def ids)
    then have "it_inv ?t"
      using True I(2,4,5) xs q(2) size list by (simp add: it_inv_def)
    with run list q(3) show ?thesis by (intro exI [of _ ?t]) (simp add: it_frame_def)
  qed
qed

lemma evict_for_law:
  "it_inv t \<Longrightarrow> it_list t = xs \<Longrightarrow>
   \<exists>t'. evict_for n t = Inr t' \<and> it_inv t' \<and> it_frame t t' \<and> it_add_times t' = it_add_times t \<and>
     it_list t' = (if n > it_max_size t then [] else evicted (it_max_size t - n) xs)"
proof (induction xs arbitrary: t)
  case Nil
  then have "it_empty t" by (simp add: it_empty_def it_invD(3))
  with Nil show ?case by (simp add: evict_for.simps [of n t])
next
  case (Cons x xs)
  note I = it_invD [OF Cons.prems(1)]
  have ne: "\<not> it_empty t" using header_size_ge [of x] by (simp add: it_empty_def I(3) Cons.prems(2))
  show ?case
  proof (cases "it_size t + n > it_max_size t")
    case False
    then have fit: "table_size (x # xs) \<le> it_max_size t - n" "n \<le> it_max_size t"
      using I(3) Cons.prems(2) by simp_all
    then have "evicted (it_max_size t - n) (x # xs) = x # xs" by (intro evicted_id)
    with False fit Cons.prems show ?thesis by (simp add: evict_for.simps [of n t])
  next
    case True
    obtain t1 where t1: "pop_header t = Inr t1" "it_inv t1" "it_list t1 = xs" "it_frame t t1"
        "it_add_times t1 = it_add_times t"
      using pop_header_law [OF Cons.prems] by blast
    obtain t2 where "evict_for n t1 = Inr t2" "it_inv t2" "it_frame t1 t2" "it_add_times t2 = it_add_times t1"
        "it_list t2 = (if n > it_max_size t1 then [] else evicted (it_max_size t1 - n) xs)"
      using Cons.IH [OF t1(2,3)] by blast
    moreover have "it_max_size t1 = it_max_size t" using t1(4) by (simp add: it_frame_def)
    moreover have "n \<le> it_max_size t \<Longrightarrow> table_size (x # xs) > it_max_size t - n"
      using True I(3) Cons.prems(2) by simp
    ultimately show ?thesis using True ne t1 it_frame_trans [OF t1(4)]
      by (simp add: evict_for.simps [of n t])
  qed
qed

lemma shrink_to_fit_law:
  "it_inv t \<Longrightarrow> it_list t = xs \<Longrightarrow>
   \<exists>t'. shrink_to_fit t = Inr t' \<and> it_inv t' \<and> it_frame t t' \<and> it_add_times t' = it_add_times t \<and>
     it_list t' = evicted (it_max_size t) xs"
proof (induction xs arbitrary: t)
  case Nil
  then show ?case by (simp add: shrink_to_fit.simps [of t] it_invD(3))
next
  case (Cons x xs)
  note I = it_invD [OF Cons.prems(1)]
  show ?case
  proof (cases "it_size t > it_max_size t")
    case False
    with Cons.prems I(3) show ?thesis by (simp add: shrink_to_fit.simps [of t])
  next
    case True
    obtain t1 where t1: "pop_header t = Inr t1" "it_inv t1" "it_list t1 = xs" "it_frame t t1"
        "it_add_times t1 = it_add_times t"
      using pop_header_law [OF Cons.prems] by blast
    obtain t2 where "shrink_to_fit t1 = Inr t2" "it_inv t2" "it_frame t1 t2" "it_add_times t2 = it_add_times t1"
        "it_list t2 = evicted (it_max_size t1) xs"
      using Cons.IH [OF t1(2,3)] by blast
    moreover have "it_max_size t1 = it_max_size t" using t1(4) by (simp add: it_frame_def)
    ultimately show ?thesis using True t1 I(3) Cons.prems(2) it_frame_trans [OF t1(4)]
      by (simp add: shrink_to_fit.simps [of t])
  qed
qed

subsection \<open>Adding\<close>

lemma int_detour:
  assumes "unat (a :: 64 word) < 2 ^ 31"
  shows "(scast (ucast a :: 32 word) :: 64 word) = a"
proof -
  have u: "uint a < 2 ^ 31" using assms by (metis of_nat_less_iff of_nat_numeral of_nat_power uint_nat)
  then have "uint (ucast a :: 32 word) = uint a" by (simp add: uint_ucast_mod)
  with u have "sint (ucast a :: 32 word) = uint a" by (simp add: sint_small)
  then show ?thesis by (metis scast_eq word_of_int_uint)
qed

lemma id_at_append:
  assumes "it_list t' = it_list t @ [h]" "unat (it_add_times t') = Suc (unat (it_add_times t))"
    "length (it_list t) \<le> unat (it_add_times t)"
  shows "id_at t' = id_at t" "id_at t (length (it_list t)) = it_add_times t"
  using assms by (auto simp: id_at_def fun_eq_iff)

lemma add_header_law:
  assumes inv: "it_inv t" and h: "hdr_ok h" and times: "unat (it_add_times t) + 1 < 2 ^ 31"
    and room: "length (table_add (it_max_size t) h (it_list t)) \<le> unat (bq_cap (it_header_queue t))"
  shows "\<exists>t'. add_header h t = Inr t' \<and> it_inv t' \<and> it_frame t t' \<and>
    unat (it_add_times t') \<le> unat (it_add_times t) + 1 \<and>
    it_list t' = table_add (it_max_size t) h (it_list t)"
proof -
  let ?n = "header_size h"
  obtain t1 where t1: "evict_for ?n t = Inr t1" "it_inv t1" "it_frame t t1" "it_add_times t1 = it_add_times t"
      "it_list t1 = (if ?n > it_max_size t then [] else evicted (it_max_size t - ?n) (it_list t))"
    using evict_for_law [OF inv refl, of ?n] by blast
  have max: "it_max_size t1 = it_max_size t" "it_need_indexes t1 = it_need_indexes t"
      "bq_cap (it_header_queue t1) = bq_cap (it_header_queue t)" using t1(3) by (simp_all add: it_frame_def)
  have name: "hdr_name h \<noteq> []" "key_ok h" using h by (auto simp: hdr_ok_def)
  show ?thesis
  proof (cases "?n > it_max_size t")
    case True
    with t1 max name show ?thesis by (intro exI [of _ t1]) (simp add: add_header_def table_add_def)
  next
    case False
    note I = it_invD [OF t1(2)]
    let ?xs = "it_list t1"
    have list: "table_add (it_max_size t) h (it_list t) = ?xs @ [h]"
      using False t1(5) by (simp add: table_add_def)
    have len: "length (bq_list (it_header_queue t1)) < unat (bq_cap (it_header_queue t1))"
      using room list max(3) by (simp add: it_list_def)
    have nfull: "\<not> bq_full (it_header_queue t1)" using len by (auto simp: bq_full_def bq_list_def)
    obtain q where q: "bq_push h (it_header_queue t1) = Inr (True, q)" "bq_inv q"
        "bq_cap q = bq_cap (it_header_queue t1)" "bq_list q = ?xs @ [h]"
      using bq_push_spec [OF I(1), of h] len by (auto simp: it_list_def)
    let ?id = "scast (ucast (it_add_times t1) :: 32 word) :: 64 word"
    have id: "?id = it_add_times t1" using I(5) by (rule int_detour)
    let ?t = "t1\<lparr>it_size := it_size t1 + ?n, it_header_queue := q, it_add_times := it_add_times t1 + 1\<rparr>"
    have list': "it_list ?t = ?xs @ [h]" using q(4) by (simp add: it_list_def)
    have times': "unat (it_add_times t1 + 1) = Suc (unat (it_add_times t1))"
      using times t1(4) by (simp add: unat_word_ariths)
    have base: "it_inv ?t" if "it_need_indexes t1 \<longrightarrow> indexes_ok ?t"
      using that I(2,3,4) q(2) list' times times' h t1(4) by (auto simp: it_inv_def)
    have run: "add_header h t = (if it_need_indexes ?t then
        bindE (if hdr_value h \<noteq> [] then mapE (\<lambda>m. ?t\<lparr>it_header_index := m\<rparr>)
                 (fm_put header_hash header_equal 0 h (it_add_times t1) (it_header_index t1)) else Inr ?t)
          (\<lambda>t. mapE (\<lambda>m. t\<lparr>it_name_index := m\<rparr>)
             (fm_put case_ignored_hash case_ignored_equal 0 (hdr_name h) (it_add_times t1) (it_name_index t)))
        else Inr ?t)"
      using name(1) t1(1) False max(1) nfull q(1) id by (simp add: add_header_def Let_def)
    have app: "map_option (id_at t1) (latest P (?xs @ [h])) =
        (if P h then Some (it_add_times t1) else map_option (id_at t1) (latest P ?xs))" for P
      using id_at_append(2) [OF list' _ I(4)] times' by (simp add: latest_append1)
    show ?thesis
    proof (cases "it_need_indexes t1")
      case False
      then show ?thesis using base run list list' t1(3,4) q(3) times'
        by (intro exI [of _ ?t]) (simp add: it_frame_def)
    next
      case True
      note idx = I(6) [OF True, unfolded indexes_ok_def]
      have small: "unat (it_add_times t1) < 2 ^ 52" using I(5) by simp
      obtain m1 where m1: "(if hdr_value h \<noteq> [] then mapE (\<lambda>m. ?t\<lparr>it_header_index := m\<rparr>)
            (fm_put header_hash header_equal 0 h (it_add_times t1) (it_header_index t1)) else Inr ?t) =
            Inr (?t\<lparr>it_header_index := m1\<rparr>)"
          "fm_inv key_ok header_hash header_equal m1"
          "unat (fm_size m1) \<le> unat (fm_size (it_header_index t1)) + 1"
          "\<forall>k. key_ok k \<longrightarrow> fm_lookup header_hash header_equal m1 k =
             (if hdr_value h \<noteq> [] \<and> header_equal h k then Some (it_add_times t1)
              else fm_lookup header_hash header_equal (it_header_index t1) k)"
      proof (cases "hdr_value h = []")
        case True
        have "?t\<lparr>it_header_index := it_header_index t1\<rparr> = ?t" by (cases t1) simp
        with True idx that [of "it_header_index t1"] show thesis by simp
      next
        case False
        have "unat (fm_size (it_header_index t1)) < 2 ^ 52" using idx small by linarith
        with hdr_map.store_law [of "it_header_index t1" h 0 "it_add_times t1"] idx name(2) False that
        show thesis by auto
      qed
      have "unat (fm_size (it_name_index t1)) < 2 ^ 52" using idx small by linarith
      with ci_map.store_law [of "it_name_index t1" "hdr_name h" 0 "it_add_times t1"] idx name(2)
      obtain m2 where m2: "fm_put case_ignored_hash case_ignored_equal 0 (hdr_name h) (it_add_times t1)
            (it_name_index t1) = Inr m2" "fm_inv no_nul case_ignored_hash case_ignored_equal m2"
          "unat (fm_size m2) \<le> unat (fm_size (it_name_index t1)) + 1"
          "\<forall>n. no_nul n \<longrightarrow> fm_lookup case_ignored_hash case_ignored_equal m2 n =
             (if case_ignored_equal (hdr_name h) n then Some (it_add_times t1)
              else fm_lookup case_ignored_hash case_ignored_equal (it_name_index t1) n)"
        by blast
      let ?t' = "?t\<lparr>it_header_index := m1, it_name_index := m2\<rparr>"
      have run': "add_header h t = Inr ?t'"
        unfolding run m1(1) using True m2(1) by simp
      have list'': "it_list ?t' = ?xs @ [h]" using q(4) by (simp add: it_list_def)
      have ids: "id_at ?t' = id_at t1"
        using id_at_append(1) [OF list'' _ I(4)] times' by simp
      have "indexes_ok ?t'"
        unfolding indexes_ok_def list'' ids
        using idx m1(2-4) m2(2-4) times' name(2) app
        by (auto simp: header_pos_def name_pos_def header_equal_iff case_ignored_equal_iff)
      then have "it_inv ?t'"
        using I(2,3,4) q(2) list'' times times' h t1(4) by (auto simp: it_inv_def)
      then show ?thesis using run' list list'' t1(3,4) q(3) times'
        by (intro exI [of _ ?t']) (simp add: it_frame_def)
    qed
  qed
qed

lemma reset_max_size_law:
  assumes inv: "it_inv t"
  shows "\<exists>t'. reset_max_size n t = Inr t' \<and> it_inv t' \<and> it_frame (t\<lparr>it_max_size := n\<rparr>) t' \<and>
    it_add_times t' = it_add_times t \<and>
    it_list t' = (if n < it_max_size t then evicted n (it_list t) else it_list t)"
proof -
  let ?t = "t\<lparr>it_max_size := n\<rparr>"
  have list: "it_list ?t = it_list t" by (simp add: it_list_def)
  then have "id_at ?t = id_at t" by (simp add: id_at_def fun_eq_iff)
  with inv list have inv': "it_inv ?t" by (simp add: it_inv_def indexes_ok_def)
  have same: "t\<lparr>it_max_size := it_max_size t\<rparr> = t" by (cases t) simp
  show ?thesis
    using shrink_to_fit_law [OF inv' list] inv inv' list same
    by (cases n "it_max_size t" rule: linorder_cases) (auto simp: reset_max_size_def)
qed

subsection \<open>Looking up\<close>

lemma word_of_int_index:
  assumes "0 \<le> s" "0 \<le> k" "s + k < 2 ^ 31"
  shows "sint (ucast (word_of_int s + word_of_int k :: 64 word) :: 32 word) = s + k"
proof -
  have "take_bit 64 (s + k) = s + k" using assms by (intro take_bit_int_eq_self) simp_all
  then have "uint (word_of_int (s + k) :: 64 word) = s + k" by (simp only: uint_word_of_int_eq) simp
  then have "uint (ucast (word_of_int s + word_of_int k :: 64 word) :: 32 word) = s + k"
    using assms by (simp add: uint_ucast_mod)
  with assms show ?thesis by (simp add: sint_small)
qed

lemma index_of_id_at:
  assumes inv: "it_inv t" and i: "i < length (it_list t)"
    and start: "0 \<le> it_start_index t" "it_start_index t + int (length (it_list t)) < 2 ^ 31"
  shows "index_of_id t (id_at t i) = it_start_index t + int (length (it_list t) - i - 1)"
proof -
  note I = it_invD [OF inv]
  have "it_add_times t = word_of_nat (unat (it_add_times t) - length (it_list t) + i + (length (it_list t) - i))"
    using I(4) i by simp
  then have "it_add_times t - id_at t i = word_of_nat (length (it_list t) - i)"
    unfolding id_at_def by (metis add_diff_cancel_left' of_nat_add)
  then have "word_of_int (it_start_index t) + (it_add_times t - id_at t i) - 1 =
      word_of_int (it_start_index t) + (word_of_int (int (length (it_list t) - i - 1)) :: 64 word)"
    using i by simp
  then show ?thesis
    unfolding index_of_id_def using start i by (simp only:) (intro word_of_int_index; simp)
qed

lemma header_at_law:
  assumes inv: "it_inv t" and j: "j < 2 ^ 64"
  shows "header_at (it_start_index t + int j) t =
    Inr (if j < length (it_list t) then Some (it_list t ! (length (it_list t) - j - 1)) else None)"
  using bq_bottom_at_spec [OF it_invD(1) [OF inv], of "word_of_nat j"] unat_of_nat_small [OF j]
  by (simp add: header_at_def it_list_def)

lemma get_index_of_name_law:
  assumes inv: "it_inv t" "it_need_indexes t" and n: "no_nul n"
    and start: "0 \<le> it_start_index t" "it_start_index t + int (length (it_list t)) < 2 ^ 31"
  shows "get_index_of_name n t = Inr (case name_pos n (it_list t) of None \<Rightarrow> 0
    | Some i \<Rightarrow> it_start_index t + int (length (it_list t) - i - 1))"
proof -
  note seek = indexes_okD(2) [OF it_invD(6) [OF inv] n]
  show ?thesis
  proof (cases "name_pos n (it_list t)")
    case (Some i)
    then have "i < length (it_list t)" by (auto simp: name_pos_def dest: latest_SomeD)
    with Some seek index_of_id_at [OF inv(1) _ start] show ?thesis by (simp add: get_index_of_name_def)
  qed (simp add: get_index_of_name_def seek)
qed

lemma get_index_of_header_law:
  assumes inv: "it_inv t" "it_need_indexes t" and h: "key_ok h"
    and start: "0 \<le> it_start_index t" "it_start_index t + int (length (it_list t)) < 2 ^ 31"
  shows "get_index_of_header h t = Inr (case header_pos h (it_list t) of None \<Rightarrow> 0
    | Some i \<Rightarrow> it_start_index t + int (length (it_list t) - i - 1))"
proof -
  note seek = indexes_okD(1) [OF it_invD(6) [OF inv] h]
  show ?thesis
  proof (cases "header_pos h (it_list t)")
    case (Some i)
    then have "i < length (it_list t)" by (auto simp: header_pos_def dest: latest_SomeD split: if_splits)
    with Some seek index_of_id_at [OF inv(1) _ start] show ?thesis by (simp add: get_index_of_header_def)
  qed (simp add: get_index_of_header_def seek)
qed

lemma end_index_law:
  assumes "it_inv t" "0 \<le> it_start_index t" "it_start_index t + int (length (it_list t)) < 2 ^ 31"
  shows "end_index t = it_start_index t + int (length (it_list t))"
proof -
  have "bq_size (it_header_queue t) = word_of_int (int (length (it_list t)))"
    using bq_size_list [OF it_invD(1) [OF assms(1)]] by (simp add: it_list_def) (metis of_nat_unat ucast_id)
  with assms(2,3) show ?thesis by (simp only: end_index_def) (intro word_of_int_index; simp)
qed

subsection \<open>Initialising\<close>

lemma it_init_eq:
  assumes num: "num = num_headers opts" and "1 \<le> num" "num < 2 ^ 30"
  shows "\<exists>t. it_init opts it_new = mapE (\<lambda>t. (True, t)) (foldE (\<lambda>t h. add_header h t) t (rev (opt_static_table opts))) \<and>
    it_inv t \<and> it_list t = [] \<and> it_start_index t = sint (ucast (opt_start_index opts) :: 32 word) \<and>
    it_need_indexes t = opt_need_indexes opts \<and> unat (it_add_times t) = 0 \<and>
    it_max_size t = (if opt_static_table opts \<noteq> [] then 4294967295 else opt_max_size opts) \<and>
    unat (bq_cap (it_header_queue t)) = num"
proof -
  define nb :: "64 word" where "nb = word_of_nat num * 2"
  have nb: "unat nb = num * 2"
    unfolding nb_def using assms(3) by (simp add: unat_word_ariths unat_of_nat_small)
  obtain m1 :: "(bytes, 64 word) flat_map" where m1: "fm_init nb 80 fm_new = (True, m1)"
      "fm_inv no_nul case_ignored_hash case_ignored_equal m1" "fm_size m1 = 0"
      "\<forall>k. fm_lookup case_ignored_hash case_ignored_equal m1 k = None"
    using ci_map.init_law [of nb 80 "fm_new :: (bytes, 64 word) flat_map"] nb assms(2,3)
    by (auto simp: fm_initialized_def fm_new_def)
  obtain m2 :: "(header, 64 word) flat_map" where m2: "fm_init nb 80 fm_new = (True, m2)"
      "fm_inv key_ok header_hash header_equal m2" "fm_size m2 = 0"
      "\<forall>k. fm_lookup header_hash header_equal m2 k = None"
    using hdr_map.init_law [of nb 80 "fm_new :: (header, 64 word) flat_map"] nb assms(2,3)
    by (auto simp: fm_initialized_def fm_new_def)
  define q :: "header bounded_queue" where "q = bq_create (Some (replicate num None)) (word_of_nat num * sizeof_header) sizeof_header OWNS_STORAGE"
  have "unat (word_of_nat num * sizeof_header) = num * 64"
    using assms(3) by (simp add: sizeof_header_def unat_word_ariths unat_of_nat_small)
  then have "unat (word_of_nat num * sizeof_header div sizeof_header) = num"
    by (simp add: unat_div_distrib sizeof_header_def)
  then have q: "bq_inv q" "bq_list q = []" "unat (bq_cap q) = num"
    using bq_create_spec [of "replicate num None" "word_of_nat num * sizeof_header" sizeof_header OWNS_STORAGE] assms(3)
    by (simp_all add: q_def)
  let ?t0 = "it_new\<lparr>it_max_size := if opt_static_table opts \<noteq> [] then 4294967295 else opt_max_size opts,
    it_header_queue := q, it_start_index := sint (ucast (opt_start_index opts) :: 32 word),
    it_need_indexes := opt_need_indexes opts\<rparr>"
  let ?t = "if opt_need_indexes opts then ?t0\<lparr>it_name_index := m1, it_header_index := m2\<rparr> else ?t0"
  have "bq_count q = 0" by (simp add: q_def bq_create_def)
  then have "it_inv ?t"
    using q m1(2-4) m2(2-4)
    by (auto simp: it_inv_def indexes_ok_def it_list_def it_new_def header_pos_def name_pos_def)
  moreover have "it_init opts it_new =
      mapE (\<lambda>t. (True, t)) (foldE (\<lambda>t h. add_header h t) ?t (rev (opt_static_table opts)))"
    using m1(1) m2(1) unfolding it_init_def num [symmetric]
    by (simp add: it_new_def q_def [symmetric] nb_def [symmetric] Let_def)
  moreover have "it_list ?t = []" using q(2) by (simp add: it_list_def)
  ultimately show ?thesis using q(3) by (intro exI [of _ ?t]) (simp add: it_new_def)
qed

lemma it_init_dynamic:
  assumes "opt_static_table opts = []" "34 \<le> opt_max_size opts" "opt_max_size opts < 2 ^ 30"
  shows "\<exists>t. it_init opts it_new = Inr (True, t) \<and> it_inv t \<and> it_list t = [] \<and>
    it_start_index t = sint (ucast (opt_start_index opts) :: 32 word) \<and>
    it_need_indexes t = opt_need_indexes opts \<and> unat (it_add_times t) = 0 \<and>
    it_max_size t = opt_max_size opts \<and> unat (bq_cap (it_header_queue t)) = opt_max_size opts div 34"
proof -
  have "1 \<le> opt_max_size opts div 34" "opt_max_size opts div 34 < 2 ^ 30" using assms(2,3) by auto
  with it_init_eq [of "opt_max_size opts div 34" opts] assms(1) show ?thesis
    by (auto simp: num_headers_def)
qed

text \<open>The static table takes all of its entries, in the order that gives entry \<open>i\<close> the index \<open>i + 1\<close>.\<close>

lemma add_all:
  assumes "it_inv t" "\<forall>h \<in> set hs. hdr_ok h" "unat (it_add_times t) + length hs < 2 ^ 31"
    "length (it_list t) + length hs \<le> unat (bq_cap (it_header_queue t))"
    "table_size (it_list t) + table_size hs \<le> it_max_size t"
  shows "\<exists>t'. foldE (\<lambda>t h. add_header h t) t hs = Inr t' \<and> it_inv t' \<and> it_frame t t' \<and>
    unat (it_add_times t') \<le> unat (it_add_times t) + length hs \<and> it_list t' = it_list t @ hs"
  using assms
proof (induction hs arbitrary: t)
  case Nil
  then show ?case by simp
next
  case (Cons h hs)
  have fit: "table_add (it_max_size t) h (it_list t) = it_list t @ [h]"
    using Cons.prems(5) by (simp add: table_add_def evicted_id)
  have "\<exists>t1. add_header h t = Inr t1 \<and> it_inv t1 \<and> it_frame t t1 \<and>
      unat (it_add_times t1) \<le> unat (it_add_times t) + 1 \<and> it_list t1 = table_add (it_max_size t) h (it_list t)"
    using Cons.prems fit by (intro add_header_law) auto
  then obtain t1 where t1: "add_header h t = Inr t1" "it_inv t1" "it_frame t t1"
      "unat (it_add_times t1) \<le> unat (it_add_times t) + 1" "it_list t1 = it_list t @ [h]"
    using fit by auto
  have "\<exists>t'. foldE (\<lambda>t h. add_header h t) t1 hs = Inr t' \<and> it_inv t' \<and> it_frame t1 t' \<and>
      unat (it_add_times t') \<le> unat (it_add_times t1) + length hs \<and> it_list t' = it_list t1 @ hs"
    using Cons.prems t1 by (intro Cons.IH) (auto simp: it_frame_def)
  then show ?case using t1 it_frame_trans [OF t1(3)] by fastforce
qed

lemma it_init_static:
  assumes "opt_static_table opts \<noteq> []" "\<forall>h \<in> set (opt_static_table opts). hdr_ok h"
    "length (opt_static_table opts) < 2 ^ 30" "table_size (opt_static_table opts) \<le> 4294967295"
  shows "\<exists>t. it_init opts it_new = Inr (True, t) \<and> it_inv t \<and> it_list t = rev (opt_static_table opts) \<and>
    it_start_index t = sint (ucast (opt_start_index opts) :: 32 word) \<and>
    it_need_indexes t = opt_need_indexes opts"
proof -
  obtain t0 where t0: "it_init opts it_new = mapE (\<lambda>t. (True, t)) (foldE (\<lambda>t h. add_header h t) t0 (rev (opt_static_table opts)))"
      "it_inv t0" "it_list t0 = []" "it_start_index t0 = sint (ucast (opt_start_index opts) :: 32 word)"
      "it_need_indexes t0 = opt_need_indexes opts" "unat (it_add_times t0) = 0" "it_max_size t0 = 4294967295"
      "unat (bq_cap (it_header_queue t0)) = length (opt_static_table opts)"
    using it_init_eq [of "length (opt_static_table opts)" opts] assms
    by (auto simp: num_headers_def Suc_le_eq)
  have "table_size (rev (opt_static_table opts)) = table_size (opt_static_table opts)"
    by (simp add: table_size_def rev_map [symmetric])
  then have "\<exists>t. foldE (\<lambda>t h. add_header h t) t0 (rev (opt_static_table opts)) = Inr t \<and> it_inv t \<and> it_frame t0 t \<and>
      unat (it_add_times t) \<le> unat (it_add_times t0) + length (rev (opt_static_table opts)) \<and>
      it_list t = it_list t0 @ rev (opt_static_table opts)"
    using t0 assms by (intro add_all) auto
  then show ?thesis using t0 by (auto simp: it_frame_def)
qed

subsection \<open>Properties\<close>

lemma table_size_values:
  assumes "\<forall>x \<in> set xs. hdr_name x \<noteq> [] \<and> hdr_value x \<noteq> []"
  shows "34 * length xs \<le> table_size xs"
  using assms
proof (induction xs)
  case (Cons x xs)
  then have "1 \<le> length (hdr_name x)" "1 \<le> length (hdr_value x)" by (auto simp: Suc_le_eq)
  with Cons show ?case by (simp add: header_size_def)
qed simp

lemma set_table_add: "set (table_add n h xs) \<subseteq> insert h (set xs)"
  using set_evicted [of "n - header_size h" xs] by (auto simp: table_add_def)

lemma table_size_add: "table_size (table_add n h xs) \<le> n"
  using table_size_evicted [of "n - header_size h" xs] by (auto simp: table_add_def)

text \<open>Entries with a value never fill the queue, whatever is added.\<close>

lemma table_add_fits:
  assumes "hdr_ok h" "hdr_value h \<noteq> []" "\<forall>x \<in> set xs. hdr_ok x \<and> hdr_value x \<noteq> []" "n div 34 \<le> c"
  shows "length (table_add n h xs) \<le> c"
proof -
  have "\<forall>x \<in> set (table_add n h xs). hdr_name x \<noteq> [] \<and> hdr_value x \<noteq> []"
    using set_table_add [of n h xs] assms(1-3) by (auto simp: hdr_ok_def)
  then have "34 * length (table_add n h xs) \<le> n"
    using table_size_values table_size_add by (meson order_trans)
  then have "length (table_add n h xs) \<le> n div 34" by simp
  with assms(4) show ?thesis by simp
qed

lemma add_headers_law:
  assumes "it_inv t" "\<forall>h \<in> set (it_list t) \<union> set hs. hdr_ok h \<and> hdr_value h \<noteq> []"
    "unat (it_add_times t) + length hs < 2 ^ 31" "it_max_size t div 34 \<le> unat (bq_cap (it_header_queue t))"
    "table_size (it_list t) \<le> it_max_size t"
  shows "\<exists>t'. foldE (\<lambda>t h. add_header h t) t hs = Inr t' \<and> it_inv t' \<and> it_frame t t' \<and>
    it_list t' = foldl (\<lambda>xs h. table_add (it_max_size t) h xs) (it_list t) hs \<and>
    table_size (it_list t') \<le> it_max_size t"
  using assms
proof (induction hs arbitrary: t)
  case Nil
  then show ?case by simp
next
  case (Cons h hs)
  have "\<exists>t1. add_header h t = Inr t1 \<and> it_inv t1 \<and> it_frame t t1 \<and>
      unat (it_add_times t1) \<le> unat (it_add_times t) + 1 \<and> it_list t1 = table_add (it_max_size t) h (it_list t)"
    using Cons.prems by (intro add_header_law table_add_fits) auto
  then obtain t1 where t1: "add_header h t = Inr t1" "it_inv t1" "it_frame t t1"
      "unat (it_add_times t1) \<le> unat (it_add_times t) + 1" "it_list t1 = table_add (it_max_size t) h (it_list t)"
    by blast
  have "\<forall>h \<in> set (it_list t1) \<union> set hs. hdr_ok h \<and> hdr_value h \<noteq> []"
    using set_table_add [of "it_max_size t" h "it_list t"] Cons.prems(2) t1(5) by auto
  then have "\<exists>t'. foldE (\<lambda>t h. add_header h t) t1 hs = Inr t' \<and> it_inv t' \<and> it_frame t1 t' \<and>
      it_list t' = foldl (\<lambda>xs h. table_add (it_max_size t1) h xs) (it_list t1) hs \<and>
      table_size (it_list t') \<le> it_max_size t1"
    using Cons.prems t1 table_size_add by (intro Cons.IH) (auto simp: it_frame_def)
  then show ?case using t1 it_frame_trans [OF t1(3)] by (auto simp: it_frame_def)
qed


definition sample_options :: index_table_options where
  "sample_options = \<lparr>opt_max_size = 100, opt_start_index = 62, opt_static_table = [], opt_need_indexes = True\<rparr>"

definition sample_header :: "string \<Rightarrow> string \<Rightarrow> header" where
  "sample_header n v = \<lparr>hdr_name = bytes_of n, hdr_value = bytes_of v\<rparr>"



definition sample_static :: index_table_options where
  "sample_static = \<lparr>opt_max_size = 0, opt_start_index = 1,
     opt_static_table = [sample_header ''a'' ''1'', sample_header ''b'' ''2''], opt_need_indexes = True\<rparr>"


subsection \<open>Headers without a value\<close>

text \<open>
  The queue has room for \<^verbatim>\<open>max_size / (32 + 2)\<close> entries, but an entry with an empty value can be as
  small as 33 bytes.
\<close>

lemma add_header_full:
  assumes inv: "it_inv t" and h: "hdr_ok h" "header_size h \<le> it_max_size t"
    and full: "length (evicted (it_max_size t - header_size h) (it_list t)) = unat (bq_cap (it_header_queue t))"
  shows "add_header h t = Inl CheckFailed"
proof -
  obtain t1 where t1: "evict_for (header_size h) t = Inr t1" "it_inv t1" "it_frame t t1"
      "it_list t1 = evicted (it_max_size t - header_size h) (it_list t)"
    using evict_for_law [OF inv refl, of "header_size h"] h(2) by auto
  have "unat (bq_count (it_header_queue t1)) = length (it_list t1)" by (simp add: it_list_def bq_list_def)
  then have "bq_full (it_header_queue t1)"
    using full t1(3,4) by (simp add: bq_full_def it_frame_def word_unat_eq_iff)
  with t1(1,3) h show ?thesis by (simp add: add_header_def Let_def hdr_ok_def it_frame_def)
qed

text \<open>
  (C24) With the default table size of 4096 bytes, 121 headers with a name of one byte and an empty
  value fail \<^verbatim>\<open>FLARE_CHECK(!_header_queue.full())\<close>: the process aborts.  The decoder's table is filled
  by the peer.
\<close>

theorem empty_values_abort:
  assumes "opt_static_table opts = []" "opt_max_size opts = 4096" "c \<noteq> 0"
  shows "\<exists>t0. it_init opts it_new = Inr (True, t0) \<and>
    foldE (\<lambda>t h. add_header h t) t0 (replicate 121 \<lparr>hdr_name = [c], hdr_value = []\<rparr>) = Inl CheckFailed"
proof -
  let ?h = "\<lparr>hdr_name = [c], hdr_value = []\<rparr>"
  have h: "hdr_ok ?h" "header_size ?h = 33" using assms(3) by (simp_all add: hdr_ok_def no_nul_def header_size_def)
  have size: "table_size (replicate n ?h) = 33 * n" for n
    by (induction n) (simp_all add: header_size_def)
  obtain t0 where t0: "it_init opts it_new = Inr (True, t0)" "it_inv t0" "it_list t0 = []"
      "unat (it_add_times t0) = 0" "it_max_size t0 = 4096" "unat (bq_cap (it_header_queue t0)) = 120"
    using it_init_dynamic [OF assms(1)] assms(2) by auto
  have "\<exists>t. foldE (\<lambda>t h. add_header h t) t0 (replicate 120 ?h) = Inr t \<and> it_inv t \<and> it_frame t0 t \<and>
      unat (it_add_times t) \<le> unat (it_add_times t0) + length (replicate 120 ?h) \<and>
      it_list t = it_list t0 @ replicate 120 ?h"
    using t0 h size by (intro add_all) (auto simp: in_set_replicate)
  then obtain t where t: "foldE (\<lambda>t h. add_header h t) t0 (replicate 120 ?h) = Inr t" "it_inv t" "it_frame t0 t"
      "it_list t = replicate 120 ?h" using t0(3) by auto
  have "evicted (it_max_size t - header_size ?h) (it_list t) = it_list t"
    using t(3,4) t0(5) h(2) size by (intro evicted_id) (simp add: it_frame_def)
  then have "add_header ?h t = Inl CheckFailed"
    using t t0(5,6) h by (intro add_header_full) (auto simp: it_frame_def)
  moreover have "replicate 121 ?h = replicate 120 ?h @ [?h]"
    by (metis Suc_numeral replicate_append_same replicate_Suc semiring_norm(5))
  ultimately have "foldE (\<lambda>t h. add_header h t) t0 (replicate 121 ?h) = Inl CheckFailed"
    using t(1) by (simp only: foldE_append bindE.simps foldE.simps)
  with t0(1) show ?thesis by blast
qed

theorem empty_values_abort_witness:
  "\<exists>t0. it_init \<lparr>opt_max_size = 4096, opt_start_index = 62, opt_static_table = [], opt_need_indexes = False\<rparr> it_new =
      Inr (True, t0) \<and>
    foldE (\<lambda>t h. add_header h t) t0 (replicate 121 \<lparr>hdr_name = [97], hdr_value = []\<rparr>) = Inl CheckFailed"
  by (rule empty_values_abort) simp_all

end
