(* ===== verification/Hpack_Tables.thy ===== *)
theory Hpack_Tables
  imports Prelude
begin

text \<open>
  The constant tables of HPACK (src/flare/rpc/details/hpack-static-table.h): the 61 entries of the
  static table, RFC 7541 appendix A, and the Huffman code of the 256 bytes and of the end of string,
  appendix B.
\<close>

datatype huffman_code = HuffmanCode (hc_code: "32 word") (hc_bit_len: nat)

definition s_static_headers :: "(string \<times> string) list" where
  "s_static_headers =
     [('':authority'', ''''),
      ('':method'', ''GET''),
      ('':method'', ''POST''),
      ('':path'', ''/''),
      ('':path'', ''/index.html''),
      ('':scheme'', ''http''),
      ('':scheme'', ''https''),
      ('':status'', ''200''),
      ('':status'', ''204''),
      ('':status'', ''206''),
      ('':status'', ''304''),
      ('':status'', ''400''),
      ('':status'', ''404''),
      ('':status'', ''500''),
      (''accept-charset'', ''''),
      (''accept-encoding'', ''gzip, deflate''),
      (''accept-language'', ''''),
      (''accept-ranges'', ''''),
      (''accept'', ''''),
      (''access-control-allow-origin'', ''''),
      (''age'', ''''),
      (''allow'', ''''),
      (''authorization'', ''''),
      (''cache-control'', ''''),
      (''content-disposition'', ''''),
      (''content-encoding'', ''''),
      (''content-language'', ''''),
      (''content-length'', ''''),
      (''content-location'', ''''),
      (''content-range'', ''''),
      (''content-type'', ''''),
      (''cookie'', ''''),
      (''date'', ''''),
      (''etag'', ''''),
      (''expect'', ''''),
      (''expires'', ''''),
      (''from'', ''''),
      (''host'', ''''),
      (''if-match'', ''''),
      (''if-modified-since'', ''''),
      (''if-none-match'', ''''),
      (''if-range'', ''''),
      (''if-unmodified-since'', ''''),
      (''last-modified'', ''''),
      (''link'', ''''),
      (''location'', ''''),
      (''max-forwards'', ''''),
      (''proxy-authenticate'', ''''),
      (''proxy-authorization'', ''''),
      (''range'', ''''),
      (''referer'', ''''),
      (''refresh'', ''''),
      (''retry-after'', ''''),
      (''server'', ''''),
      (''set-cookie'', ''''),
      (''strict-transport-security'', ''''),
      (''transfer-encoding'', ''''),
      (''user-agent'', ''''),
      (''vary'', ''''),
      (''via'', ''''),
      (''www-authenticate'', '''')]"

definition s_huffman_table :: "huffman_code list" where
  "s_huffman_table =
     [HuffmanCode 0x1ff8 13, HuffmanCode 0x7fffd8 23, HuffmanCode 0xfffffe2 28, HuffmanCode 0xfffffe3 28,
      HuffmanCode 0xfffffe4 28, HuffmanCode 0xfffffe5 28, HuffmanCode 0xfffffe6 28, HuffmanCode 0xfffffe7 28,
      HuffmanCode 0xfffffe8 28, HuffmanCode 0xffffea 24, HuffmanCode 0x3ffffffc 30, HuffmanCode 0xfffffe9 28,
      HuffmanCode 0xfffffea 28, HuffmanCode 0x3ffffffd 30, HuffmanCode 0xfffffeb 28, HuffmanCode 0xfffffec 28,
      HuffmanCode 0xfffffed 28, HuffmanCode 0xfffffee 28, HuffmanCode 0xfffffef 28, HuffmanCode 0xffffff0 28,
      HuffmanCode 0xffffff1 28, HuffmanCode 0xffffff2 28, HuffmanCode 0x3ffffffe 30, HuffmanCode 0xffffff3 28,
      HuffmanCode 0xffffff4 28, HuffmanCode 0xffffff5 28, HuffmanCode 0xffffff6 28, HuffmanCode 0xffffff7 28,
      HuffmanCode 0xffffff8 28, HuffmanCode 0xffffff9 28, HuffmanCode 0xffffffa 28, HuffmanCode 0xffffffb 28,
      HuffmanCode 0x14 6, HuffmanCode 0x3f8 10, HuffmanCode 0x3f9 10, HuffmanCode 0xffa 12,
      HuffmanCode 0x1ff9 13, HuffmanCode 0x15 6, HuffmanCode 0xf8 8, HuffmanCode 0x7fa 11,
      HuffmanCode 0x3fa 10, HuffmanCode 0x3fb 10, HuffmanCode 0xf9 8, HuffmanCode 0x7fb 11,
      HuffmanCode 0xfa 8, HuffmanCode 0x16 6, HuffmanCode 0x17 6, HuffmanCode 0x18 6,
      HuffmanCode 0x0 5, HuffmanCode 0x1 5, HuffmanCode 0x2 5, HuffmanCode 0x19 6,
      HuffmanCode 0x1a 6, HuffmanCode 0x1b 6, HuffmanCode 0x1c 6, HuffmanCode 0x1d 6,
      HuffmanCode 0x1e 6, HuffmanCode 0x1f 6, HuffmanCode 0x5c 7, HuffmanCode 0xfb 8,
      HuffmanCode 0x7ffc 15, HuffmanCode 0x20 6, HuffmanCode 0xffb 12, HuffmanCode 0x3fc 10,
      HuffmanCode 0x1ffa 13, HuffmanCode 0x21 6, HuffmanCode 0x5d 7, HuffmanCode 0x5e 7,
      HuffmanCode 0x5f 7, HuffmanCode 0x60 7, HuffmanCode 0x61 7, HuffmanCode 0x62 7,
      HuffmanCode 0x63 7, HuffmanCode 0x64 7, HuffmanCode 0x65 7, HuffmanCode 0x66 7,
      HuffmanCode 0x67 7, HuffmanCode 0x68 7, HuffmanCode 0x69 7, HuffmanCode 0x6a 7,
      HuffmanCode 0x6b 7, HuffmanCode 0x6c 7, HuffmanCode 0x6d 7, HuffmanCode 0x6e 7,
      HuffmanCode 0x6f 7, HuffmanCode 0x70 7, HuffmanCode 0x71 7, HuffmanCode 0x72 7,
      HuffmanCode 0xfc 8, HuffmanCode 0x73 7, HuffmanCode 0xfd 8, HuffmanCode 0x1ffb 13,
      HuffmanCode 0x7fff0 19, HuffmanCode 0x1ffc 13, HuffmanCode 0x3ffc 14, HuffmanCode 0x22 6,
      HuffmanCode 0x7ffd 15, HuffmanCode 0x3 5, HuffmanCode 0x23 6, HuffmanCode 0x4 5,
      HuffmanCode 0x24 6, HuffmanCode 0x5 5, HuffmanCode 0x25 6, HuffmanCode 0x26 6,
      HuffmanCode 0x27 6, HuffmanCode 0x6 5, HuffmanCode 0x74 7, HuffmanCode 0x75 7,
      HuffmanCode 0x28 6, HuffmanCode 0x29 6, HuffmanCode 0x2a 6, HuffmanCode 0x7 5,
      HuffmanCode 0x2b 6, HuffmanCode 0x76 7, HuffmanCode 0x2c 6, HuffmanCode 0x8 5,
      HuffmanCode 0x9 5, HuffmanCode 0x2d 6, HuffmanCode 0x77 7, HuffmanCode 0x78 7,
      HuffmanCode 0x79 7, HuffmanCode 0x7a 7, HuffmanCode 0x7b 7, HuffmanCode 0x7ffe 15,
      HuffmanCode 0x7fc 11, HuffmanCode 0x3ffd 14, HuffmanCode 0x1ffd 13, HuffmanCode 0xffffffc 28,
      HuffmanCode 0xfffe6 20, HuffmanCode 0x3fffd2 22, HuffmanCode 0xfffe7 20, HuffmanCode 0xfffe8 20,
      HuffmanCode 0x3fffd3 22, HuffmanCode 0x3fffd4 22, HuffmanCode 0x3fffd5 22, HuffmanCode 0x7fffd9 23,
      HuffmanCode 0x3fffd6 22, HuffmanCode 0x7fffda 23, HuffmanCode 0x7fffdb 23, HuffmanCode 0x7fffdc 23,
      HuffmanCode 0x7fffdd 23, HuffmanCode 0x7fffde 23, HuffmanCode 0xffffeb 24, HuffmanCode 0x7fffdf 23,
      HuffmanCode 0xffffec 24, HuffmanCode 0xffffed 24, HuffmanCode 0x3fffd7 22, HuffmanCode 0x7fffe0 23,
      HuffmanCode 0xffffee 24, HuffmanCode 0x7fffe1 23, HuffmanCode 0x7fffe2 23, HuffmanCode 0x7fffe3 23,
      HuffmanCode 0x7fffe4 23, HuffmanCode 0x1fffdc 21, HuffmanCode 0x3fffd8 22, HuffmanCode 0x7fffe5 23,
      HuffmanCode 0x3fffd9 22, HuffmanCode 0x7fffe6 23, HuffmanCode 0x7fffe7 23, HuffmanCode 0xffffef 24,
      HuffmanCode 0x3fffda 22, HuffmanCode 0x1fffdd 21, HuffmanCode 0xfffe9 20, HuffmanCode 0x3fffdb 22,
      HuffmanCode 0x3fffdc 22, HuffmanCode 0x7fffe8 23, HuffmanCode 0x7fffe9 23, HuffmanCode 0x1fffde 21,
      HuffmanCode 0x7fffea 23, HuffmanCode 0x3fffdd 22, HuffmanCode 0x3fffde 22, HuffmanCode 0xfffff0 24,
      HuffmanCode 0x1fffdf 21, HuffmanCode 0x3fffdf 22, HuffmanCode 0x7fffeb 23, HuffmanCode 0x7fffec 23,
      HuffmanCode 0x1fffe0 21, HuffmanCode 0x1fffe1 21, HuffmanCode 0x3fffe0 22, HuffmanCode 0x1fffe2 21,
      HuffmanCode 0x7fffed 23, HuffmanCode 0x3fffe1 22, HuffmanCode 0x7fffee 23, HuffmanCode 0x7fffef 23,
      HuffmanCode 0xfffea 20, HuffmanCode 0x3fffe2 22, HuffmanCode 0x3fffe3 22, HuffmanCode 0x3fffe4 22,
      HuffmanCode 0x7ffff0 23, HuffmanCode 0x3fffe5 22, HuffmanCode 0x3fffe6 22, HuffmanCode 0x7ffff1 23,
      HuffmanCode 0x3ffffe0 26, HuffmanCode 0x3ffffe1 26, HuffmanCode 0xfffeb 20, HuffmanCode 0x7fff1 19,
      HuffmanCode 0x3fffe7 22, HuffmanCode 0x7ffff2 23, HuffmanCode 0x3fffe8 22, HuffmanCode 0x1ffffec 25,
      HuffmanCode 0x3ffffe2 26, HuffmanCode 0x3ffffe3 26, HuffmanCode 0x3ffffe4 26, HuffmanCode 0x7ffffde 27,
      HuffmanCode 0x7ffffdf 27, HuffmanCode 0x3ffffe5 26, HuffmanCode 0xfffff1 24, HuffmanCode 0x1ffffed 25,
      HuffmanCode 0x7fff2 19, HuffmanCode 0x1fffe3 21, HuffmanCode 0x3ffffe6 26, HuffmanCode 0x7ffffe0 27,
      HuffmanCode 0x7ffffe1 27, HuffmanCode 0x3ffffe7 26, HuffmanCode 0x7ffffe2 27, HuffmanCode 0xfffff2 24,
      HuffmanCode 0x1fffe4 21, HuffmanCode 0x1fffe5 21, HuffmanCode 0x3ffffe8 26, HuffmanCode 0x3ffffe9 26,
      HuffmanCode 0xffffffd 28, HuffmanCode 0x7ffffe3 27, HuffmanCode 0x7ffffe4 27, HuffmanCode 0x7ffffe5 27,
      HuffmanCode 0xfffec 20, HuffmanCode 0xfffff3 24, HuffmanCode 0xfffed 20, HuffmanCode 0x1fffe6 21,
      HuffmanCode 0x3fffe9 22, HuffmanCode 0x1fffe7 21, HuffmanCode 0x1fffe8 21, HuffmanCode 0x7ffff3 23,
      HuffmanCode 0x3fffea 22, HuffmanCode 0x3fffeb 22, HuffmanCode 0x1ffffee 25, HuffmanCode 0x1ffffef 25,
      HuffmanCode 0xfffff4 24, HuffmanCode 0xfffff5 24, HuffmanCode 0x3ffffea 26, HuffmanCode 0x7ffff4 23,
      HuffmanCode 0x3ffffeb 26, HuffmanCode 0x7ffffe6 27, HuffmanCode 0x3ffffec 26, HuffmanCode 0x3ffffed 26,
      HuffmanCode 0x7ffffe7 27, HuffmanCode 0x7ffffe8 27, HuffmanCode 0x7ffffe9 27, HuffmanCode 0x7ffffea 27,
      HuffmanCode 0x7ffffeb 27, HuffmanCode 0xffffffe 28, HuffmanCode 0x7ffffec 27, HuffmanCode 0x7ffffed 27,
      HuffmanCode 0x7ffffee 27, HuffmanCode 0x7ffffef 27, HuffmanCode 0x7fffff0 27, HuffmanCode 0x3ffffee 26,
      HuffmanCode 0x3fffffff 30]"

definition HPACK_HUFFMAN_EOS :: nat where
  "HPACK_HUFFMAN_EOS = 256"

subsection \<open>The Huffman code is prefix free\<close>

text \<open>
  Left-aligned to 30 bits, a code word of length \<open>l\<close> stands for an interval of \<open>2 ^ (30 - l)\<close>
  numbers; a code word is a prefix of another if the intervals overlap.  \<open>huffman_order\<close> lists the
  symbols by increasing code, \<open>huffman_rank\<close> the position of each symbol in it.
\<close>

definition code_low :: "huffman_code \<Rightarrow> nat" where
  "code_low c = unat (hc_code c) * 2 ^ (30 - hc_bit_len c)"

definition code_high :: "huffman_code \<Rightarrow> nat" where
  "code_high c = (unat (hc_code c) + 1) * 2 ^ (30 - hc_bit_len c)"

definition huffman_order :: "nat list" where
  "huffman_order =
     [48, 49, 50, 97, 99, 101, 105, 111, 115, 116, 32, 37, 45, 46, 47, 51, 52, 53, 54, 55,
      56, 57, 61, 65, 95, 98, 100, 102, 103, 104, 108, 109, 110, 112, 114, 117, 58, 66, 67, 68,
      69, 70, 71, 72, 73, 74, 75, 76, 77, 78, 79, 80, 81, 82, 83, 84, 85, 86, 87, 89,
      106, 107, 113, 118, 119, 120, 121, 122, 38, 42, 44, 59, 88, 90, 33, 34, 40, 41, 63, 39,
      43, 124, 35, 62, 0, 36, 64, 91, 93, 126, 94, 125, 60, 96, 123, 92, 195, 208, 128, 130,
      131, 162, 184, 194, 224, 226, 153, 161, 167, 172, 176, 177, 179, 209, 216, 217, 227, 229, 230, 129,
      132, 133, 134, 136, 146, 154, 156, 160, 163, 164, 169, 170, 173, 178, 181, 185, 186, 187, 189, 190,
      196, 198, 228, 232, 233, 1, 135, 137, 138, 139, 140, 141, 143, 147, 149, 150, 151, 152, 155, 157,
      158, 165, 166, 168, 174, 175, 180, 182, 183, 188, 191, 197, 231, 239, 9, 142, 144, 145, 148, 159,
      171, 206, 215, 225, 236, 237, 199, 207, 234, 235, 192, 193, 200, 201, 202, 205, 210, 213, 218, 219,
      238, 240, 242, 243, 255, 203, 204, 211, 212, 214, 221, 222, 223, 241, 244, 245, 246, 247, 248, 250,
      251, 252, 253, 254, 2, 3, 4, 5, 6, 7, 8, 11, 12, 14, 15, 16, 17, 18, 19, 20,
      21, 23, 24, 25, 26, 27, 28, 29, 30, 31, 127, 220, 249, 10, 13, 22, 256]"

definition huffman_rank :: "nat list" where
  "huffman_rank =
     [84, 145, 224, 225, 226, 227, 228, 229, 230, 174, 253, 231, 232, 254, 233, 234, 235, 236, 237, 238,
      239, 240, 255, 241, 242, 243, 244, 245, 246, 247, 248, 249, 10, 74, 75, 82, 85, 11, 68, 79,
      76, 77, 69, 80, 70, 12, 13, 14, 0, 1, 2, 15, 16, 17, 18, 19, 20, 21, 36, 71,
      92, 22, 83, 78, 86, 23, 37, 38, 39, 40, 41, 42, 43, 44, 45, 46, 47, 48, 49, 50,
      51, 52, 53, 54, 55, 56, 57, 58, 72, 59, 73, 87, 95, 88, 90, 24, 93, 3, 25, 4,
      26, 5, 27, 28, 29, 6, 60, 61, 30, 31, 32, 7, 33, 62, 34, 8, 9, 35, 63, 64,
      65, 66, 67, 94, 81, 91, 89, 250, 98, 119, 99, 100, 120, 121, 122, 146, 123, 147, 148, 149,
      150, 151, 175, 152, 176, 177, 124, 153, 178, 154, 155, 156, 157, 106, 125, 158, 126, 159, 160, 179,
      127, 107, 101, 128, 129, 161, 162, 108, 163, 130, 131, 180, 109, 132, 164, 165, 110, 111, 133, 112,
      166, 134, 167, 168, 102, 135, 136, 137, 169, 138, 139, 170, 190, 191, 103, 96, 140, 171, 141, 186,
      192, 193, 194, 205, 206, 195, 181, 187, 97, 113, 196, 207, 208, 197, 209, 182, 114, 115, 198, 199,
      251, 210, 211, 212, 104, 183, 105, 116, 142, 117, 118, 172, 143, 144, 188, 189, 184, 185, 200, 173,
      201, 213, 202, 203, 214, 215, 216, 217, 218, 252, 219, 220, 221, 222, 223, 204, 256]"

definition code_at :: "nat \<Rightarrow> huffman_code" where
  "code_at s = s_huffman_table ! s"

lemma length_s_huffman_table: "length s_huffman_table = 257"
  by (simp add: s_huffman_table_def)

lemma length_huffman_rank: "length huffman_rank = 257" "length huffman_order = 257"
  by (simp_all add: huffman_rank_def huffman_order_def)

lemma code_lengths: "list_all (\<lambda>c. 5 \<le> hc_bit_len c \<and> hc_bit_len c \<le> 30 \<and> unat (hc_code c) < 2 ^ hc_bit_len c) s_huffman_table"
  by (simp add: s_huffman_table_def)

lemma order_of_rank: "map (\<lambda>r. huffman_order ! r) huffman_rank = [0..<257]"
  by (simp add: huffman_order_def huffman_rank_def upt_rec)

lemma order_sorted:
  "successively (\<lambda>c d. code_high c \<le> code_low d) (map (\<lambda>s. s_huffman_table ! s) huffman_order)"
  by (simp add: huffman_order_def s_huffman_table_def code_high_def code_low_def)

lemma code_at_disjoint:
  assumes "s < 257" "u < 257" "s \<noteq> u"
  shows "code_high (code_at s) \<le> code_low (code_at u) \<or> code_high (code_at u) \<le> code_low (code_at s)"
proof -
  let ?R = "\<lambda>c d. code_high c \<le> code_low d"
  have "transp ?R"
  proof (rule transpI)
    fix a b c assume "code_high a \<le> code_low b" "code_high b \<le> code_low c"
    moreover have "code_low b \<le> code_high b" by (simp add: code_low_def code_high_def)
    ultimately show "code_high a \<le> code_low c" by linarith
  qed
  then have sorted: "sorted_wrt ?R (map (\<lambda>s. s_huffman_table ! s) huffman_order)"
    using order_sorted by (simp add: successively_conv_sorted_wrt)
  have pos: "huffman_order ! (huffman_rank ! i) = i" if "i < 257" for i
  proof -
    have "map (\<lambda>r. huffman_order ! r) huffman_rank ! i = [0..<257] ! i" by (simp only: order_of_rank)
    with that show ?thesis by (simp add: length_huffman_rank)
  qed
  have rank: "huffman_rank ! i < 257" if "i < 257" for i
  proof -
    have "list_all (\<lambda>r. r < 257) huffman_rank" by (simp add: huffman_rank_def)
    with that show ?thesis by (simp add: list_all_length length_huffman_rank)
  qed
  have step: "code_high (code_at a) \<le> code_low (code_at b)"
    if "a < 257" "b < 257" "huffman_rank ! a < huffman_rank ! b" for a b
    using sorted_wrt_nth_less [OF sorted that(3)] that rank pos
    by (simp add: length_huffman_rank code_at_def)
  have "huffman_rank ! s \<noteq> huffman_rank ! u" using pos assms by metis
  then show ?thesis using step assms by (metis nat_neq_iff)
qed

end
