(* ===== verification/Huffman.thy ===== *)
theory Huffman
  imports Hpack_Tables "HOL-Library.Sublist"
begin

text \<open>
  The Huffman coding of string literals (\<^verbatim>\<open>HuffmanTree\<close>, \<^verbatim>\<open>HuffmanEncoder\<close> and \<^verbatim>\<open>HuffmanDecoder\<close> in
  src/flare/rpc/details/hpack.cc).  The tree is an array of nodes whose children are positions in
  the array, counted from 1, with 0 for no child; the encoder packs code words into bytes, the
  decoder walks the tree bit by bit.  The order of the development: the bits of a code word, the
  tree as a map from bit strings to values, the encoder, the decoder, and the round trip.
\<close>

subsection \<open>Model: the tree\<close>

record huffman_node =
  left_child :: nat
  right_child :: nat
  node_value :: int

type_synonym huffman_tree = "huffman_node list"

definition NULL_NODE :: nat where "NULL_NODE = 0"
definition ROOT_NODE :: nat where "ROOT_NODE = 1"
definition INVALID_VALUE :: int where "INVALID_VALUE = 2147483647"

definition new_node :: huffman_node where
  "new_node = \<lparr>left_child = NULL_NODE, right_child = NULL_NODE, node_value = INVALID_VALUE\<rparr>"

definition new_tree :: huffman_tree where
  "new_tree = [new_node]"

text \<open>\<^verbatim>\<open>const HuffmanNode* node(NodeId)\<close>, and the reference of the private overload.\<close>

definition node :: "nat \<Rightarrow> huffman_tree \<Rightarrow> huffman_node option" where
  "node n t = (if n = 0 then None else if n > length t then None else Some (t ! (n - 1)))"

definition node_ref :: "nat \<Rightarrow> huffman_tree \<Rightarrow> huffman_node run" where
  "node_ref n t = (if 1 \<le> n \<and> n \<le> length t then Inr (t ! (n - 1)) else Inl Undefined)"

definition set_node :: "nat \<Rightarrow> huffman_node \<Rightarrow> huffman_tree \<Rightarrow> huffman_tree" where
  "set_node n x t = t[n - 1 := x]"

text \<open>A node id is a \<^verbatim>\<open>uint16_t\<close>.\<close>

definition alloc_node :: "huffman_tree \<Rightarrow> nat \<times> huffman_tree" where
  "alloc_node t = ((length t + 1) mod 2 ^ 16, t @ [new_node])"

primrec add_leaf_loop :: "nat \<Rightarrow> 32 word \<Rightarrow> nat \<Rightarrow> huffman_tree \<Rightarrow> (nat \<times> huffman_tree) run" where
  "add_leaf_loop 0 code cur t = Inr (cur, t)"
| "add_leaf_loop (Suc i) code cur t =
     bindE (node_ref cur t) (\<lambda>n.
     bindE (checkE (node_value n = INVALID_VALUE)) (\<lambda>_.
       if bit code i then
         if right_child n = NULL_NODE then
           let (new_id, t) = alloc_node t;
               t = set_node cur (n\<lparr>right_child := new_id\<rparr>) t
           in add_leaf_loop i code new_id t
         else add_leaf_loop i code (right_child n) t
       else
         if left_child n = NULL_NODE then
           let (new_id, t) = alloc_node t;
               t = set_node cur (n\<lparr>left_child := new_id\<rparr>) t
           in add_leaf_loop i code new_id t
         else add_leaf_loop i code (left_child n) t))"

definition add_leaf_node :: "nat \<Rightarrow> huffman_code \<Rightarrow> huffman_tree \<Rightarrow> huffman_tree run" where
  "add_leaf_node value code t =
     bindE (add_leaf_loop (hc_bit_len code) (hc_code code) ROOT_NODE t) (\<lambda>(cur, t).
     bindE (node_ref cur t) (\<lambda>n.
     bindE (checkE (INVALID_VALUE = node_value n)) (\<lambda>_.
     bindE (checkE (NULL_NODE = left_child n)) (\<lambda>_.
     bindE (checkE (NULL_NODE = right_child n)) (\<lambda>_.
       Inr (set_node cur (n\<lparr>node_value := int value\<rparr>) t))))))"

text \<open>The tree of a code table (\<^verbatim>\<open>CreateStaticTableOrDie\<close>).\<close>

definition build_tree :: "huffman_code list \<Rightarrow> huffman_tree run" where
  "build_tree table = foldE (\<lambda>t (i, code). add_leaf_node i code t) new_tree (enumerate 0 table)"

definition s_huffman_tree :: "huffman_tree run" where
  "s_huffman_tree = build_tree s_huffman_table"

subsection \<open>Model: the encoder\<close>

record huffman_encoder =
  he_out :: bytes
  he_partial_byte :: byte
  he_remain_bit :: nat
  he_out_bytes :: "32 word"

definition huffman_encoder_new :: "bytes \<Rightarrow> huffman_encoder" where
  "huffman_encoder_new out = \<lparr>he_out = out, he_partial_byte = 0, he_remain_bit = 8, he_out_bytes = 0\<rparr>"

text \<open>The body of the loop of \<^verbatim>\<open>Encode\<close>, with its \<^verbatim>\<open>adding_bits_len\<close>.\<close>

definition he_add_bits :: "32 word \<Rightarrow> nat \<Rightarrow> nat \<Rightarrow> huffman_encoder \<Rightarrow> huffman_encoder" where
  "he_add_bits code bits_left adding_bits_len e =
     (let adding_bits = (ucast (drop_bit (bits_left - adding_bits_len) (code AND mask bits_left)) :: byte);
          p = he_partial_byte e OR push_bit (he_remain_bit e - adding_bits_len) adding_bits;
          r = he_remain_bit e - adding_bits_len
      in if r = 0
         then e\<lparr>he_out := he_out e @ [p], he_partial_byte := 0, he_remain_bit := 8,
                he_out_bytes := he_out_bytes e + 1\<rparr>
         else e\<lparr>he_partial_byte := p, he_remain_bit := r\<rparr>)"

lemma he_add_bits_remain: "he_remain_bit (he_add_bits code n a e) \<noteq> 0"
  by (simp add: he_add_bits_def Let_def)

function he_encode_loop :: "32 word \<Rightarrow> nat \<Rightarrow> huffman_encoder \<Rightarrow> huffman_encoder" where
  "he_encode_loop code bits_left e =
     (if bits_left = 0 then e
      else
        let adding_bits_len = min (he_remain_bit e) bits_left
        in he_encode_loop code (bits_left - adding_bits_len) (he_add_bits code bits_left adding_bits_len e))"
  by pat_completeness auto
termination
  by (relation "measure (\<lambda>(_, n, e). n + (if he_remain_bit e = 0 then 1 else 0))")
    (auto simp: he_add_bits_remain)

declare he_encode_loop.simps [simp del]

definition he_encode :: "huffman_code list \<Rightarrow> byte \<Rightarrow> huffman_encoder \<Rightarrow> huffman_encoder" where
  "he_encode table c e =
     (let code = table ! unat c in he_encode_loop (hc_code code) (hc_bit_len code) e)"

definition he_end_stream :: "huffman_encoder \<Rightarrow> huffman_encoder" where
  "he_end_stream e =
     (if he_remain_bit e = 8 then e
      else
        let p = he_partial_byte e OR mask (he_remain_bit e)
        in e\<lparr>he_partial_byte := 0, he_out := he_out e @ [p], he_remain_bit := 0,
             he_out_bytes := he_out_bytes e + 1\<rparr>)"

subsection \<open>Model: the decoder\<close>

record huffman_decoder =
  hd_out :: bytes
  hd_cur_node :: huffman_node
  hd_cur_depth :: nat
  hd_padding :: bool

definition huffman_decoder_new :: "huffman_tree \<Rightarrow> huffman_decoder option" where
  "huffman_decoder_new t =
     map_option (\<lambda>root. \<lparr>hd_out = [], hd_cur_node = root, hd_cur_depth = 0, hd_padding = True\<rparr>)
       (node ROOT_NODE t)"

text \<open>
  One step of the loop of \<^verbatim>\<open>Decode\<close>; \<open>None\<close> is \<^verbatim>\<open>return -1\<close>.  The two branches of the code differ in the
  child they take and in what they do to \<^verbatim>\<open>_padding\<close>.
\<close>

definition hd_step :: "huffman_tree \<Rightarrow> huffman_decoder \<Rightarrow> bool \<Rightarrow> huffman_decoder option" where
  "hd_step t d b =
     (case node (if b then right_child (hd_cur_node d) else left_child (hd_cur_node d)) t of
        None \<Rightarrow> None
      | Some n \<Rightarrow>
          if node_value n \<noteq> INVALID_VALUE then
            if node_value n = int HPACK_HUFFMAN_EOS then None
            else (case node ROOT_NODE t of
                    None \<Rightarrow> None
                  | Some root \<Rightarrow>
                      Some \<lparr>hd_out = hd_out d @ [word_of_int (node_value n)], hd_cur_node = root,
                            hd_cur_depth = 0, hd_padding = True\<rparr>)
          else
            Some (d\<lparr>hd_cur_node := n, hd_padding := hd_padding d \<and> b,
                    hd_cur_depth := (hd_cur_depth d + 1) mod 2 ^ 16\<rparr>))"

fun hd_bits :: "huffman_tree \<Rightarrow> huffman_decoder \<Rightarrow> bool list \<Rightarrow> huffman_decoder option" where
  "hd_bits t d [] = Some d"
| "hd_bits t d (b # bs) = (case hd_step t d b of None \<Rightarrow> None | Some d' \<Rightarrow> hd_bits t d' bs)"

definition byte_bits :: "byte \<Rightarrow> bool list" where
  "byte_bits c = map (bit c) (rev [0..<8])"

definition hd_decode :: "huffman_tree \<Rightarrow> byte \<Rightarrow> huffman_decoder \<Rightarrow> huffman_decoder option" where
  "hd_decode t c d = hd_bits t d (byte_bits c)"

definition hd_end_stream :: "huffman_decoder \<Rightarrow> bool" where
  "hd_end_stream d \<longleftrightarrow> hd_cur_depth d = 0 \<or> hd_cur_depth d \<le> 7 \<and> hd_padding d"

subsection \<open>The bits of a code word\<close>

definition code_bits :: "huffman_code \<Rightarrow> bool list" where
  "code_bits c = map (bit (hc_code c)) (rev [0..<hc_bit_len c])"

lemma length_code_bits [simp]: "length (code_bits c) = hc_bit_len c"
  by (simp add: code_bits_def)

lemma nth_code_bits: "i < hc_bit_len c \<Longrightarrow> code_bits c ! i = bit (hc_code c) (hc_bit_len c - 1 - i)"
  by (simp add: code_bits_def rev_nth)

lemma code_at_bounds:
  assumes "s < 257"
  shows "5 \<le> hc_bit_len (code_at s)" "hc_bit_len (code_at s) \<le> 30"
    "unat (hc_code (code_at s)) < 2 ^ hc_bit_len (code_at s)"
  using code_lengths assms by (auto simp: list_all_length length_s_huffman_table code_at_def)

lemma prefix_code_value:
  assumes "prefix (code_bits c) (code_bits d)"
    and "unat (hc_code c) < 2 ^ hc_bit_len c" "unat (hc_code d) < 2 ^ hc_bit_len d" "hc_bit_len d \<le> 30"
  shows "hc_bit_len c \<le> hc_bit_len d \<and>
    unat (hc_code c) = unat (hc_code d) div 2 ^ (hc_bit_len d - hc_bit_len c)"
proof -
  let ?m = "hc_bit_len c" and ?n = "hc_bit_len d"
  have le: "?m \<le> ?n" using prefix_length_le [OF assms(1)] by simp
  have "bit (hc_code c) i = bit (drop_bit (?n - ?m) (hc_code d)) i" for i
  proof (cases "i < ?m")
    case True
    obtain zs where "code_bits d = code_bits c @ zs" using assms(1) by (rule prefixE)
    then have "code_bits c ! (?m - 1 - i) = code_bits d ! (?m - 1 - i)"
      using True by (simp add: nth_append)
    with True le show ?thesis by (simp add: nth_code_bits bit_drop_bit_eq add.commute)
  next
    case False
    then show ?thesis
      using not_bit_high [OF assms(2), of i] not_bit_high [OF assms(3), of "?n - ?m + i"] le by (simp add: bit_drop_bit_eq)
  qed
  then have "hc_code c = drop_bit (?n - ?m) (hc_code d)" by (rule bit_eqI)
  moreover have "unat (drop_bit k w) = unat w div 2 ^ k" for k and w :: "32 word"
  proof -
    have "unat (drop_bit k w) = drop_bit k (unat w)"
      by (rule bit_eqI) (simp add: bit_unsigned_iff bit_drop_bit_eq)
    also have "\<dots> = unat w div 2 ^ k" by (rule drop_bit_eq_div)
    finally show ?thesis .
  qed
  ultimately show ?thesis using le by metis
qed

lemma code_at_prefix_free:
  assumes "s < 257" "u < 257" "prefix (code_bits (code_at s)) (code_bits (code_at u))"
  shows "s = u"
proof (rule ccontr)
  assume "s \<noteq> u"
  let ?c = "code_at s" and ?d = "code_at u"
  note b = code_at_bounds [OF assms(1)] code_at_bounds [OF assms(2)]
  have v: "hc_bit_len ?c \<le> hc_bit_len ?d"
      "unat (hc_code ?c) = unat (hc_code ?d) div 2 ^ (hc_bit_len ?d - hc_bit_len ?c)"
    using prefix_code_value [OF assms(3) b(3) b(6) b(5)] by auto
  define k where "k = hc_bit_len ?d - hc_bit_len ?c"
  define r where "r = 30 - hc_bit_len ?d"
  have e: "30 - hc_bit_len ?c = k + r" using v(1) b(5) by (simp add: k_def r_def)
  have "unat (hc_code ?d) div 2 ^ k * 2 ^ k \<le> unat (hc_code ?d)" by simp
  then have "unat (hc_code ?d) div 2 ^ k * 2 ^ k * 2 ^ r \<le> unat (hc_code ?d) * 2 ^ r" by simp
  then have "code_low ?c \<le> code_low ?d"
    unfolding code_low_def e v(2) k_def [symmetric] r_def [symmetric] by (simp add: power_add ac_simps)
  moreover have "unat (hc_code ?d) < (unat (hc_code ?d) div 2 ^ k + 1) * 2 ^ k"
    by (simp add: dividend_less_div_times add.commute)
  then have "unat (hc_code ?d) * 2 ^ r < (unat (hc_code ?d) div 2 ^ k + 1) * 2 ^ k * 2 ^ r"
    by (intro mult_strict_right_mono) simp_all
  then have "code_low ?d < code_high ?c"
    unfolding code_low_def code_high_def e v(2) k_def [symmetric] r_def [symmetric]
    by (simp only: power_add mult.assoc)
  moreover have "code_low ?d < code_high ?d" by (simp add: code_low_def code_high_def)
  ultimately show False using code_at_disjoint [OF assms(1,2) \<open>s \<noteq> u\<close>] by linarith
qed

subsection \<open>The tree as a map from bit strings\<close>

definition child :: "bool \<Rightarrow> huffman_node \<Rightarrow> nat" where
  "child b n = (if b then right_child n else left_child n)"

definition set_child :: "bool \<Rightarrow> nat \<Rightarrow> huffman_node \<Rightarrow> huffman_node" where
  "set_child b i n = (if b then n\<lparr>right_child := i\<rparr> else n\<lparr>left_child := i\<rparr>)"

fun walk :: "huffman_tree \<Rightarrow> nat \<Rightarrow> bool list \<Rightarrow> nat" where
  "walk t i [] = i"
| "walk t i (b # bs) = (case node i t of None \<Rightarrow> 0 | Some n \<Rightarrow> walk t (child b n) bs)"

definition reach :: "huffman_tree \<Rightarrow> bool list \<Rightarrow> nat" where
  "reach t bs = walk t ROOT_NODE bs"

definition tree_map :: "huffman_tree \<Rightarrow> bool list \<Rightarrow> int option" where
  "tree_map t bs = map_option node_value (node (reach t bs) t)"

text \<open>A child is behind its parent, and no two nodes share a child.\<close>

definition tree_wf :: "huffman_tree \<Rightarrow> bool" where
  "tree_wf t \<longleftrightarrow> t \<noteq> [] \<and>
     (\<forall>i n b. node i t = Some n \<longrightarrow> child b n \<noteq> 0 \<longrightarrow> i < child b n \<and> child b n \<le> length t) \<and>
     (\<forall>i n b j m c. node i t = Some n \<longrightarrow> node j t = Some m \<longrightarrow> child b n = child c m \<longrightarrow>
        child b n \<noteq> 0 \<longrightarrow> i = j \<and> b = c)"

lemma node_0 [simp]: "node 0 t = None"
  by (simp add: node_def)

lemma node_Some_iff: "node i t = Some n \<longleftrightarrow> 1 \<le> i \<and> i \<le> length t \<and> n = t ! (i - 1)"
  by (auto simp: node_def)

lemma node_ref_eq: "node_ref i t = (case node i t of None \<Rightarrow> Inl Undefined | Some n \<Rightarrow> Inr n)"
  by (auto simp: node_ref_def node_def)

lemma walk_snoc: "walk t i (bs @ [b]) = (case node (walk t i bs) t of None \<Rightarrow> 0 | Some n \<Rightarrow> child b n)"
  by (induction bs arbitrary: i) (auto split: option.splits)

lemma reach_Nil [simp]: "reach t [] = 1"
  by (simp add: reach_def ROOT_NODE_def)

lemma reach_snoc: "reach t (bs @ [b]) = (case node (reach t bs) t of None \<Rightarrow> 0 | Some n \<Rightarrow> child b n)"
  by (simp add: reach_def walk_snoc)

lemma walk_0 [simp]: "walk t 0 bs = 0"
  by (cases bs) auto

lemma reach_bound:
  assumes "tree_wf t" shows "reach t bs \<le> length t"
proof (cases bs rule: rev_cases)
  case Nil
  then show ?thesis using assms by (auto simp: tree_wf_def Suc_le_eq)
next
  case (snoc cs b)
  show ?thesis
  proof (cases "node (reach t cs) t")
    case (Some n)
    then show ?thesis using assms snoc by (cases "child b n = 0") (auto simp: reach_snoc tree_wf_def)
  qed (simp add: snoc reach_snoc)
qed

lemma node_reach:
  assumes "tree_wf t" "reach t bs \<noteq> 0"
  shows "\<exists>n. node (reach t bs) t = Some n"
  using reach_bound [OF assms(1), of bs] assms(2) by (simp add: node_def)

lemma reach_inj:
  assumes wf: "tree_wf t"
  shows "reach t bs = reach t cs \<Longrightarrow> reach t bs \<noteq> 0 \<Longrightarrow> bs = cs"
proof (induction bs arbitrary: cs rule: rev_induct)
  case Nil
  show ?case
  proof (cases cs rule: rev_cases)
    case (snoc ds c)
    then have "node (reach t ds) t \<noteq> None" using Nil by (auto simp: reach_snoc split: option.splits)
    then obtain n where n: "node (reach t ds) t = Some n" by blast
    then have "child c n = 1" using Nil snoc by (simp add: reach_snoc)
    with n wf have "reach t ds < 1" by (metis tree_wf_def one_neq_zero)
    with n show ?thesis by simp
  qed simp
next
  case (snoc b bs)
  obtain n where n: "node (reach t bs) t = Some n" "child b n \<noteq> 0"
    using snoc.prems by (auto simp: reach_snoc split: option.splits)
  show ?case
  proof (cases cs rule: rev_cases)
    case Nil
    then have "child b n = 1" using snoc.prems n by (simp add: reach_snoc)
    with n wf have "reach t bs < 1" by (metis tree_wf_def)
    with n show ?thesis by simp
  next
    case (snoc ds c)
    obtain m where m: "node (reach t ds) t = Some m" "child b n = child c m"
      using snoc.prems n snoc \<open>reach t (bs @ [b]) = reach t cs\<close> by (auto simp: reach_snoc split: option.splits)
    then have "reach t bs = reach t ds \<and> b = c" using n wf unfolding tree_wf_def by blast
    moreover have "reach t bs \<noteq> 0" using n by (metis node_0 option.distinct(1))
    ultimately show ?thesis using snoc snoc.IH by blast
  qed
qed

text \<open>Giving the node at \<open>p\<close> a new child, which is the last node of the array.\<close>

definition grow :: "nat \<Rightarrow> bool \<Rightarrow> huffman_tree \<Rightarrow> huffman_tree" where
  "grow i b t = set_node i (set_child b (length t + 1) (t ! (i - 1))) (t @ [new_node])"

lemma child_set_child [simp]: "child b (set_child c i n) = (if b = c then i else child b n)"
  by (auto simp: child_def set_child_def)

lemma node_value_set_child [simp]: "node_value (set_child c i n) = node_value n"
  by (auto simp: set_child_def)

lemma child_new_node [simp]: "child b new_node = 0"
  by (simp add: child_def new_node_def NULL_NODE_def)

lemma node_grow:
  assumes "1 \<le> i" "i \<le> length t"
  shows "node j (grow i b t) =
    (if j = length t + 1 then Some new_node
     else if j = i then Some (set_child b (length t + 1) (t ! (i - 1)))
     else node j t)"
  using assms by (auto simp: node_def grow_def set_node_def nth_append nth_list_update)

lemma grow_wf:
  assumes wf: "tree_wf t" and i: "node i t = Some n" "child b n = 0"
  shows "tree_wf (grow i b t)"
proof -
  have r: "1 \<le> i" "i \<le> length t" "n = t ! (i - 1)" using i(1) by (auto simp: node_Some_iff)
  note N = node_grow [OF r(1,2), of _ b, folded r(3)]
  have len: "length (grow i b t) = length t + 1" by (simp add: grow_def set_node_def)
  have old: "j < child c m \<and> child c m \<le> length t" if "node j t = Some m" "child c m \<noteq> 0" for j m c
    using wf that unfolding tree_wf_def by blast
  have inj: "j = k \<and> c = d" if "node j t = Some m" "node k t = Some m'" "child c m = child d m'" "child c m \<noteq> 0"
    for j k m m' c d
    using wf that unfolding tree_wf_def by blast
  have kids: "j = i \<and> c = b \<and> child c m = length t + 1 \<or> (\<exists>m'. node j t = Some m' \<and> child c m = child c m')"
    if "node j (grow i b t) = Some m" "child c m \<noteq> 0" for j m c
    using that i unfolding N by (auto split: if_splits)
  have up: "j < child c m \<and> child c m \<le> length t + 1" if "node j (grow i b t) = Some m" "child c m \<noteq> 0" for j m c
    using kids [OF that] that(2) old [of j _ c] r(2) by fastforce
  have "j = k \<and> c = d"
    if g: "node j (grow i b t) = Some m" "node k (grow i b t) = Some m'" "child c m = child d m'" "child c m \<noteq> 0"
    for j k m m' c d
  proof -
    have nz: "child d m' \<noteq> 0" using g(3,4) by simp
    consider "j = i" "c = b" "child c m = length t + 1" | m0 where "node j t = Some m0" "child c m = child c m0"
      using kids [OF g(1,4)] by blast
    then show ?thesis
    proof cases
      case 1
      then show ?thesis using kids [OF g(2) nz] old [of k _ d] g(3,4) by fastforce
    next
      case 2
      have "child c m \<le> length t" using old [OF 2(1), of c] 2(2) g(4) by simp
      then obtain m1 where "node k t = Some m1" "child d m' = child d m1"
        using kids [OF g(2) nz] g(3) by auto
      then show ?thesis using inj [OF 2(1), of k m1 c d] 2(2) g(3,4) by simp
    qed
  qed
  with up len show ?thesis by (auto simp: tree_wf_def)
qed

lemma reach_grow:
  assumes wf: "tree_wf t" and p: "reach t p \<noteq> 0" "node (reach t p) t = Some n" "child b n = 0"
  shows "reach (grow (reach t p) b t) bs = (if bs = p @ [b] then length t + 1 else reach t bs)"
proof (induction bs rule: rev_induct)
  case Nil
  then show ?case by simp
next
  case (snoc c bs)
  let ?i = "reach t p" and ?t = "grow (reach t p) b t"
  have r: "1 \<le> ?i" "?i \<le> length t" "n = t ! (?i - 1)" using p(2) by (auto simp: node_Some_iff)
  note N = node_grow [OF r(1,2), of _ b, folded r(3)]
  show ?case
  proof (cases "bs = p @ [b]")
    case True
    have "reach t (p @ [b]) = 0" using p by (simp add: reach_snoc)
    then have "reach t bs = 0" using True by simp
    then have "reach t (bs @ [c]) = 0" by (simp add: reach_snoc)
    moreover have "reach ?t bs = length t + 1" using snoc True by simp
    then have "reach ?t (bs @ [c]) = 0" using N by (simp add: reach_snoc)
    ultimately show ?thesis using True by simp
  next
    case False
    then have x: "reach ?t bs = reach t bs" using snoc by simp
    have bound: "reach t bs \<noteq> length t + 1" using reach_bound [OF wf, of bs] by simp
    show ?thesis
    proof (cases "reach t bs = ?i")
      case True
      then have "bs = p" using reach_inj [OF wf] p(1) by metis
      then show ?thesis using x N bound p(2) True by (simp add: reach_snoc)
    next
      case False
      then have "bs \<noteq> p" by auto
      then show ?thesis using x N bound False by (simp add: reach_snoc)
    qed
  qed
qed

lemma tree_map_grow:
  assumes wf: "tree_wf t" and p: "reach t p \<noteq> 0" "node (reach t p) t = Some n" "child b n = 0"
  shows "tree_map (grow (reach t p) b t) bs = (if bs = p @ [b] then Some INVALID_VALUE else tree_map t bs)"
proof -
  have r: "1 \<le> reach t p" "reach t p \<le> length t" "n = t ! (reach t p - 1)" using p(2) by (auto simp: node_Some_iff)
  note N = node_grow [OF r(1,2), of _ b, folded r(3)]
  have "reach t bs \<noteq> length t + 1" using reach_bound [OF wf, of bs] by simp
  then show ?thesis
    using p(2) by (auto simp: tree_map_def reach_grow [OF assms] N new_node_def)
qed

lemma tree_map_set_value:
  assumes wf: "tree_wf t" and p: "reach t p \<noteq> 0" "node (reach t p) t = Some n"
  shows "tree_wf (set_node (reach t p) (n\<lparr>node_value := v\<rparr>) t)"
    and "tree_map (set_node (reach t p) (n\<lparr>node_value := v\<rparr>) t) bs = (if bs = p then Some v else tree_map t bs)"
proof -
  let ?i = "reach t p" and ?t = "set_node (reach t p) (n\<lparr>node_value := v\<rparr>) t"
  have r: "1 \<le> ?i" "?i \<le> length t" "n = t ! (?i - 1)" using p(2) by (auto simp: node_Some_iff)
  have N: "node j ?t = (if j = ?i then Some (n\<lparr>node_value := v\<rparr>) else node j t)" for j
    using r by (auto simp: node_def set_node_def nth_list_update)
  have C: "child c (n\<lparr>node_value := v\<rparr>) = child c n" for c by (simp add: child_def)
  have W: "reach ?t bs = reach t bs" for bs
    by (induction bs rule: rev_induct) (auto simp: reach_snoc N C p(2) split: option.splits)
  have kids: "\<exists>m'. node j t = Some m' \<and> (\<forall>c. child c m = child c m')" if "node j ?t = Some m" for j m
    using that p(2) C unfolding N by (auto split: if_splits)
  have len: "length ?t = length t" by (simp add: set_node_def)
  have "j < child c m \<and> child c m \<le> length t" if "node j ?t = Some m" "child c m \<noteq> 0" for j m c
    using kids [OF that(1)] that(2) wf unfolding tree_wf_def by auto
  moreover have "j = k \<and> c = d"
    if g: "node j ?t = Some m" "node k ?t = Some m'" "child c m = child d m'" "child c m \<noteq> 0" for j k m m' c d
  proof -
    obtain x y where "node j t = Some x" "child c m = child c x" "node k t = Some y" "child d m' = child d y"
      using kids [OF g(1)] kids [OF g(2)] by blast
    with g(3,4) wf show ?thesis unfolding tree_wf_def by metis
  qed
  moreover have "?t \<noteq> []" using wf len by (auto simp: tree_wf_def)
  ultimately show "tree_wf ?t" unfolding tree_wf_def len by blast
  show "tree_map ?t bs = (if bs = p then Some v else tree_map t bs)"
    using reach_inj [OF wf, of p bs] p(1) by (auto simp: tree_map_def W N)
qed

text \<open>
  The map of a set of code words: a bit string is a node if it is a prefix of a code word, with the
  value of the code word if it is one.
\<close>

definition code_map :: "(bool list \<Rightarrow> int option) \<Rightarrow> bool list \<Rightarrow> int option" where
  "code_map S bs =
     (case S bs of
        Some v \<Rightarrow> Some v
      | None \<Rightarrow> if bs = [] \<or> (\<exists>w \<in> dom S. prefix bs w) then Some INVALID_VALUE else None)"

definition code_tree :: "huffman_tree \<Rightarrow> (bool list \<Rightarrow> int option) \<Rightarrow> bool" where
  "code_tree t S \<longleftrightarrow> tree_wf t \<and> tree_map t = code_map S"

lemma code_tree_new: "code_tree new_tree (\<lambda>_. None)"
proof -
  have wf: "tree_wf new_tree"
    by (auto simp: tree_wf_def new_tree_def node_def split: if_splits)
  have "tree_map new_tree bs = code_map (\<lambda>_. None) bs" for bs
  proof (cases bs rule: rev_cases)
    case Nil
    then show ?thesis by (simp add: tree_map_def code_map_def new_tree_def node_def new_node_def)
  next
    case (snoc cs c)
    then have "reach new_tree bs = 0"
      by (auto simp: reach_snoc new_tree_def node_def split: option.splits if_splits)
    with snoc show ?thesis by (simp add: tree_map_def code_map_def)
  qed
  with wf show ?thesis by (auto simp: code_tree_def)
qed

text \<open>Running the loop of \<^verbatim>\<open>AddLeafNode\<close> along a code word adds its prefixes as inner nodes.\<close>

definition with_path :: "bool list \<Rightarrow> (bool list \<Rightarrow> int option) \<Rightarrow> bool list \<Rightarrow> int option" where
  "with_path p f bs = (case f bs of Some v \<Rightarrow> Some v | None \<Rightarrow> if prefix bs p then Some INVALID_VALUE else None)"

definition word_bits :: "32 word \<Rightarrow> nat \<Rightarrow> bool list" where
  "word_bits c n = map (bit c) (rev [0..<n])"

lemma word_bits_Suc: "word_bits c (Suc n) = bit c n # word_bits c n"
  by (simp add: word_bits_def)

lemma tree_map_prefix:
  assumes "tree_map t p \<noteq> None" "prefix q p"
  shows "tree_map t q \<noteq> None"
  using assms
proof (induction p rule: rev_induct)
  case (snoc b p)
  have "node (reach t p) t \<noteq> None"
  proof
    assume "node (reach t p) t = None"
    then have "reach t (p @ [b]) = 0" by (simp add: reach_snoc)
    with snoc.prems(1) show False by (simp add: tree_map_def)
  qed
  then have "tree_map t p \<noteq> None" by (simp add: tree_map_def)
  with snoc show ?case by (cases "q = p @ [b]") auto
qed simp

lemma node_at_path:
  assumes wf: "tree_wf t" and v: "tree_map t p = Some v"
  shows "\<exists>n. node (reach t p) t = Some n \<and> node_value n = v \<and> reach t p \<noteq> 0 \<and>
    (\<forall>b. (child b n = 0) = (tree_map t (p @ [b]) = None)) \<and> (\<forall>b. child b n = reach t (p @ [b]))"
proof -
  obtain n where n: "node (reach t p) t = Some n" "node_value n = v" using v by (auto simp: tree_map_def)
  then have c: "child b n = reach t (p @ [b])" for b by (simp add: reach_snoc)
  have "(child b n = 0) = (tree_map t (p @ [b]) = None)" for b
    unfolding c using node_reach [OF wf, of "p @ [b]"]
    by (cases "reach t (p @ [b]) = 0") (auto simp: tree_map_def)
  moreover have "reach t p \<noteq> 0" using n(1) by (cases "reach t p = 0") auto
  ultimately show ?thesis using n c by blast
qed

lemma add_leaf_loop_Suc:
  "add_leaf_loop (Suc i) code cur t =
     bindE (node_ref cur t) (\<lambda>n. bindE (checkE (node_value n = INVALID_VALUE)) (\<lambda>_.
       if child (bit code i) n = 0
       then add_leaf_loop i code ((length t + 1) mod 2 ^ 16)
              (set_node cur (set_child (bit code i) ((length t + 1) mod 2 ^ 16) n) (t @ [new_node]))
       else add_leaf_loop i code (child (bit code i) n) t))"
  by (cases "bit code i") (simp_all add: child_def set_child_def NULL_NODE_def alloc_node_def Let_def cong: if_cong)

lemma add_leaf_loop_law:
  assumes "tree_wf t" "tree_map t p \<noteq> None"
    and "\<And>q. prefix q (p @ word_bits code n) \<Longrightarrow> q \<noteq> p @ word_bits code n \<Longrightarrow>
      tree_map t q = None \<or> tree_map t q = Some INVALID_VALUE"
    and "length t + n < 2 ^ 16"
  shows "\<exists>t'. add_leaf_loop n code (reach t p) t = Inr (reach t' (p @ word_bits code n), t') \<and> tree_wf t' \<and>
    length t' \<le> length t + n \<and> tree_map t' = with_path (p @ word_bits code n) (tree_map t)"
  using assms
proof (induction n arbitrary: t p)
  case 0
  have "tree_map t = with_path p (tree_map t)"
    by (rule ext) (auto simp: with_path_def split: option.splits dest: tree_map_prefix [OF 0(2)])
  with 0 show ?case by (simp add: word_bits_def)
next
  case (Suc n)
  let ?b = "bit code n" and ?w = "p @ word_bits code (Suc n)"
  have w: "(p @ [?b]) @ word_bits code n = ?w" by (simp add: word_bits_Suc)
  have "tree_map t p = Some INVALID_VALUE" using Suc.prems(2) Suc.prems(3) [of p] by (auto simp: word_bits_Suc)
  then obtain m where m: "node (reach t p) t = Some m" "node_value m = INVALID_VALUE" "reach t p \<noteq> 0"
      "(child ?b m = 0) = (tree_map t (p @ [?b]) = None)" "child ?b m = reach t (p @ [?b])"
    using node_at_path [OF Suc.prems(1)] by blast
  have ref: "node_ref (reach t p) t = Inr m" using m(1) by (simp add: node_ref_eq)
  show ?case
  proof (cases "child ?b m = 0")
    case False
    have "\<exists>t'. add_leaf_loop n code (reach t (p @ [?b])) t = Inr (reach t' ((p @ [?b]) @ word_bits code n), t') \<and>
        tree_wf t' \<and> length t' \<le> length t + n \<and> tree_map t' = with_path ((p @ [?b]) @ word_bits code n) (tree_map t)"
      using Suc.prems(1,4) Suc.prems(3) [folded w] False m(4) by (intro Suc.IH) auto
    then show ?thesis unfolding w using False m ref by (auto simp: add_leaf_loop_Suc simp del: add_leaf_loop.simps)
  next
    case True
    let ?t = "grow (reach t p) ?b t"
    have id: "(length t + 1) mod 2 ^ 16 = length t + 1" using Suc.prems(4) by simp
    have g: "set_node (reach t p) (set_child ?b (length t + 1) m) (t @ [new_node]) = ?t"
      using m(1) by (simp add: grow_def node_Some_iff)
    have wf: "tree_wf ?t" using grow_wf [OF Suc.prems(1) m(1) True] .
    have tm: "tree_map ?t bs = (if bs = p @ [?b] then Some INVALID_VALUE else tree_map t bs)" for bs
      using tree_map_grow [OF Suc.prems(1) m(3,1) True] .
    have at: "reach ?t (p @ [?b]) = length t + 1" using reach_grow [OF Suc.prems(1) m(3,1) True] by simp
    have len: "length ?t = length t + 1" by (simp add: grow_def set_node_def)
    have "\<exists>t'. add_leaf_loop n code (reach ?t (p @ [?b])) ?t = Inr (reach t' ((p @ [?b]) @ word_bits code n), t') \<and>
        tree_wf t' \<and> length t' \<le> length ?t + n \<and> tree_map t' = with_path ((p @ [?b]) @ word_bits code n) (tree_map ?t)"
      using Suc.prems(4) Suc.prems(3) [folded w] wf by (intro Suc.IH) (auto simp: tm len)
    then obtain t' where t': "add_leaf_loop n code (length t + 1) ?t = Inr (reach t' ?w, t')" "tree_wf t'"
        "length t' \<le> length t + Suc n" "tree_map t' = with_path ?w (tree_map ?t)"
      unfolding w at len by auto
    have "tree_map t (p @ [?b]) = None" using m(4) True by simp
    moreover have "prefix (p @ [?b]) ?w" by (simp add: word_bits_Suc)
    ultimately have "with_path ?w (tree_map ?t) = with_path ?w (tree_map t)"
      by (auto simp: with_path_def tm fun_eq_iff split: option.splits)
    with t' show ?thesis
      unfolding add_leaf_loop_Suc ref bindE.simps m(2) id g using True by simp
  qed
qed

lemma code_bits_eq: "code_bits c = word_bits (hc_code c) (hc_bit_len c)"
  by (simp add: code_bits_def word_bits_def)

lemma add_leaf_node_law:
  assumes t: "code_tree t S" and len: "length t + hc_bit_len c < 2 ^ 16" "0 < hc_bit_len c"
    and free: "\<And>w. w \<in> dom S \<Longrightarrow> \<not> prefix w (code_bits c) \<and> \<not> prefix (code_bits c) w"
    and S: "\<And>w v. S w = Some v \<Longrightarrow> w \<noteq> []"
  shows "\<exists>t'. add_leaf_node v c t = Inr t' \<and> code_tree t' (S(code_bits c \<mapsto> int v)) \<and>
    length t' \<le> length t + hc_bit_len c"
proof -
  let ?w = "code_bits c"
  have wf: "tree_wf t" and tm: "tree_map t = code_map S" using t by (auto simp: code_tree_def)
  have ne: "?w \<noteq> []" using len(2) by (simp add: code_bits_def)
  have root: "tree_map t [] \<noteq> None" unfolding tm by (simp add: code_map_def split: option.splits)
  have inner: "tree_map t q = None \<or> tree_map t q = Some INVALID_VALUE" if "prefix q ?w" for q
    using free [of q] that by (auto simp: tm code_map_def split: option.splits)
  obtain t1 where t1: "add_leaf_loop (hc_bit_len c) (hc_code c) (reach t []) t = Inr (reach t1 ?w, t1)"
      "tree_wf t1" "length t1 \<le> length t + hc_bit_len c" "tree_map t1 = with_path ?w (tree_map t)"
    using add_leaf_loop_law [OF wf root _ len(1)] inner by (auto simp: code_bits_eq)
  have "tree_map t1 ?w = Some INVALID_VALUE"
    using inner [of ?w] unfolding t1(4) by (auto simp: with_path_def)
  then obtain n where n: "node (reach t1 ?w) t1 = Some n" "node_value n = INVALID_VALUE" "reach t1 ?w \<noteq> 0"
      "\<forall>b. (child b n = 0) = (tree_map t1 (?w @ [b]) = None)"
    using node_at_path [OF t1(2)] by blast
  have leaf: "tree_map t1 (?w @ [b]) = None" for b
  proof -
    have "S (?w @ [b]) = None" using free [of "?w @ [b]"] by (cases "S (?w @ [b])") auto
    moreover have "\<not> prefix (?w @ [b]) u" if "u \<in> dom S" for u
      using free [OF that] by (meson append_prefixD)
    ultimately have "tree_map t (?w @ [b]) = None" by (auto simp: tm code_map_def)
    then show ?thesis unfolding t1(4) by (auto simp: with_path_def dest: prefix_length_le)
  qed
  have kids: "left_child n = 0" "right_child n = 0"
    using n(4) leaf [of False] leaf [of True] by (simp_all add: child_def) (metis child_def)+
  let ?t = "set_node (reach t1 ?w) (n\<lparr>node_value := int v\<rparr>) t1"
  have run: "add_leaf_node v c t = Inr ?t"
    using t1(1) n(1,2) kids by (simp add: add_leaf_node_def ROOT_NODE_def node_ref_eq NULL_NODE_def)
  have tm': "tree_map ?t bs = (if bs = ?w then Some (int v) else tree_map t1 bs)" for bs
    by (rule tree_map_set_value(2) [OF t1(2) n(3,1)])
  have "tree_map ?t bs = code_map (S(?w \<mapsto> int v)) bs" for bs
    unfolding tm' t1(4) tm using ne
    by (auto simp: with_path_def code_map_def split: option.splits)
  moreover have "tree_wf ?t" by (rule tree_map_set_value(1) [OF t1(2) n(3,1)])
  ultimately show ?thesis using run t1(3) by (auto simp: code_tree_def set_node_def)
qed

text \<open>The contract of a code table: short code words, none a prefix of another.\<close>

locale prefix_code =
  fixes table :: "huffman_code list"
  assumes bit_len: "c \<in> set table \<Longrightarrow> 0 < hc_bit_len c \<and> hc_bit_len c \<le> 30"
    and prefix_free: "i < length table \<Longrightarrow> j < length table \<Longrightarrow>
      prefix (code_bits (table ! i)) (code_bits (table ! j)) \<Longrightarrow> i = j"
    and table_small: "length table \<le> 2000"
begin

lemma build_tree_upto:
  "k \<le> length table \<Longrightarrow>
   \<exists>t S. foldE (\<lambda>t (i, code). add_leaf_node i code t) new_tree (enumerate 0 (take k table)) = Inr t \<and>
     code_tree t S \<and> length t \<le> 1 + 30 * k \<and>
     (\<forall>w v. S w = Some v \<longleftrightarrow> (\<exists>i < k. w = code_bits (table ! i) \<and> v = int i))"
proof (induction k)
  case 0
  show ?case using code_tree_new by (intro exI [of _ new_tree] exI [of _ "\<lambda>_. None"]) (simp add: new_tree_def)
next
  case (Suc k)
  then have k: "k < length table" by simp
  obtain t S where t: "foldE (\<lambda>t (i, code). add_leaf_node i code t) new_tree (enumerate 0 (take k table)) = Inr t"
      "code_tree t S" "length t \<le> 1 + 30 * k"
    and S: "\<And>w v. S w = Some v \<longleftrightarrow> (\<exists>i < k. w = code_bits (table ! i) \<and> v = int i)"
    using Suc by (auto simp: less_imp_le)
  let ?c = "table ! k"
  have c: "0 < hc_bit_len ?c" "hc_bit_len ?c \<le> 30" using bit_len [of ?c] k by auto
  have len: "length t + hc_bit_len ?c < 2 ^ 16" using t(3) c(2) k table_small by simp
  have free: "\<not> prefix w (code_bits ?c) \<and> \<not> prefix (code_bits ?c) w" if w: "w \<in> dom S" for w
  proof -
    obtain i where i: "i < k" "w = code_bits (table ! i)" using w S by (auto simp: dom_def)
    then show ?thesis using prefix_free [of i k] prefix_free [of k i] k by auto
  qed
  have ne: "w \<noteq> []" if "S w = Some v" for w v
    using free [OF domI [of S w v, OF that]] by auto
  obtain t' where t': "add_leaf_node k ?c t = Inr t'" "code_tree t' (S(code_bits ?c \<mapsto> int k))"
      "length t' \<le> length t + hc_bit_len ?c"
  proof -
    have "\<exists>t'. add_leaf_node k ?c t = Inr t' \<and> code_tree t' (S(code_bits ?c \<mapsto> int k)) \<and>
      length t' \<le> length t + hc_bit_len ?c"
      by (rule add_leaf_node_law [OF t(2) len c(1)]) (use free ne in \<open>auto\<close>)
    with that show ?thesis by auto
  qed
  have "foldE (\<lambda>t (i, code). add_leaf_node i code t) new_tree (enumerate 0 (take (Suc k) table)) = Inr t'"
    using k t(1) t'(1) by (simp add: take_Suc_conv_app_nth enumerate_append_eq foldE_append)
  moreover have "((S(code_bits ?c \<mapsto> int k)) w = Some v) = (\<exists>i < Suc k. w = code_bits (table ! i) \<and> v = int i)" for w v
  proof (cases "w = code_bits ?c")
    case True
    have "i = k" if "i < Suc k" "code_bits ?c = code_bits (table ! i)" for i
      using prefix_free [of i k] that k by simp
    with True show ?thesis by auto
  next
    case False
    then show ?thesis using S by (auto simp: less_Suc_eq)
  qed
  ultimately show ?case using t'(2,3) t(3) c(2) by (intro exI [of _ t']) auto
qed

lemma build_tree_law:
  "\<exists>t S. build_tree table = Inr t \<and> code_tree t S \<and>
     (\<forall>w v. S w = Some v \<longleftrightarrow> (\<exists>i < length table. w = code_bits (table ! i) \<and> v = int i))"
  using build_tree_upto [of "length table"] by (auto simp: build_tree_def)

end

interpretation hpack_code: prefix_code s_huffman_table
proof
  fix c assume "c \<in> set s_huffman_table"
  then show "0 < hc_bit_len c \<and> hc_bit_len c \<le> 30"
    using code_lengths by (auto simp: list_all_iff)
next
  fix i j assume "i < length s_huffman_table" "j < length s_huffman_table"
    "prefix (code_bits (s_huffman_table ! i)) (code_bits (s_huffman_table ! j))"
  then show "i = j" using code_at_prefix_free by (simp add: length_s_huffman_table code_at_def)
qed (simp add: length_s_huffman_table)

subsection \<open>Decoding\<close>

text \<open>The decoder has read the bits \<open>p\<close> since the last symbol.\<close>

definition at_node :: "huffman_tree \<Rightarrow> bool list \<Rightarrow> huffman_decoder \<Rightarrow> bool" where
  "at_node t p d \<longleftrightarrow>
     node (reach t p) t = Some (hd_cur_node d) \<and> hd_cur_depth d = length p \<and> hd_padding d = list_all id p"

lemma hd_bits_append:
  "hd_bits t d (xs @ ys) = (case hd_bits t d xs of None \<Rightarrow> None | Some d' \<Rightarrow> hd_bits t d' ys)"
  by (induction xs arbitrary: d) (auto split: option.splits)

lemma hd_step_node:
  assumes "at_node t p d"
  shows "node (if b then right_child (hd_cur_node d) else left_child (hd_cur_node d)) t = node (reach t (p @ [b])) t"
  using assms by (simp add: at_node_def reach_snoc child_def)

lemma hd_step_inner:
  assumes "at_node t p d" "tree_map t (p @ [b]) = Some INVALID_VALUE" "length p + 1 < 2 ^ 16"
  shows "\<exists>d'. hd_step t d b = Some d' \<and> at_node t (p @ [b]) d' \<and> hd_out d' = hd_out d"
proof -
  obtain n where n: "node (reach t (p @ [b])) t = Some n" "node_value n = INVALID_VALUE"
    using assms(2) by (auto simp: tree_map_def)
  let ?d = "d\<lparr>hd_cur_node := n, hd_padding := hd_padding d \<and> b, hd_cur_depth := (hd_cur_depth d + 1) mod 2 ^ 16\<rparr>"
  have "hd_step t d b = Some ?d"
    unfolding hd_step_def hd_step_node [OF assms(1)] using n by simp
  moreover have "at_node t (p @ [b]) ?d"
    using assms(1,3) n by (auto simp: at_node_def)
  ultimately show ?thesis by auto
qed

lemma hd_step_leaf:
  assumes "at_node t p d" "tree_map t (p @ [b]) = Some v" "v \<noteq> INVALID_VALUE" "v \<noteq> int HPACK_HUFFMAN_EOS"
    "tree_wf t"
  shows "\<exists>d'. hd_step t d b = Some d' \<and> at_node t [] d' \<and> hd_out d' = hd_out d @ [word_of_int v]"
proof -
  obtain n where n: "node (reach t (p @ [b])) t = Some n" "node_value n = v"
    using assms(2) by (auto simp: tree_map_def)
  obtain root where root: "node ROOT_NODE t = Some root"
    using assms(5) by (cases t) (auto simp: tree_wf_def node_def ROOT_NODE_def)
  have "hd_step t d b = Some \<lparr>hd_out = hd_out d @ [word_of_int v], hd_cur_node = root, hd_cur_depth = 0, hd_padding = True\<rparr>"
    unfolding hd_step_def hd_step_node [OF assms(1)] using n root assms(3,4) by simp
  then show ?thesis using root by (simp add: at_node_def ROOT_NODE_def)
qed

lemma hd_bits_inner:
  assumes "at_node t p d" "\<And>q'. prefix q' q \<Longrightarrow> q' \<noteq> [] \<Longrightarrow> tree_map t (p @ q') = Some INVALID_VALUE"
    "length p + length q < 2 ^ 16"
  shows "\<exists>d'. hd_bits t d q = Some d' \<and> at_node t (p @ q) d' \<and> hd_out d' = hd_out d"
  using assms
proof (induction q arbitrary: p d)
  case Nil
  then show ?case by simp
next
  case (Cons b q)
  obtain d1 where d1: "hd_step t d b = Some d1" "at_node t (p @ [b]) d1" "hd_out d1 = hd_out d"
    using hd_step_inner [OF Cons.prems(1)] Cons.prems(2) [of "[b]"] Cons.prems(3) by auto
  have "tree_map t ((p @ [b]) @ q') = Some INVALID_VALUE" if "prefix q' q" "q' \<noteq> []" for q'
    using Cons.prems(2) [of "b # q'"] that by simp
  with Cons.IH [OF d1(2)] Cons.prems(3) obtain d' where
    "hd_bits t d1 q = Some d'" "at_node t ((p @ [b]) @ q) d'" "hd_out d' = hd_out d1" by auto
  with d1 show ?case by simp
qed

text \<open>A tree that holds the code words of a table, and nothing else.\<close>

definition tree_of :: "huffman_code list \<Rightarrow> huffman_tree \<Rightarrow> bool" where
  "tree_of table t \<longleftrightarrow> (\<exists>S. code_tree t S \<and>
     (\<forall>w v. S w = Some v \<longleftrightarrow> (\<exists>i < length table. w = code_bits (table ! i) \<and> v = int i)))"

context prefix_code
begin

lemma tree_of_map:
  assumes "tree_of table t" "i < length table"
  shows "tree_wf t" "tree_map t (code_bits (table ! i)) = Some (int i)"
    "prefix q (code_bits (table ! i)) \<Longrightarrow> q \<noteq> code_bits (table ! i) \<Longrightarrow> tree_map t q = Some INVALID_VALUE"
proof -
  obtain S where S: "code_tree t S" "\<And>w v. S w = Some v \<longleftrightarrow> (\<exists>i < length table. w = code_bits (table ! i) \<and> v = int i)"
    using assms(1) by (auto simp: tree_of_def)
  show "tree_wf t" using S(1) by (simp add: code_tree_def)
  have Si: "S (code_bits (table ! i)) = Some (int i)" using S(2) assms(2) by auto
  then show "tree_map t (code_bits (table ! i)) = Some (int i)"
    using S(1) by (simp add: code_tree_def code_map_def)
  assume q: "prefix q (code_bits (table ! i))" "q \<noteq> code_bits (table ! i)"
  have "S q = None"
  proof (cases "S q")
    case (Some v)
    then obtain j where j: "j < length table" "q = code_bits (table ! j)" using S(2) by auto
    then show ?thesis using prefix_free [of j i] q assms(2) by auto
  qed
  moreover have "\<exists>w \<in> dom S. prefix q w" using Si q(1) by blast
  ultimately show "tree_map t q = Some INVALID_VALUE" using S(1) by (simp add: code_tree_def code_map_def)
qed

lemma decode_symbol:
  assumes t: "tree_of table t" and d: "at_node t [] d" and s: "s < length table" "s \<noteq> HPACK_HUFFMAN_EOS"
  shows "\<exists>d'. hd_bits t d (code_bits (table ! s)) = Some d' \<and> at_node t [] d' \<and> hd_out d' = hd_out d @ [word_of_nat s]"
proof -
  let ?w = "code_bits (table ! s)"
  have len: "0 < length ?w" "length ?w \<le> 30" using bit_len [of "table ! s"] s(1) by auto
  then obtain q b where w: "?w = q @ [b]" by (metis append_butlast_last_id length_greater_0_conv)
  have inner: "tree_map t ([] @ q') = Some INVALID_VALUE" if "prefix q' q" for q'
    using tree_of_map(3) [OF t s(1), of q'] that w by (auto simp: prefix_def)
  obtain d1 where d1: "hd_bits t d q = Some d1" "at_node t q d1" "hd_out d1 = hd_out d"
    using hd_bits_inner [OF d, of q] inner len w by auto
  have "int s \<noteq> INVALID_VALUE" using s(1) table_small by (simp add: INVALID_VALUE_def)
  then obtain d2 where "hd_step t d1 b = Some d2" "at_node t [] d2" "hd_out d2 = hd_out d1 @ [word_of_int (int s)]"
    using hd_step_leaf [OF d1(2), of b "int s"] tree_of_map(1,2) [OF t s(1)] w s(2) by auto
  with d1 show ?thesis by (simp add: w hd_bits_append)
qed

lemma decode_symbols:
  assumes t: "tree_of table t" and len: "256 \<le> length table"
  shows "at_node t [] d \<Longrightarrow>
    \<exists>d'. hd_bits t d (concat (map (\<lambda>c :: byte. code_bits (table ! unat c)) s)) = Some d' \<and> at_node t [] d' \<and> hd_out d' = hd_out d @ s"
proof (induction s arbitrary: d)
  case Nil
  then show ?case by simp
next
  case (Cons c s)
  have c: "unat c < 256" using unsigned_less [of c, where 'a = nat] by simp
  obtain d1 where d1: "hd_bits t d (code_bits (table ! unat c)) = Some d1" "at_node t [] d1" "hd_out d1 = hd_out d @ [c]"
    using decode_symbol [OF t Cons.prems, of "unat c"] c len by (auto simp: HPACK_HUFFMAN_EOS_def)
  then show ?case using Cons.IH [OF d1(2)] by (auto simp: hd_bits_append)
qed

end

subsection \<open>Encoding\<close>

text \<open>The encoder that started behind \<open>base\<close> has been given the bits \<open>bits\<close>.\<close>

definition he_rep :: "bytes \<Rightarrow> bool list \<Rightarrow> huffman_encoder \<Rightarrow> bool" where
  "he_rep base bits e \<longleftrightarrow>
     (\<exists>out. he_out e = base @ out \<and> he_out_bytes e = word_of_nat (length out) \<and>
        bits = concat (map byte_bits out) @ map (bit (he_partial_byte e)) (rev [he_remain_bit e..<8])) \<and>
     1 \<le> he_remain_bit e \<and> he_remain_bit e \<le> 8 \<and> (\<forall>j < he_remain_bit e. \<not> bit (he_partial_byte e) j)"

lemma length_byte_bits [simp]: "length (byte_bits c) = 8"
  by (simp add: byte_bits_def)

lemma he_rep_new: "he_rep base [] (huffman_encoder_new base)"
  by (simp add: he_rep_def huffman_encoder_new_def)

lemma word_bits_split:
  assumes "a \<le> n"
  shows "word_bits c n = map (bit c) (rev [n - a..<n]) @ word_bits c (n - a)"
proof -
  have "[0..<n] = [0..<n - a] @ [n - a..<n]" using upt_add_eq_append [of 0 "n - a" a] assms by simp
  then show ?thesis by (simp add: word_bits_def)
qed

text \<open>The bits one round of the loop of \<^verbatim>\<open>Encode\<close> puts into the partial byte.\<close>

lemma bit_adding:
  fixes p :: byte and code :: "32 word"
  assumes "a \<le> r" "a \<le> n" "r \<le> 8" "n \<le> 32" "\<forall>j < r. \<not> bit p j"
  shows "bit (p OR push_bit (r - a) (ucast (drop_bit (n - a) (code AND mask n)) :: byte)) j =
    (if j < r - a then False else if j < r then bit code (n + j - r) else bit p j)"
proof -
  define q where "q = (ucast (drop_bit (n - a) (code AND mask n)) :: byte)"
  have q: "bit q i \<longleftrightarrow> i < 8 \<and> n - a + i < n \<and> bit code (n - a + i)" for i
    unfolding q_def using assms(4)
    by (auto simp: bit_unsigned_iff bit_drop_bit_eq bit_and_iff bit_mask_iff dest: bit_imp_le_length)
  have *: "bit (p OR push_bit (r - a) q) j \<longleftrightarrow>
      bit p j \<or> r - a \<le> j \<and> j < 8 \<and> n - a + (j - (r - a)) < n \<and> bit code (n - a + (j - (r - a)))"
    by (simp only: bit_or_iff bit_push_bit_iff q) auto
  consider "j < r - a" | "r - a \<le> j" "j < r" | "r \<le> j" by linarith
  then show ?thesis
    unfolding q_def [symmetric] *
  proof cases
    case 1
    then show "(bit p j \<or> r - a \<le> j \<and> j < 8 \<and> n - a + (j - (r - a)) < n \<and> bit code (n - a + (j - (r - a)))) =
      (if j < r - a then False else if j < r then bit code (n + j - r) else bit p j)"
      using assms(5) by simp
  next
    case 2
    then have "n - a + (j - (r - a)) = n + j - r" using assms by linarith
    then show "(bit p j \<or> r - a \<le> j \<and> j < 8 \<and> n - a + (j - (r - a)) < n \<and> bit code (n - a + (j - (r - a)))) =
      (if j < r - a then False else if j < r then bit code (n + j - r) else bit p j)"
      using 2 assms by auto
  next
    case 3
    then have "\<not> n - a + (j - (r - a)) < n" using assms by linarith
    then show "(bit p j \<or> r - a \<le> j \<and> j < 8 \<and> n - a + (j - (r - a)) < n \<and> bit code (n - a + (j - (r - a)))) =
      (if j < r - a then False else if j < r then bit code (n + j - r) else bit p j)"
      using 3 by auto
  qed
qed

lemma he_add_bits_law:
  assumes e: "he_rep base bits e" and n: "n \<le> 32" and a: "a \<le> he_remain_bit e" "a \<le> n"
  shows "he_rep base (bits @ map (bit code) (rev [n - a..<n])) (he_add_bits code n a e)"
proof -
  define r where "r = he_remain_bit e"
  define p where "p = he_partial_byte e OR push_bit (r - a) (ucast (drop_bit (n - a) (code AND mask n)) :: byte)"
  obtain out where out: "he_out e = base @ out" "he_out_bytes e = word_of_nat (length out)"
      "bits = concat (map byte_bits out) @ map (bit (he_partial_byte e)) (rev [r..<8])"
    and r: "1 \<le> r" "r \<le> 8" "\<forall>j < r. \<not> bit (he_partial_byte e) j"
    using e by (auto simp: he_rep_def r_def)
  have ar: "a \<le> r" using a by (simp add: r_def)
  note b = bit_adding [OF ar a(2) r(2) n r(3), of code, folded p_def]
  have "[r - a..<8] = [r - a..<r] @ [r..<8]" using upt_add_eq_append [of "r - a" r "8 - r"] r ar by simp
  moreover have "map (bit p) [r..<8] = map (bit (he_partial_byte e)) [r..<8]" using ar by (auto simp: b)
  moreover have "map (bit p) [r - a..<r] = map (bit code) [n - a..<n]"
  proof (rule nth_equalityI)
    fix i assume "i < length (map (bit p) [r - a..<r])"
    then have "i < a" using ar by simp
    then have "r - a + i < r" "\<not> r - a + i < r - a" "n + (r - a + i) - r = n - a + i" using ar a by linarith+
    then have "bit p (r - a + i) = bit code (n - a + i)" by (simp only: b if_False if_True)
    then show "map (bit p) [r - a..<r] ! i = map (bit code) [n - a..<n] ! i"
      using \<open>i < a\<close> ar a by simp
  qed (use ar a in simp)
  ultimately have bits: "map (bit p) (rev [r - a..<8]) =
      map (bit (he_partial_byte e)) (rev [r..<8]) @ map (bit code) (rev [n - a..<n])"
    by (simp only: rev_append map_append rev_map [symmetric])
  show ?thesis
  proof (cases "r - a = 0")
    case True
    then have "byte_bits p = map (bit p) (rev [r - a..<8])" by (simp add: byte_bits_def)
    then have pb: "byte_bits p = map (bit (he_partial_byte e)) (rev [r..<8]) @ map (bit code) (rev [n - a..<n])"
      using bits by simp
    have "he_add_bits code n a e = e\<lparr>he_out := he_out e @ [p], he_partial_byte := 0, he_remain_bit := 8,
        he_out_bytes := he_out_bytes e + 1\<rparr>"
      unfolding he_add_bits_def Let_def r_def [symmetric] p_def [symmetric] using True by simp
    then show ?thesis using out pb
      by (auto simp: he_rep_def intro!: exI [of _ "out @ [p]"])
  next
    case False
    have "he_add_bits code n a e = e\<lparr>he_partial_byte := p, he_remain_bit := r - a\<rparr>"
      unfolding he_add_bits_def Let_def r_def [symmetric] p_def [symmetric] using False by (simp only: if_True if_False)
    then show ?thesis using False bits out(1,2,3) r b by (simp add: he_rep_def) arith
  qed
qed

lemma he_encode_loop_law:
  "he_rep base bits e \<Longrightarrow> n \<le> 32 \<Longrightarrow> he_rep base (bits @ word_bits code n) (he_encode_loop code n e)"
proof (induction n arbitrary: bits e rule: less_induct)
  case (less n)
  show ?case
  proof (cases "n = 0")
    case True
    with less.prems show ?thesis by (subst he_encode_loop.simps) (simp add: word_bits_def)
  next
    case False
    define a where "a = min (he_remain_bit e) n"
    have a: "0 < a" "a \<le> n" "a \<le> he_remain_bit e" using False less.prems by (auto simp: a_def he_rep_def)
    then have "n - a < n" "n - a \<le> 32" using less.prems(2) by auto
    from less.IH [OF this(1) he_add_bits_law [OF less.prems a(3,2)] this(2)]
    show ?thesis
      using False by (subst he_encode_loop.simps) (simp add: Let_def a_def [symmetric] word_bits_split [OF a(2), of code])
  qed
qed

definition text_bits :: "huffman_code list \<Rightarrow> bytes \<Rightarrow> bool list" where
  "text_bits table s = concat (map (\<lambda>c. code_bits (table ! unat c)) s)"

context prefix_code
begin

lemma encode_symbols:
  assumes "256 \<le> length table"
  shows "he_rep base bits e \<Longrightarrow> he_rep base (bits @ text_bits table s) (fold (he_encode table) s e)"
proof (induction s arbitrary: bits e)
  case Nil
  then show ?case by (simp add: text_bits_def)
next
  case (Cons c s)
  have "unat c < length table" using unsigned_less [of c, where 'a = nat] assms by simp
  then have "hc_bit_len (table ! unat c) \<le> 32" using bit_len [of "table ! unat c"] by auto
  then have "he_rep base (bits @ code_bits (table ! unat c)) (he_encode table c e)"
    using he_encode_loop_law [OF Cons.prems] by (simp add: he_encode_def Let_def code_bits_eq)
  with Cons.IH show ?case by (fastforce simp: text_bits_def)
qed

end

lemma he_end_stream_law:
  assumes "he_rep base bits e"
  shows "\<exists>out k. he_out (he_end_stream e) = base @ out \<and> k \<le> 7 \<and>
    concat (map byte_bits out) = bits @ replicate k True"
proof -
  let ?r = "he_remain_bit e" and ?p = "he_partial_byte e"
  obtain out where out: "he_out e = base @ out"
      "bits = concat (map byte_bits out) @ map (bit ?p) (rev [?r..<8])"
    and r: "1 \<le> ?r" "?r \<le> 8" "\<forall>j < ?r. \<not> bit ?p j"
    using assms by (auto simp: he_rep_def)
  show ?thesis
  proof (cases "?r = 8")
    case True
    with out show ?thesis by (intro exI [of _ out] exI [of _ 0]) (simp add: he_end_stream_def)
  next
    case False
    have "[0..<8] = [0..<?r] @ [?r..<8]" using upt_add_eq_append [of 0 ?r "8 - ?r"] r by simp
    moreover have "map (bit (?p OR mask ?r)) [0..<?r] = replicate ?r True"
      using r(2) by (intro nth_equalityI) (auto simp: bit_or_iff bit_mask_iff)
    moreover have "map (bit (?p OR mask ?r)) [?r..<8] = map (bit ?p) [?r..<8]"
      by (auto simp: bit_or_iff bit_mask_iff)
    ultimately have "byte_bits (?p OR mask ?r) = map (bit ?p) (rev [?r..<8]) @ replicate ?r True"
      by (simp add: byte_bits_def rev_map [symmetric])
    with False out r show ?thesis
      by (intro exI [of _ "out @ [?p OR mask ?r]"] exI [of _ ?r]) (simp add: he_end_stream_def Let_def)
  qed
qed

subsection \<open>Round trip\<close>

text \<open>The loops of \<^verbatim>\<open>EncodeString\<close> and \<^verbatim>\<open>DecodeString\<close> over the bytes of the string.\<close>

definition he_encode_string :: "bytes \<Rightarrow> bytes \<Rightarrow> bytes" where
  "he_encode_string out s = he_out (he_end_stream (fold (he_encode s_huffman_table) s (huffman_encoder_new out)))"

fun hd_decode_loop :: "huffman_tree \<Rightarrow> bytes \<Rightarrow> huffman_decoder \<Rightarrow> huffman_decoder option" where
  "hd_decode_loop t [] d = Some d"
| "hd_decode_loop t (c # cs) d = (case hd_decode t c d of None \<Rightarrow> None | Some d' \<Rightarrow> hd_decode_loop t cs d')"

definition hd_decode_string :: "huffman_tree \<Rightarrow> bytes \<Rightarrow> bytes option" where
  "hd_decode_string t cs =
     (case huffman_decoder_new t of
        None \<Rightarrow> None
      | Some d \<Rightarrow>
          (case hd_decode_loop t cs d of
             None \<Rightarrow> None
           | Some d \<Rightarrow> if hd_end_stream d then Some (hd_out d) else None))"

lemma hd_decode_loop_eq: "hd_decode_loop t cs d = hd_bits t d (concat (map byte_bits cs))"
  by (induction cs arbitrary: d) (auto simp: hd_decode_def hd_bits_append split: option.splits)

lemma huffman_decoder_new_law:
  assumes "tree_wf t"
  shows "\<exists>d. huffman_decoder_new t = Some d \<and> at_node t [] d \<and> hd_out d = []"
proof -
  have "1 \<le> length t" using assms by (cases t) (auto simp: tree_wf_def)
  then show ?thesis
    by (auto simp: huffman_decoder_new_def at_node_def ROOT_NODE_def node_def)
qed

lemma hd_decode_string_law:
  assumes t: "tree_of s_huffman_table t" and k: "k \<le> 7"
    and cs: "concat (map byte_bits cs) = text_bits s_huffman_table s @ replicate k True"
  shows "hd_decode_string t cs = Some s"
proof -
  have len: "256 < length s_huffman_table" by (simp add: length_s_huffman_table)
  note tm = hpack_code.tree_of_map [OF t len]
  obtain d where d: "huffman_decoder_new t = Some d" "at_node t [] d" "hd_out d = []"
    using huffman_decoder_new_law [OF tm(1)] by blast
  obtain d1 where d1: "hd_bits t d (text_bits s_huffman_table s) = Some d1" "at_node t [] d1" "hd_out d1 = s"
    using hpack_code.decode_symbols [OF t _ d(2), of s] len d(3) by (auto simp: text_bits_def)
  have eos: "code_bits (s_huffman_table ! 256) = replicate 30 True"
    by (simp add: s_huffman_table_def code_bits_def upt_rec numeral_eq_Suc)
  have "tree_map t ([] @ q) = Some INVALID_VALUE" if q: "prefix q (replicate k True)" for q
  proof (rule tm(3) [unfolded eos])
    have "replicate 30 True = replicate k True @ replicate (30 - k) True" using k by (simp flip: replicate_add)
    with q show "prefix ([] @ q) (replicate 30 True)" by (metis append_Nil prefix_prefix)
    show "[] @ q \<noteq> replicate 30 True" using prefix_length_le [OF q] k by auto
  qed
  then obtain d2 where d2: "hd_bits t d1 (replicate k True) = Some d2" "at_node t (replicate k True) d2" "hd_out d2 = s"
    using hd_bits_inner [OF d1(2), of "replicate k True"] d1(3) k by auto
  have "hd_decode_loop t cs d = Some d2"
    using d1 d2 by (simp add: hd_decode_loop_eq cs hd_bits_append)
  moreover have "hd_end_stream d2" using d2(2) k by (auto simp: hd_end_stream_def at_node_def list_all_iff)
  ultimately show ?thesis using d d2 by (simp add: hd_decode_string_def)
qed

lemma he_encode_string_law:
  "\<exists>cs k. he_encode_string out s = out @ cs \<and> k \<le> 7 \<and>
     concat (map byte_bits cs) = text_bits s_huffman_table s @ replicate k True"
proof -
  have len: "256 \<le> length s_huffman_table" by (simp add: length_s_huffman_table)
  show ?thesis
    using he_end_stream_law [OF hpack_code.encode_symbols [OF len he_rep_new [of out], of s]]
    by (auto simp: he_encode_string_def)
qed

lemma s_huffman_tree_law: "\<exists>t. s_huffman_tree = Inr t \<and> tree_of s_huffman_table t"
  using hpack_code.build_tree_law unfolding s_huffman_tree_def tree_of_def by auto

lemma he_encode_string_length:
  assumes "he_encode_string out s = out @ cs"
  shows "length cs = (length (text_bits s_huffman_table s) + 7) div 8"
proof -
  obtain cs' k where cs': "he_encode_string out s = out @ cs'" "k \<le> 7"
      "concat (map byte_bits cs') = text_bits s_huffman_table s @ replicate k True"
    using he_encode_string_law by blast
  have "length (concat (map byte_bits cs')) = 8 * length cs'" by (induction cs') auto
  then have "8 * length cs' = length (text_bits s_huffman_table s) + k" using cs'(3) by simp
  moreover have "cs' = cs" using cs'(1) assms by simp
  ultimately show ?thesis using cs'(2) by simp
qed

text \<open>
  (C9) Huffman round trip: whatever the string, the bytes that \<^verbatim>\<open>HuffmanEncoder\<close> appends are its code
  words, padded to whole bytes, and \<^verbatim>\<open>HuffmanDecoder\<close> on the tree that \<^verbatim>\<open>CreateStaticTableOrDie\<close> builds
  accepts them and gives the string back.  In particular the tree is built without a failing check,
  and no code word is taken for another or for the end of the stream.
\<close>

theorem huffman_round_trip:
  "\<exists>t cs. s_huffman_tree = Inr t \<and> he_encode_string out s = out @ cs \<and> hd_decode_string t cs = Some s \<and>
     length cs = ((\<Sum>c\<leftarrow>s. hc_bit_len (s_huffman_table ! unat c)) + 7) div 8"
proof -
  obtain cs k where cs: "he_encode_string out s = out @ cs" "k \<le> 7"
      "concat (map byte_bits cs) = text_bits s_huffman_table s @ replicate k True"
    using he_encode_string_law by blast
  obtain t where t: "s_huffman_tree = Inr t" "tree_of s_huffman_table t" using s_huffman_tree_law by blast
  have "length (text_bits s_huffman_table s) = (\<Sum>c\<leftarrow>s. hc_bit_len (s_huffman_table ! unat c))"
    by (simp add: text_bits_def length_concat o_def)
  then show ?thesis
    using t(1) cs(1) hd_decode_string_law [OF t(2) cs(2,3)] he_encode_string_length [OF cs(1)] by auto
qed

end
