(* ===== verification/Word_Bits.thy ===== *)
theory Word_Bits
  imports Prelude
begin

text \<open>
  Shifts and masks of machine words as division, remainder and multiplication of natural numbers,
  for the components that take words apart and put them together.
\<close>

named_theorems unat_bits \<open>values of shifted and masked words\<close>

lemma unat_drop_bit [unat_bits]: "unat (drop_bit k (w :: 'a::len word)) = unat w div 2 ^ k"
proof -
  have "unat (drop_bit k w) = drop_bit k (unat w)"
    by (rule bit_eqI) (simp add: bit_unsigned_iff bit_drop_bit_eq)
  then show ?thesis by (simp only: drop_bit_eq_div)
qed

lemma unat_take_bit [unat_bits]: "unat (take_bit k (w :: 'a::len word)) = unat w mod 2 ^ k"
proof -
  have "unat (take_bit k w) = take_bit k (unat w)"
    by (rule bit_eqI) (auto simp: bit_unsigned_iff bit_take_bit_iff)
  then show ?thesis by (simp only: take_bit_eq_mod)
qed

lemma unat_and_mask: "unat ((w :: 'a::len word) AND mask k) = unat w mod 2 ^ k"
  by (simp only: take_bit_eq_mask [symmetric] unat_take_bit)

lemma unat_push_bit_small [unat_bits]:
  fixes w :: "'a::len word"
  assumes "unat w * 2 ^ m < 2 ^ LENGTH('a)"
  shows "unat (push_bit m w) = unat w * 2 ^ m"
proof -
  have "unat (push_bit m w) = take_bit LENGTH('a) (push_bit m (unat w))"
    by (rule bit_eqI) (auto simp: bit_unsigned_iff bit_take_bit_iff bit_push_bit_iff)
  also have "\<dots> = take_bit LENGTH('a) (unat w * 2 ^ m)" by (simp only: push_bit_eq_mult)
  finally show ?thesis using assms by (simp only: take_bit_nat_eq_self)
qed

lemma unat_of_nat_less: "n < 2 ^ LENGTH('a::len) \<Longrightarrow> unat (word_of_nat n :: 'a word) = n"
  by (simp add: unsigned_of_nat take_bit_nat_eq_self_iff)

text \<open>Words whose bits do not overlap.\<close>

lemma unat_or_disjoint:
  fixes a b :: "'a::len word"
  assumes "a AND b = 0" "unat a + unat b < 2 ^ LENGTH('a)"
  shows "unat (a OR b) = unat a + unat b"
proof -
  have "a + b = a OR b"
  proof (rule disjunctive_add)
    fix n
    have "bit (a AND b) n = False" using assms(1) by simp
    then show "\<not> bit a n \<or> \<not> bit b n" by (simp add: bit_and_iff)
  qed
  then show ?thesis using unat_add_small [OF assms(2)] by simp
qed

lemma and_0_low_high:
  fixes a b :: "'a::len word"
  assumes "unat a < 2 ^ k" "\<And>i. i < k \<Longrightarrow> \<not> bit b i"
  shows "a AND b = 0"
proof (rule bit_eqI)
  fix n
  show "bit (a AND b) n = bit 0 n"
    using assms not_bit_high [OF assms(1), of n] by (cases "n < k") (simp_all add: bit_and_iff)
qed

lemma bit_iff_mod: "bit (w :: 'a::len word) j \<longleftrightarrow> 2 ^ j \<le> unat w mod 2 ^ Suc j"
proof -
  have "unat w mod 2 ^ Suc j = 2 ^ j * (unat w div 2 ^ j mod 2) + unat w mod 2 ^ j"
    by (simp only: power_Suc2 mod_mult2_eq)
  moreover have "unat w mod 2 ^ j < 2 ^ j" by simp
  moreover have "unat w div 2 ^ j mod 2 = (if bit w j then 1 else 0)"
    by (simp add: bit_unat mod_2_eq_odd)
  ultimately show ?thesis by (cases "bit w j") (simp_all add: not_le)
qed

lemma byte_top_bit: "bit (c :: byte) 7 \<longleftrightarrow> 128 \<le> unat c"
proof -
  have "unat c < 256" using unsigned_less [of c, where 'a = nat] by simp
  then show ?thesis by (simp add: bit_iff_mod)
qed

lemma and_bit_eq: "(w :: 'a::len word) AND push_bit j 1 = (if bit w j then push_bit j 1 else 0)"
  by (rule bit_eqI) (auto simp: bit_and_iff bit_push_bit_iff bit_1_iff simp del: push_bit_of_1)

end
