(* ===== verification/Hpack_Prims.thy ===== *)
theory Hpack_Prims
  imports Huffman Case_Ignored Word_Bits
begin

text \<open>
  The primitive type representations of HPACK (\<^verbatim>\<open>EncodeInteger\<close>, \<^verbatim>\<open>DecodeInteger\<close>, \<^verbatim>\<open>EncodeString\<close> and
  \<^verbatim>\<open>DecodeString\<close> in src/flare/rpc/details/hpack.cc).  The appender is the list of bytes written so
  far, the bytes iterator the list of bytes that are left.  The two kinds of failure that the
  decoders report by a return value that is not positive are \<open>Malformed\<close> (-1) and \<open>Incomplete\<close> (0);
  \<open>Decoded n v rest\<close> is the return value \<open>n\<close> with the result \<open>v\<close> and the iterator at \<open>rest\<close>.
\<close>

datatype 'a decoding = Malformed | Incomplete | Decoded nat 'a bytes

subsection \<open>Model\<close>

function encode_integer_loop :: "bytes \<Rightarrow> 32 word \<Rightarrow> bytes" where
  "encode_integer_loop out value =
     (if value \<ge> 128
      then encode_integer_loop (out @ [ucast ((value AND 0x7f) OR 0x80)]) (drop_bit 7 value)
      else out @ [ucast value])"
  by pat_completeness auto
termination
proof (relation "measure (\<lambda>(_, value). unat value)")
  fix out :: bytes and v :: "32 word"
  assume "128 \<le> v"
  then have "128 \<le> unat v" by (simp add: word_le_nat_alt)
  then show "((out @ [ucast ((v AND 0x7f) OR 0x80)], drop_bit 7 v), out, v)
      \<in> measure (\<lambda>(_, value). unat value)"
    using unat_drop_bit [of 7 v] by simp
qed simp

declare encode_integer_loop.simps [simp del]

definition encode_integer :: "bytes \<Rightarrow> byte \<Rightarrow> nat \<Rightarrow> 32 word \<Rightarrow> bytes" where
  "encode_integer out msb prefix_size value =
     (let max_prefix_value = (ucast ((push_bit prefix_size 1 :: 32 word) - 1) :: byte) in
      if value < ucast max_prefix_value then out @ [msb OR ucast value]
      else encode_integer_loop (out @ [msb OR max_prefix_value]) (value - ucast max_prefix_value))"

definition MAX_HPACK_INTEGER :: "64 word" where
  "MAX_HPACK_INTEGER = 10 * 1024 * 1024"

text \<open>Shifting a \<^verbatim>\<open>uint64_t\<close> by 64 or more bits is undefined.\<close>

fun decode_integer_loop :: "bytes \<Rightarrow> 64 word \<Rightarrow> nat \<Rightarrow> nat \<Rightarrow> 32 word decoding run" where
  "decode_integer_loop [] tmp m in_bytes = Inr Incomplete"
| "decode_integer_loop (cur_byte # iter) tmp m in_bytes =
     (if m \<ge> 64 then Inl Undefined
      else
        let tmp = tmp + push_bit m (ucast (cur_byte AND 0x7f)) in
        if cur_byte AND 0x80 \<noteq> 0 \<and> tmp < MAX_HPACK_INTEGER
        then decode_integer_loop iter tmp (m + 7) (in_bytes + 1)
        else if tmp \<ge> MAX_HPACK_INTEGER then Inr Malformed
        else Inr (Decoded (in_bytes + 1) (ucast tmp) iter))"

fun decode_integer :: "bytes \<Rightarrow> nat \<Rightarrow> 32 word decoding run" where
  "decode_integer [] prefix_size = Inr Incomplete"
| "decode_integer (first_byte # iter) prefix_size =
     (let tmp = (ucast (first_byte AND ucast ((push_bit prefix_size 1 :: 32 word) - 1)) :: 64 word) in
      if tmp < ucast ((push_bit prefix_size 1 :: 32 word) - 1) then Inr (Decoded 1 (ucast tmp) iter)
      else decode_integer_loop iter tmp 0 1)"

declare decode_integer.simps [simp del]

text \<open>The template parameter \<^verbatim>\<open>LOWERCASE\<close> is the first argument.\<close>

definition encode_string :: "bool \<Rightarrow> bytes \<Rightarrow> bytes \<Rightarrow> bool \<Rightarrow> bytes" where
  "encode_string lowercase out s huffman_encoding =
     (if \<not> huffman_encoding then
        let out = encode_integer out 0x00 7 (word_of_nat (length s)) in
        if lowercase then out @ map to_lower s else out @ s
      else
        let bit_len =
              (if lowercase
               then foldl (\<lambda>n c. n + word_of_nat (hc_bit_len (s_huffman_table ! unat (to_lower c)))) 0 s
               else foldl (\<lambda>n c. n + word_of_nat (hc_bit_len (s_huffman_table ! unat c))) (0 :: 32 word) s);
            out = encode_integer out 0x80 7 (drop_bit 3 bit_len + (if bit_len AND 7 \<noteq> 0 then 1 else 0))
        in if lowercase then he_encode_string out (map to_lower s) else he_encode_string out s)"

definition decode_string :: "huffman_tree \<Rightarrow> bytes \<Rightarrow> bytes decoding run" where
  "decode_string tree iter =
     (case iter of
        [] \<Rightarrow> Inr Incomplete
      | c # _ \<Rightarrow>
          let huffman = (c AND 0x80 \<noteq> 0) in
          bindE (decode_integer iter 7) (\<lambda>r.
            case r of
              Malformed \<Rightarrow> Inr Malformed
            | Incomplete \<Rightarrow> Inr Malformed
            | Decoded in_bytes len iter \<Rightarrow>
                if unat len > length iter then Inr Incomplete
                else
                  let n = unat len in
                  if \<not> huffman then Inr (Decoded (in_bytes + n) (take n iter) (drop n iter))
                  else
                    (case hd_decode_string tree (take n iter) of
                       None \<Rightarrow> Inr Malformed
                     | Some out \<Rightarrow> Inr (Decoded (in_bytes + n) out (drop n iter)))))"

subsection \<open>Integers\<close>

lemma byte_and_7f: "unat ((c :: byte) AND 0x7f) = unat c mod 128"
  using unat_and_mask [of c 7] by (simp add: mask_eq_exp_minus_1)

lemma byte_and_80: "(c :: byte) AND 0x80 \<noteq> 0 \<longleftrightarrow> 128 \<le> unat c"
  using and_bit_eq [of c 7] by (simp add: byte_top_bit)

lemma unat_MAX_HPACK_INTEGER: "unat MAX_HPACK_INTEGER = 10485760"
  by (simp add: MAX_HPACK_INTEGER_def)

lemma encode_integer_loop_append:
  "encode_integer_loop out v = out @ encode_integer_loop [] v"
proof (induction "unat v" arbitrary: out v rule: less_induct)
  case less
  show ?case
  proof (cases "v \<ge> 128")
    case True
    then have "unat (drop_bit 7 v) < unat v" by (simp only: unat_drop_bit) (simp add: word_le_nat_alt)
    note IH = less [OF this]
    show ?thesis using True
      by (subst (1 2) encode_integer_loop.simps) (simp add: IH [of "out @ [_]"] IH [of "[_]"])
  next
    case False
    then show ?thesis by (subst (1 2) encode_integer_loop.simps) simp
  qed
qed

lemma encode_integer_loop_digit:
  assumes "v \<ge> 128"
  shows "encode_integer_loop [] v = ucast ((v AND 0x7f) OR 0x80) # encode_integer_loop [] (drop_bit 7 v)"
  using assms encode_integer_loop_append [of "[_]"] by (subst encode_integer_loop.simps) simp

lemma unat_digit: "unat (ucast (((v :: 32 word) AND 0x7f) OR 0x80) :: byte) = unat v mod 128 + 128"
proof -
  have a: "unat (v AND 0x7f) = unat v mod 128" using unat_and_mask [of v 7] by (simp add: mask_eq_exp_minus_1)
  have "\<not> bit (0x80 :: 32 word) i" if "i < 7" for i
  proof -
    have "bit (push_bit 7 1 :: 32 word) i \<longleftrightarrow> False" using that by (simp only: bit_push_bit_iff) simp
    then show ?thesis by simp
  qed
  then have "(v AND 0x7f) AND 0x80 = 0" by (intro and_0_low_high [of _ 7]) (auto simp: a)
  then have "unat ((v AND 0x7f) OR 0x80) = unat v mod 128 + 128"
    by (subst unat_or_disjoint) (simp_all add: a)
  then show ?thesis by (simp only: unat_ucast_mod) simp
qed

lemma decode_loop_encode:
  assumes "unat tmp + unat v * 2 ^ m < 10485760" "m < 64"
  shows "decode_integer_loop (encode_integer_loop [] v @ rest) tmp m k =
    Inr (Decoded (k + length (encode_integer_loop [] v)) (word_of_nat (unat tmp + unat v * 2 ^ m)) rest)"
  using assms
proof (induction "unat v" arbitrary: v tmp m k rule: less_induct)
  case less
  have step: "unat (tmp + push_bit m (ucast (c AND 0x7f)) :: 64 word) = unat tmp + d * 2 ^ m"
    if d: "d = unat c mod 128" "unat tmp + d * 2 ^ m < 10485760" for c :: byte and d
  proof -
    have u: "unat (ucast (c AND 0x7f) :: 64 word) = d" using d(1) by (simp add: unat_ucast_up byte_and_7f)
    have "unat (push_bit m (ucast (c AND 0x7f) :: 64 word)) = d * 2 ^ m"
      using d(2) by (subst unat_push_bit_small) (simp_all add: u)
    then show ?thesis using d(2) by (subst unat_add_small) simp_all
  qed
  show ?case
  proof (cases "v \<ge> 128")
    case True
    let ?c = "ucast ((v AND 0x7f) OR 0x80) :: byte"
    have v: "128 \<le> unat v" using True by (simp add: word_le_nat_alt)
    have dv: "unat (drop_bit 7 v) = unat v div 128" by (simp only: unat_drop_bit) simp
    have split: "unat v * 2 ^ m = unat v mod 128 * 2 ^ m + unat v div 128 * 2 ^ (m + 7)"
    proof -
      have "unat v * 2 ^ m = (unat v mod 128 + unat v div 128 * 128) * 2 ^ m" by simp
      then show ?thesis by (simp only: add_mult_distrib power_add) simp
    qed
    have "1 \<le> unat v div 128" using v by simp
    then have "1 * (2 :: nat) ^ (m + 7) \<le> unat v div 128 * 2 ^ (m + 7)" by (rule mult_le_mono1)
    then have "(2 :: nat) ^ (m + 7) < 10485760" using less.prems(1) split by linarith
    also have "(10485760 :: nat) < 2 ^ 24" by simp
    finally have "(2 :: nat) ^ (m + 7) < 2 ^ 24" .
    then have m: "m + 7 < 24" by (rule power_less_imp_less_exp [rotated]) simp
    have t: "unat (tmp + push_bit m (ucast (?c AND 0x7f)) :: 64 word) = unat tmp + unat v mod 128 * 2 ^ m"
      using step [of "unat v mod 128" ?c] less.prems(1) split by (simp add: unat_digit)
    have "?c AND 0x80 \<noteq> 0" by (simp only: byte_and_80 unat_digit)
    moreover have "tmp + push_bit m (ucast (?c AND 0x7f)) < MAX_HPACK_INTEGER"
      using t less.prems(1) split by (simp only: word_less_nat_alt unat_MAX_HPACK_INTEGER)
    moreover have "decode_integer_loop (encode_integer_loop [] (drop_bit 7 v) @ rest)
        (tmp + push_bit m (ucast (?c AND 0x7f))) (m + 7) (k + 1) =
      Inr (Decoded (k + 1 + length (encode_integer_loop [] (drop_bit 7 v)))
        (word_of_nat (unat tmp + unat v * 2 ^ m)) rest)"
      using less.hyps [of "drop_bit 7 v" "tmp + push_bit m (ucast (?c AND 0x7f))" "m + 7" "k + 1"] v m less.prems(1) split
      by (simp only: dv t) simp
    ultimately show ?thesis
      using less.prems(2) unfolding encode_integer_loop_digit [OF True] append_Cons decode_integer_loop.simps Let_def
      by simp
  next
    case False
    then have v: "unat v < 128" by (simp add: word_le_nat_alt)
    have e: "encode_integer_loop [] v = [ucast v]" using False by (subst encode_integer_loop.simps) simp
    have c: "unat (ucast v :: byte) = unat v" using v by (simp add: unat_ucast_mod)
    have t: "unat (tmp + push_bit m (ucast ((ucast v :: byte) AND 0x7f)) :: 64 word) = unat tmp + unat v * 2 ^ m"
      using step [of "unat v" "ucast v"] less.prems(1) v c by simp
    have "\<not> (ucast v :: byte) AND 0x80 \<noteq> 0" using v c by (simp only: byte_and_80)
    moreover have "\<not> tmp + push_bit m (ucast ((ucast v :: byte) AND 0x7f)) \<ge> MAX_HPACK_INTEGER"
      using t less.prems(1) by (simp only: word_le_nat_alt unat_MAX_HPACK_INTEGER)
    moreover have "ucast (tmp + push_bit m (ucast ((ucast v :: byte) AND 0x7f))) =
        (word_of_nat (unat tmp + unat v * 2 ^ m) :: 32 word)"
      by (simp only: t [symmetric] of_nat_unat)
    ultimately show ?thesis
      using less.prems(2) unfolding e append_Cons append_Nil decode_integer_loop.simps Let_def by simp
  qed
qed

text \<open>The mask of the prefix, in the widths the code uses it.\<close>

lemma prefix_mask:
  assumes "p \<le> 8"
  shows "(ucast ((push_bit p 1 :: 32 word) - 1) :: byte) = mask p"
    and "(ucast (mask p :: byte) :: 32 word) = mask p"
    and "(ucast ((push_bit p 1 :: 32 word) - 1) :: 64 word) = mask p"
    and "unat (mask p :: byte) = 2 ^ p - 1" "unat (mask p :: 32 word) = 2 ^ p - 1" "unat (mask p :: 64 word) = 2 ^ p - 1"
proof -
  have m: "(push_bit p 1 :: 32 word) - 1 = mask p" by (simp add: mask_eq_exp_minus_1)
  show "(ucast ((push_bit p 1 :: 32 word) - 1) :: byte) = mask p"
    unfolding m by (rule bit_eqI) (auto simp: bit_unsigned_iff bit_mask_iff)
  show "(ucast (mask p :: byte) :: 32 word) = mask p"
    by (rule bit_eqI) (use assms in \<open>auto simp: bit_unsigned_iff bit_mask_iff\<close>)
  show "(ucast ((push_bit p 1 :: 32 word) - 1) :: 64 word) = mask p"
    unfolding m by (rule bit_eqI) (use assms in \<open>auto simp: bit_unsigned_iff bit_mask_iff\<close>)
  have u: "unat (mask p :: 'a::len word) = 2 ^ p - 1" if "p \<le> LENGTH('a)"
  proof -
    have "unat (mask p :: 'a word) = mask p"
      by (rule bit_eqI) (use that in \<open>auto simp: bit_unsigned_iff bit_mask_iff\<close>)
    then show ?thesis by (simp add: mask_eq_exp_minus_1)
  qed
  show "unat (mask p :: byte) = 2 ^ p - 1" by (rule u) (use assms in simp)
  show "unat (mask p :: 32 word) = 2 ^ p - 1" by (rule u) (use assms in simp)
  show "unat (mask p :: 64 word) = 2 ^ p - 1" by (rule u) (use assms in simp)
qed

lemma encode_integer_append: "encode_integer out msb p v = out @ encode_integer [] msb p v"
  using encode_integer_loop_append [of "out @ [_]"] encode_integer_loop_append [of "[_]"]
  by (simp add: encode_integer_def Let_def)

lemma prefix_or:
  fixes msb x :: byte
  assumes "msb AND mask p = 0" "unat x < 2 ^ p"
  shows "(msb OR x) AND mask p = x" "drop_bit p (msb OR x) = drop_bit p msb"
proof -
  have m: "\<not> (bit msb i \<and> i < p)" if "i < 8" for i
    using arg_cong [OF assms(1), of "\<lambda>w. bit w i"] that by (simp add: bit_and_iff bit_mask_iff)
  have x: "\<not> bit x i" if "p \<le> i" for i using not_bit_high [OF assms(2) that] .
  show "(msb OR x) AND mask p = x"
    using m x by (intro bit_eqI) (auto simp: bit_and_iff bit_or_iff bit_mask_iff not_less [symmetric])
  show "drop_bit p (msb OR x) = drop_bit p msb"
    using x by (intro bit_eqI) (auto simp: bit_drop_bit_eq bit_or_iff)
qed

lemma encode_integer_law:
  assumes p: "1 \<le> p" "p \<le> 7" and msb: "msb AND mask p = 0" and v: "unat v < 10485760"
  shows "\<exists>c cs. encode_integer [] msb p v = c # cs \<and> drop_bit p c = drop_bit p msb \<and>
    (\<forall>rest. decode_integer (c # cs @ rest) p = Inr (Decoded (length (c # cs)) v rest))"
proof -
  note M = prefix_mask [of p]
  have p8: "p \<le> 8" using p by simp
  have one: "1 \<le> (2 :: nat) ^ p" by simp
  show ?thesis
  proof (cases "unat v < 2 ^ p - 1")
    case True
    have "(2 :: nat) ^ p \<le> 2 ^ 7" using p(2) by (rule power_increasing) simp
    then have small: "unat v < 128" using True by simp
    then have uc: "unat (ucast v :: byte) = unat v" by (simp add: unat_ucast_mod)
    then have c: "(msb OR ucast v) AND mask p = ucast v" "drop_bit p (msb OR ucast v) = drop_bit p msb"
      using prefix_or [OF msb, of "ucast v"] True by simp_all
    have "encode_integer [] msb p v = [msb OR ucast v]"
      using True by (simp add: encode_integer_def M(1,2) [OF p8] word_less_nat_alt M(5) [OF p8] Let_def del: push_bit_of_1)
    moreover have "decode_integer ((msb OR ucast v) # rest) p = Inr (Decoded 1 v rest)" for rest
    proof -
      have "(ucast ((msb OR ucast v) AND mask p) :: 64 word) < mask p"
        unfolding c(1) word_less_nat_alt using True by (simp add: M(6) [OF p8] unat_ucast_up uc)
      moreover have "(ucast (ucast ((msb OR ucast v) AND mask p) :: 64 word) :: 32 word) = v"
        unfolding c(1) using small by (simp add: word_unat_eq_iff unat_ucast_mod uc)
      ultimately show ?thesis by (simp add: decode_integer.simps M(1,3) [OF p8] Let_def del: push_bit_of_1)
    qed
    ultimately show ?thesis using c(2) by simp
  next
    case False
    let ?c = "msb OR mask p" and ?v = "v - mask p"
    have um: "unat (mask p :: byte) < 2 ^ p" using one by (simp add: M(4) [OF p8])
    have c: "?c AND mask p = mask p" "drop_bit p ?c = drop_bit p msb"
      using prefix_or [OF msb um] by simp_all
    have uv: "unat ?v = unat v - (2 ^ p - 1)"
      using False unat_sub_small [of "mask p" v] by (simp add: M(5) [OF p8])
    have "encode_integer [] msb p v = ?c # encode_integer_loop [] ?v"
      using False encode_integer_loop_append [of "[?c]" ?v]
      by (simp add: encode_integer_def M(1,2) [OF p8] word_less_nat_alt M(5) [OF p8] Let_def del: push_bit_of_1)
    moreover have "decode_integer (?c # encode_integer_loop [] ?v @ rest) p =
        Inr (Decoded (length (?c # encode_integer_loop [] ?v)) v rest)" for rest
    proof -
      let ?t = "ucast (?c AND mask p) :: 64 word"
      have t: "unat ?t = 2 ^ p - 1" by (simp add: c(1) unat_ucast_up M(4) [OF p8])
      have "\<not> ?t < mask p" by (simp only: word_less_nat_alt t M(6) [OF p8])
      moreover have sum: "unat ?t + unat ?v * 2 ^ 0 = unat v" using False by (simp only: t uv) simp
      moreover have "decode_integer_loop (encode_integer_loop [] ?v @ rest) ?t 0 1 =
          Inr (Decoded (1 + length (encode_integer_loop [] ?v)) (word_of_nat (unat ?t + unat ?v * 2 ^ 0)) rest)"
        by (rule decode_loop_encode [OF _ zero_less_numeral]) (simp only: sum v)
      ultimately show ?thesis by (simp add: decode_integer.simps M(1,3) [OF p8] Let_def del: push_bit_of_1)
    qed
    ultimately show ?thesis using c(2) by simp
  qed
qed

lemma decode_integer_loop_used:
  "decode_integer_loop iter tmp m k = Inr (Decoded n v rest) \<Longrightarrow>
   \<exists>used. iter = used @ rest \<and> used \<noteq> [] \<and> n = k + length used"
proof (induction iter tmp m k rule: decode_integer_loop.induct)
  case (2 c iter tmp m k)
  show ?case
  proof (cases "c AND 0x80 \<noteq> 0 \<and> tmp + push_bit m (ucast (c AND 0x7f)) < MAX_HPACK_INTEGER")
    case True
    then obtain used where "iter = used @ rest" "n = k + 1 + length used" using 2 by (auto split: if_splits)
    then show ?thesis by (intro exI [of _ "c # used"]) simp
  next
    case False
    then have "rest = iter" "n = k + 1" using 2(2) by (auto simp: Let_def split: if_splits)
    then show ?thesis by (intro exI [of _ "[c]"]) simp
  qed
qed simp

lemma decode_integer_used:
  assumes "decode_integer iter p = Inr (Decoded n v rest)"
  shows "\<exists>used. iter = used @ rest \<and> used \<noteq> [] \<and> n = length used"
proof (cases iter)
  case (Cons c iter')
  show ?thesis
  proof (cases "ucast (c AND ucast ((push_bit p 1 :: 32 word) - 1)) < (ucast ((push_bit p 1 :: 32 word) - 1) :: 64 word)")
    case True
    then show ?thesis using assms Cons by (simp add: decode_integer.simps Let_def)
  next
    case False
    then obtain used where "iter' = used @ rest" "n = 1 + length used"
      using assms Cons decode_integer_loop_used by (fastforce simp: decode_integer.simps Let_def)
    then show ?thesis using Cons by (intro exI [of _ "c # used"]) simp
  qed
qed (use assms in \<open>simp add: decode_integer.simps\<close>)

lemma decode_integer_shorter:
  "decode_integer iter p = Inr (Decoded n v rest) \<Longrightarrow> length rest < length iter"
  using decode_integer_used by fastforce

subsection \<open>Strings\<close>

text \<open>The string that \<^verbatim>\<open>EncodeString\<close> encodes.\<close>

definition cased :: "bool \<Rightarrow> bytes \<Rightarrow> bytes" where
  "cased lowercase s = (if lowercase then tolower s else s)"

lemma length_cased [simp]: "length (cased l s) = length s"
  by (simp add: cased_def)

lemma encode_string_cased: "encode_string lowercase out s h = encode_string False out (cased lowercase s) h"
  by (auto simp: encode_string_def cased_def tolower_eq Let_def foldl_map)

lemma bit_len_sum:
  fixes s :: bytes
  assumes "length s < 2 ^ 21"
  shows "unat (foldl (\<lambda>n c. n + word_of_nat (hc_bit_len (s_huffman_table ! unat c))) (0 :: 32 word) s) =
      (\<Sum>c\<leftarrow>s. hc_bit_len (s_huffman_table ! unat c))"
    and "(\<Sum>c\<leftarrow>s. hc_bit_len (s_huffman_table ! unat c)) \<le> 30 * length s"
proof -
  have bound: "(\<Sum>c\<leftarrow>s. hc_bit_len (s_huffman_table ! unat c)) \<le> 30 * length s" for s :: bytes
  proof (induction s)
    case (Cons c s)
    have "unat c < length s_huffman_table"
      using unat_byte_less [of c] length_s_huffman_table by linarith
    then have "hc_bit_len (s_huffman_table ! unat c) \<le> 30" using hpack_code.bit_len [OF nth_mem] by blast
    with Cons show ?case by simp
  qed simp
  have "foldl (\<lambda>n c. n + word_of_nat (hc_bit_len (s_huffman_table ! unat c))) w s =
      w + word_of_nat (\<Sum>c\<leftarrow>s. hc_bit_len (s_huffman_table ! unat c))" for w :: "32 word"
    by (induction s arbitrary: w) (simp_all add: add.assoc)
  then have "foldl (\<lambda>n c. n + word_of_nat (hc_bit_len (s_huffman_table ! unat c))) (0 :: 32 word) s =
      word_of_nat (\<Sum>c\<leftarrow>s. hc_bit_len (s_huffman_table ! unat c))" by simp
  moreover have "(\<Sum>c\<leftarrow>s. hc_bit_len (s_huffman_table ! unat c)) < 2 ^ 32" using bound [of s] assms by simp
  ultimately show "unat (foldl (\<lambda>n c. n + word_of_nat (hc_bit_len (s_huffman_table ! unat c))) (0 :: 32 word) s) =
      (\<Sum>c\<leftarrow>s. hc_bit_len (s_huffman_table ! unat c))"
    by (simp add: unat_of_nat_less)
  show "(\<Sum>c\<leftarrow>s. hc_bit_len (s_huffman_table ! unat c)) \<le> 30 * length s" by (rule bound)
qed

lemma ceil_8:
  fixes n :: "32 word"
  assumes "unat n < 2 ^ 31"
  shows "unat (drop_bit 3 n + (if n AND 7 \<noteq> 0 then 1 else 0)) = (unat n + 7) div 8"
proof -
  have "unat (n AND 7) = unat n mod 8" using unat_and_mask [of n 3] by (simp add: mask_eq_exp_minus_1)
  then have z: "n AND 7 = 0 \<longleftrightarrow> unat n mod 8 = 0" by (simp add: word_unat_eq_iff)
  have d: "unat (drop_bit 3 n) = unat n div 8" by (simp only: unat_drop_bit) simp
  show ?thesis
  proof (cases "unat n mod 8 = 0")
    case True
    then show ?thesis using z d by (simp del: unsigned_drop_bit_eq) presburger
  next
    case False
    have "unat (drop_bit 3 n + 1) = unat n div 8 + 1" using assms d by (subst unat_add_small) simp_all
    then show ?thesis using False z by simp presburger
  qed
qed

text \<open>\<^verbatim>\<open>DecodeString\<close> reads back what \<^verbatim>\<open>EncodeString\<close> wrote and stops behind it.\<close>

lemma encode_string_law:
  assumes t: "tree_of s_huffman_table t" and s: "length s < 2 ^ 21"
  shows "\<exists>cs. encode_string lowercase out s h = out @ cs \<and> cs \<noteq> [] \<and>
    (\<forall>rest. decode_string t (cs @ rest) = Inr (Decoded (length cs) (cased lowercase s) rest))"
proof -
  define s' where "s' = cased lowercase s"
  have len: "length s' < 2 ^ 21" using s by (simp add: s'_def)
  have top: "c AND 0x80 = msb" if "drop_bit 7 c = drop_bit 7 msb" "msb = 0 \<or> msb = 0x80" for c msb :: byte
  proof -
    have "bit c 7 = bit msb 7" using arg_cong [OF that(1), of "\<lambda>w. bit w 0"] by (simp add: bit_drop_bit_eq del: drop_bit_numeral_bit1)
    then show ?thesis using that(2) and_bit_eq [of c 7] and_bit_eq [of "0x80 :: byte" 7] by auto
  qed
  show ?thesis
  proof (cases h)
    case False
    have "unat (word_of_nat (length s') :: 32 word) = length s'"
      using len by (simp add: unat_of_nat_less)
    then obtain c cs where e: "encode_integer [] 0 7 (word_of_nat (length s')) = c # cs" "drop_bit 7 c = drop_bit 7 0"
        "\<And>rest. decode_integer (c # cs @ rest) 7 = Inr (Decoded (length (c # cs)) (word_of_nat (length s')) rest)"
      and u: "unat (word_of_nat (length s') :: 32 word) = length s'"
      using encode_integer_law [of 7 0 "word_of_nat (length s')"] len by auto
    have "encode_string lowercase out s h = out @ c # cs @ s'"
      using False e(1) encode_integer_append [of out]
      by (subst encode_string_cased) (simp add: encode_string_def s'_def [symmetric])
    moreover have "decode_string t ((c # cs @ s') @ rest) = Inr (Decoded (length (c # cs @ s')) s' rest)" for rest
      using e(3) [of "s' @ rest"] top [OF e(2)] u by (simp add: decode_string_def)
    ultimately show ?thesis unfolding s'_def [symmetric] by (intro exI [of _ "c # cs @ s'"]) simp
  next
    case True
    define n where "n = foldl (\<lambda>n c. n + word_of_nat (hc_bit_len (s_huffman_table ! unat c))) (0 :: 32 word) s'"
    define l where "l = drop_bit 3 n + (if n AND 7 \<noteq> 0 then 1 else 0)"
    have n: "unat n \<le> 30 * length s'" "unat n = (\<Sum>c\<leftarrow>s'. hc_bit_len (s_huffman_table ! unat c))"
      using bit_len_sum [OF len] by (simp_all only: n_def)
    have l: "unat l = (unat n + 7) div 8" unfolding l_def by (rule ceil_8) (use n(1) len in simp)
    then have "unat l < 10485760" using n(1) len by simp
    then obtain c cs where e: "encode_integer [] 0x80 7 l = c # cs" "drop_bit 7 c = drop_bit 7 0x80"
        "\<And>rest. decode_integer (c # cs @ rest) 7 = Inr (Decoded (length (c # cs)) l rest)"
      using encode_integer_law [of 7 "0x80" l] by (auto simp: mask_eq_exp_minus_1)
    obtain ds k where ds: "he_encode_string (out @ c # cs) s' = (out @ c # cs) @ ds" "k \<le> 7"
        "concat (map byte_bits ds) = text_bits s_huffman_table s' @ replicate k True"
      using he_encode_string_law by blast
    have "length (text_bits s_huffman_table s') = unat n"
      unfolding n(2) by (simp add: text_bits_def length_concat o_def)
    then have len_ds: "unat l = length ds" using l he_encode_string_length [OF ds(1)] by simp
    have "encode_string lowercase out s h = out @ c # cs @ ds"
      using True e(1) encode_integer_append [of out] ds(1)
      by (subst encode_string_cased) (simp add: encode_string_def s'_def [symmetric] n_def [symmetric] l_def [symmetric])
    moreover have "decode_string t ((c # cs @ ds) @ rest) = Inr (Decoded (length (c # cs @ ds)) s' rest)" for rest
      using e(3) [of "ds @ rest"] top [OF e(2)] len_ds hd_decode_string_law [OF t ds(2,3)] by (simp add: decode_string_def)
    ultimately show ?thesis unfolding s'_def [symmetric] by (intro exI [of _ "c # cs @ ds"]) simp
  qed
qed

subsection \<open>Properties\<close>

text \<open>
  (C14) Integer round trip: an integer below the limit of 10 MB that is encoded behind the high bits of
  a byte is decoded again, and the decoder stops behind it; with two bytes or more only if the
  integer does not fit into the prefix.
\<close>

theorem integer_round_trip:
  assumes "1 \<le> p" "p \<le> 7" "msb AND mask p = 0" "unat v < 10 * 1024 * 1024"
  shows "decode_integer (encode_integer [] msb p v @ rest) p =
      Inr (Decoded (length (encode_integer [] msb p v)) v rest) \<and>
    (length (encode_integer [] msb p v) = 1 \<longleftrightarrow> unat v < 2 ^ p - 1)"
proof -
  have v: "unat v < 10485760" using assms(4) by simp
  have p8: "p \<le> 8" using assms(2) by simp
  have "encode_integer_loop [] w \<noteq> []" for w
    by (subst encode_integer_loop.simps) (use encode_integer_loop_append [of "[_]"] in simp)
  then have "length (encode_integer [] msb p v) = 1 \<longleftrightarrow> unat v < 2 ^ p - 1"
    using encode_integer_loop_append [of "[msb OR mask p]"]
    by (simp add: encode_integer_def prefix_mask(1,2,5) [OF p8] Let_def word_less_nat_alt del: push_bit_of_1)
  then show ?thesis using encode_integer_law [OF assms(1-3) v] by auto
qed

theorem integer_round_trip_witness:
  "decode_integer (encode_integer [] 0x40 6 1337 @ [7]) 6 = Inr (Decoded 3 1337 [7]) \<and>
    encode_integer [] 0x40 6 1337 = [0x7f, 0xfa, 0x09]"
proof -
  have e: "encode_integer [] 0x40 6 1337 = [0x7f, 0xfa, 0x09]"
    by (simp add: encode_integer_def encode_integer_loop.simps)
  then show ?thesis
    using integer_round_trip [of 6 "0x40" 1337 "[7]"] by (simp add: mask_eq_exp_minus_1)
qed

text \<open>
  (C13) String round trip: a string of less than 2 MB, written plainly or Huffman coded, is read back
  (in lower case, if it is a name) and the decoder stops behind it.
\<close>

theorem string_round_trip:
  assumes "length s < 2 ^ 21"
  shows "\<exists>tree cs. s_huffman_tree = Inr tree \<and> encode_string lowercase out s huffman = out @ cs \<and>
    decode_string tree (cs @ rest) = Inr (Decoded (length cs) (if lowercase then map to_lower s else s) rest)"
proof -
  obtain tree where tree: "s_huffman_tree = Inr tree" "tree_of s_huffman_table tree" using s_huffman_tree_law by blast
  show ?thesis using encode_string_law [OF tree(2) assms, of lowercase out huffman] tree(1)
    by (auto simp: cased_def tolower_eq)
qed

theorem string_round_trip_witness:
  "\<exists>tree cs. s_huffman_tree = Inr tree \<and> encode_string True [1] (bytes_of ''Via'') True = 1 # cs \<and>
    decode_string tree (cs @ [9]) = Inr (Decoded (length cs) (bytes_of ''via'') [9])"
proof -
  have "map to_lower (bytes_of ''Via'') = bytes_of ''via''" by (simp add: bytes_of_def to_lower_word)
  then show ?thesis
    using string_round_trip [of "bytes_of ''Via''" True "[1]" True "[9]"] by (simp add: bytes_of_def)
qed

lemma decode_integer_loop_bound:
  "decode_integer_loop iter tmp m k = Inr (Decoded n v rest) \<Longrightarrow> unat v < 10485760"
proof (induction iter tmp m k rule: decode_integer_loop.induct)
  case (2 c iter tmp m k)
  let ?t = "tmp + push_bit m (ucast (c AND 0x7f))"
  show ?case
  proof (cases "c AND 0x80 \<noteq> 0 \<and> ?t < MAX_HPACK_INTEGER")
    case True
    then show ?thesis using 2 by (simp split: if_splits)
  next
    case False
    then have "\<not> ?t \<ge> MAX_HPACK_INTEGER" "v = ucast ?t" using 2(2) by (auto simp: Let_def split: if_splits)
    then have "unat ?t < 10485760" "unat v = unat ?t mod 2 ^ 32"
      by (simp_all add: not_le word_less_nat_alt unat_MAX_HPACK_INTEGER unat_ucast_mod)
    then show ?thesis by simp
  qed
qed simp

text \<open>
  (C25) What \<^verbatim>\<open>DecodeInteger\<close> returns is below the limit, and it has taken exactly the bytes it reports.
\<close>

theorem decode_integer_bounded:
  assumes "p \<le> 7" "decode_integer iter p = Inr (Decoded n v rest)"
  shows "unat v < 10 * 1024 * 1024 \<and> iter = take n iter @ rest \<and> 1 \<le> n"
proof -
  obtain used where "iter = used @ rest" "used \<noteq> []" "n = length used" using decode_integer_used [OF assms(2)] by blast
  then have "iter = take n iter @ rest" "1 \<le> n" by (simp_all add: Suc_le_eq)
  moreover have "unat v < 10485760"
  proof (cases iter)
    case (Cons c iter')
    let ?t = "ucast (c AND ucast ((push_bit p 1 :: 32 word) - 1)) :: 64 word"
    show ?thesis
    proof (cases "?t < ucast ((push_bit p 1 :: 32 word) - 1)")
      case True
      then have "v = ucast ?t" using assms(2) Cons by (simp add: decode_integer.simps Let_def)
      then have "unat v \<le> unat (c AND ucast ((push_bit p 1 :: 32 word) - 1))"
        by (simp only: unat_ucast_mod) (simp add: mod_less_eq_dividend)
      also have "\<dots> < 256" by (rule unat_byte_less)
      finally show ?thesis by simp
    next
      case False
      then show ?thesis using assms(2) Cons decode_integer_loop_bound
        by (simp add: decode_integer.simps Let_def)
    qed
  qed (use assms(2) in \<open>simp add: decode_integer.simps\<close>)
  ultimately show ?thesis by simp
qed

theorem decode_integer_bounded_witness:
  "decode_integer [0xff, 0x9a, 0x0a, 7] 7 = Inr (Decoded 3 1433 [7]) \<and> unat (1433 :: 32 word) < 10 * 1024 * 1024"
proof -
  have "decode_integer [0xff, 0x9a, 0x0a, 7] 7 = Inr (Decoded 3 1433 [7])"
    by (simp add: decode_integer.simps MAX_HPACK_INTEGER_def)
  then show ?thesis using decode_integer_bounded [of 7 "[0xff, 0x9a, 0x0a, 7]" 3 1433 "[7]"] by simp
qed

lemma decode_integer_loop_overflow:
  "64 \<le> m + 7 * k \<Longrightarrow> tmp < MAX_HPACK_INTEGER \<Longrightarrow>
   decode_integer_loop (replicate k 0x80 @ c # rest) tmp m n = Inl Undefined"
  by (induction k arbitrary: m n) simp_all

text \<open>
  (C26) A peer can make \<^verbatim>\<open>DecodeInteger\<close> shift by more than the width of a \<^verbatim>\<open>uint64_t\<close>, which is undefined:
  bytes that add nothing but have the continuation bit set keep the loop going, since it is bounded
  by the value only.
\<close>

theorem decode_integer_shift_overflow:
  "decode_integer (0xff # replicate 10 0x80 @ c # rest) 7 = Inl Undefined"
  using decode_integer_loop_overflow [of 0 10 127 c rest 1] by (simp add: decode_integer.simps MAX_HPACK_INTEGER_def)

end
