(* ===== verification/Hpack.thy ===== *)
theory Hpack
  imports Hpack_Prims Index_Table
begin

text \<open>
  The HPACK encoder and decoder (\<^verbatim>\<open>HPacker\<close> in src/flare/rpc/details/hpack.h and hpack.cc).  A packer
  owns two dynamic tables, one for the headers it sends and one for the headers it receives; the
  static table and the Huffman tree are shared by all packers of the process and are built once.
  Dereferencing a table before \<^verbatim>\<open>Init\<close> is undefined behaviour.
\<close>

subsection \<open>Model\<close>

record hpack_globals =
  g_huffman_tree :: huffman_tree
  g_static_table :: index_table

definition static_table_options :: index_table_options where
  "static_table_options =
     \<lparr>opt_max_size = 4294967295, opt_start_index = 1,
      opt_static_table = map (\<lambda>(n, v). \<lparr>hdr_name = bytes_of n, hdr_value = bytes_of v\<rparr>) s_static_headers,
      opt_need_indexes = True\<rparr>"

text \<open>\<^verbatim>\<open>CreateStaticTableOrDie\<close>; the process exits if the table cannot be initialised.\<close>

definition create_static_table :: "hpack_globals run" where
  "create_static_table =
     bindE (build_tree s_huffman_table) (\<lambda>tree.
     bindE (it_init static_table_options it_new) (\<lambda>(ok, table).
       if ok then Inr \<lparr>g_huffman_tree = tree, g_static_table = table\<rparr> else Inl CheckFailed))"

datatype header_index_policy = HPACK_INDEX_HEADER | HPACK_NOT_INDEX_HEADER | HPACK_NEVER_INDEX_HEADER

record hpack_options =
  index_policy :: header_index_policy
  encode_name :: bool
  encode_value :: bool

definition hpack_options_new :: hpack_options where
  "hpack_options_new = \<lparr>index_policy = HPACK_INDEX_HEADER, encode_name = False, encode_value = False\<rparr>"

record hpacker =
  hp_encode_table :: "index_table option"
  hp_decode_table :: "index_table option"

definition hpacker_new :: hpacker where
  "hpacker_new = \<lparr>hp_encode_table = None, hp_decode_table = None\<rparr>"

definition deref_table :: "index_table option \<Rightarrow> index_table run" where
  "deref_table p = (case p of None \<Rightarrow> Inl Undefined | Some t \<Rightarrow> Inr t)"

definition dynamic_table_options :: "hpack_globals \<Rightarrow> nat \<Rightarrow> bool \<Rightarrow> index_table_options" where
  "dynamic_table_options g max_table_size need_indexes =
     \<lparr>opt_max_size = max_table_size, opt_start_index = word_of_int (end_index (g_static_table g)),
      opt_static_table = [], opt_need_indexes = need_indexes\<rparr>"

definition hp_init :: "hpack_globals \<Rightarrow> nat \<Rightarrow> hpacker \<Rightarrow> (bool \<times> hpacker) run" where
  "hp_init g max_table_size p =
     bindE (checkE (hp_encode_table p = None)) (\<lambda>_.
     bindE (checkE (hp_decode_table p = None)) (\<lambda>_.
     bindE (it_init (dynamic_table_options g max_table_size True) it_new) (\<lambda>(ok, t).
       let p = p\<lparr>hp_encode_table := Some t\<rparr> in
       if \<not> ok then Inr (False, p)
       else
         bindE (it_init (dynamic_table_options g max_table_size False) it_new) (\<lambda>(ok, t).
           Inr (ok, p\<lparr>hp_decode_table := Some t\<rparr>)))))"

definition find_header_from_index_table :: "hpack_globals \<Rightarrow> header \<Rightarrow> hpacker \<Rightarrow> int run" where
  "find_header_from_index_table g h p =
     bindE (get_index_of_header h (g_static_table g)) (\<lambda>index.
       if index > 0 then Inr index
       else bindE (deref_table (hp_encode_table p)) (get_index_of_header h))"

definition find_name_from_index_table :: "hpack_globals \<Rightarrow> bytes \<Rightarrow> hpacker \<Rightarrow> int run" where
  "find_name_from_index_table g n p =
     bindE (get_index_of_name n (g_static_table g)) (\<lambda>index.
       if index > 0 then Inr index
       else bindE (deref_table (hp_encode_table p)) (get_index_of_name n))"

text \<open>The part of \<^verbatim>\<open>Encode\<close> behind the lookup of the whole header.\<close>

definition hp_encode_literal ::
  "hpack_globals \<Rightarrow> bytes \<Rightarrow> header \<Rightarrow> hpack_options \<Rightarrow> hpacker \<Rightarrow> (bytes \<times> hpacker) run" where
  "hp_encode_literal g out header options p =
     bindE (find_name_from_index_table g (hdr_name header) p) (\<lambda>name_index.
     bindE (if index_policy options = HPACK_INDEX_HEADER
            then bindE (deref_table (hp_encode_table p)) (\<lambda>t.
                   mapE (\<lambda>t. p\<lparr>hp_encode_table := Some t\<rparr>) (add_header header t))
            else Inr p) (\<lambda>p.
       let out = (case index_policy options of
                    HPACK_INDEX_HEADER \<Rightarrow> encode_integer out 0x40 6 (word_of_int name_index)
                  | HPACK_NOT_INDEX_HEADER \<Rightarrow> encode_integer out 0x00 4 (word_of_int name_index)
                  | HPACK_NEVER_INDEX_HEADER \<Rightarrow> encode_integer out 0x10 4 (word_of_int name_index));
           out = (if name_index = 0 then encode_string True out (hdr_name header) (encode_name options) else out)
       in Inr (encode_string False out (hdr_value header) (encode_value options), p)))"

definition hp_encode ::
  "hpack_globals \<Rightarrow> bytes \<Rightarrow> header \<Rightarrow> hpack_options \<Rightarrow> hpacker \<Rightarrow> (bytes \<times> hpacker) run" where
  "hp_encode g out header options p =
     (if index_policy options \<noteq> HPACK_NEVER_INDEX_HEADER then
        bindE (find_header_from_index_table g header p) (\<lambda>index.
          if index > 0 then Inr (encode_integer out 0x80 7 (word_of_int index), p)
          else hp_encode_literal g out header options p)
      else hp_encode_literal g out header options p)"

definition hp_header_at :: "hpack_globals \<Rightarrow> int \<Rightarrow> hpacker \<Rightarrow> header option run" where
  "hp_header_at g index p =
     bindE (deref_table (hp_decode_table p)) (\<lambda>t.
       if index \<ge> it_start_index t then header_at index t else header_at index (g_static_table g))"

text \<open>The number of bytes and the header; the iterator is at the third component.\<close>

definition decode_with_known_prefix ::
  "hpack_globals \<Rightarrow> bytes \<Rightarrow> nat \<Rightarrow> hpacker \<Rightarrow> header decoding run" where
  "decode_with_known_prefix g iter prefix_size p =
     bindE (decode_integer iter prefix_size) (\<lambda>r.
       case r of
         Malformed \<Rightarrow> Inr Malformed
       | Incomplete \<Rightarrow> Inr Malformed
       | Decoded index_bytes index iter \<Rightarrow>
           bindE (if sint index \<noteq> 0
                  then mapE (\<lambda>h. case h of None \<Rightarrow> Malformed | Some h \<Rightarrow> Decoded 0 (hdr_name h) iter)
                         (hp_header_at g (sint index) p)
                  else mapE (\<lambda>r. case r of
                               Decoded name_bytes name iter \<Rightarrow> Decoded name_bytes (tolower name) iter
                             | _ \<Rightarrow> Malformed)
                         (decode_string (g_huffman_tree g) iter)) (\<lambda>r.
             case r of
               Malformed \<Rightarrow> Inr Malformed
             | Incomplete \<Rightarrow> Inr Malformed
             | Decoded name_bytes name iter \<Rightarrow>
                 mapE (\<lambda>r. case r of
                         Decoded value_bytes val iter \<Rightarrow>
                           Decoded (index_bytes + name_bytes + value_bytes) \<lparr>hdr_name = name, hdr_value = val\<rparr> iter
                       | _ \<Rightarrow> Malformed)
                   (decode_string (g_huffman_tree g) iter)))"

definition DEFAULT_HEADER_TABLE_SIZE :: "32 word" where
  "DEFAULT_HEADER_TABLE_SIZE = 4096"

text \<open>
  \<^verbatim>\<open>Decode\<close> on an iterator.  The recursive call behind a table size update starts behind the bytes of
  the update.
\<close>

function hp_decode :: "hpack_globals \<Rightarrow> bytes \<Rightarrow> hpacker \<Rightarrow> (header decoding \<times> hpacker) run" where
  "hp_decode g iter p =
     (case iter of
        [] \<Rightarrow> Inr (Incomplete, p)
      | first_byte # _ \<Rightarrow>
          let entry_type = unat (drop_bit 4 first_byte) in
          if 8 \<le> entry_type then
            bindE (decode_integer iter 7) (\<lambda>r.
              case r of
                Malformed \<Rightarrow> Inr (Malformed, p)
              | Incomplete \<Rightarrow> Inr (Incomplete, p)
              | Decoded index_bytes index iter \<Rightarrow>
                  mapE (\<lambda>h. case h of
                          None \<Rightarrow> (Malformed, p)
                        | Some h \<Rightarrow> (Decoded index_bytes h iter, p))
                    (hp_header_at g (sint index) p))
          else if 4 \<le> entry_type then
            bindE (decode_with_known_prefix g iter 6 p) (\<lambda>r.
              case r of
                Decoded bytes_consumed h iter \<Rightarrow>
                  bindE (deref_table (hp_decode_table p)) (\<lambda>t.
                    mapE (\<lambda>t. (r, p\<lparr>hp_decode_table := Some t\<rparr>)) (add_header h t))
              | _ \<Rightarrow> Inr (Malformed, p))
          else if 2 \<le> entry_type then
            bindE (decode_integer iter 5) (\<lambda>r.
              case r of
                Malformed \<Rightarrow> Inr (Malformed, p)
              | Incomplete \<Rightarrow> Inr (Incomplete, p)
              | Decoded read_bytes max_size iter \<Rightarrow>
                  if max_size > DEFAULT_HEADER_TABLE_SIZE then Inr (Malformed, p)
                  else
                    bindE (deref_table (hp_decode_table p)) (\<lambda>t.
                    bindE (reset_max_size (unat max_size) t) (\<lambda>t.
                      hp_decode g iter (p\<lparr>hp_decode_table := Some t\<rparr>))))
          else mapE (\<lambda>r. (r, p)) (decode_with_known_prefix g iter 4 p))"
  by pat_completeness auto
termination
  by (relation "measure (\<lambda>(_, iter, _). length iter)") (auto dest: decode_integer_shorter)

declare hp_decode.simps [simp del]

text \<open>\<^verbatim>\<open>Decode\<close> on a buffer: it pops as many bytes as the return value says.\<close>

definition hp_decode_source :: "hpack_globals \<Rightarrow> bytes \<Rightarrow> hpacker \<Rightarrow> (header decoding \<times> bytes \<times> hpacker) run" where
  "hp_decode_source g source p =
     mapE (\<lambda>(r, p). case r of Decoded nc h iter \<Rightarrow> (r, drop nc source, p) | _ \<Rightarrow> (r, source, p))
       (hp_decode g source p)"

subsection \<open>The tables of both sides\<close>

text \<open>Names travel in lower case.\<close>

definition lower_hdr :: "header \<Rightarrow> header" where
  "lower_hdr h = h\<lparr>hdr_name := tolower (hdr_name h)\<rparr>"

lemma lower_hdr_simps [simp]:
  "hdr_name (lower_hdr h) = tolower (hdr_name h)" "hdr_value (lower_hdr h) = hdr_value h"
  "header_size (lower_hdr h) = header_size h" "hdr_ok (lower_hdr h) = hdr_ok h"
  by (simp_all add: lower_hdr_def header_size_def hdr_ok_def)

lemma table_size_lower [simp]: "table_size (map lower_hdr xs) = table_size xs"
  by (simp add: table_size_def o_def)

lemma evicted_lower: "evicted room (map lower_hdr xs) = map lower_hdr (evicted room xs)"
  by (induction xs) simp_all

lemma table_add_lower: "table_add n (lower_hdr h) (map lower_hdr xs) = map lower_hdr (table_add n h xs)"
  by (simp add: table_add_def evicted_lower)

definition static_list :: "header list" where
  "static_list = map (\<lambda>(n, v). \<lparr>hdr_name = bytes_of n, hdr_value = bytes_of v\<rparr>) s_static_headers"

definition globals_ok :: "hpack_globals \<Rightarrow> bool" where
  "globals_ok g \<longleftrightarrow>
     tree_of s_huffman_table (g_huffman_tree g) \<and> it_inv (g_static_table g) \<and>
     it_list (g_static_table g) = rev static_list \<and> it_start_index (g_static_table g) = 1 \<and>
     it_need_indexes (g_static_table g)"

lemma static_list_facts:
  "length static_list = 61" "table_size static_list \<le> 4294967295"
  "list_all (\<lambda>h. hdr_ok h \<and> tolower (hdr_name h) = hdr_name h) static_list"
  by (simp_all add: static_list_def s_static_headers_def bytes_of_def header_size_def hdr_ok_def no_nul_def
      tolower_eq to_lower_word)

lemma static_lower: "h \<in> set static_list \<Longrightarrow> tolower (hdr_name h) = hdr_name h"
  using static_list_facts(3) by (auto simp: list_all_iff)

lemma create_static_table_law: "\<exists>g. create_static_table = Inr g \<and> globals_ok g"
proof -
  obtain tree where tree: "build_tree s_huffman_table = Inr tree" "tree_of s_huffman_table tree"
    using s_huffman_tree_law by (auto simp: s_huffman_tree_def)
  have opts: "opt_static_table static_table_options = static_list" "opt_start_index static_table_options = 1"
      "opt_need_indexes static_table_options"
    by (simp_all add: static_table_options_def static_list_def)
  have "static_list \<noteq> []" using static_list_facts(1) by auto
  moreover have "\<forall>h \<in> set static_list. hdr_ok h" using static_list_facts(3) by (auto simp: list_all_iff)
  ultimately obtain t where t: "it_init static_table_options it_new = Inr (True, t)" "it_inv t"
      "it_list t = rev static_list" "it_start_index t = sint (ucast (1 :: 64 word) :: 32 word)" "it_need_indexes t"
    using it_init_static [of static_table_options] opts static_list_facts(1,2) by auto
  show ?thesis
    by (intro exI [of _ "\<lparr>g_huffman_tree = tree, g_static_table = t\<rparr>"])
      (use tree t in \<open>simp add: create_static_table_def globals_ok_def\<close>)
qed

text \<open>
  A sender's table for encoding and a receiver's table for decoding that have seen the same headers;
  both can take \<open>k\<close> more additions before their counters leave the range of \<^verbatim>\<open>int\<close>.
\<close>

definition table_ok :: "nat \<Rightarrow> index_table \<Rightarrow> bool" where
  "table_ok k t \<longleftrightarrow>
     it_inv t \<and> it_start_index t = 62 \<and> unat (it_add_times t) + k < 2 ^ 31 \<and> it_max_size t < 2 ^ 28 \<and>
     it_max_size t div 34 \<le> unat (bq_cap (it_header_queue t)) \<and> table_size (it_list t) \<le> it_max_size t \<and>
     (\<forall>h \<in> set (it_list t). hdr_value h \<noteq> [])"

definition in_sync :: "nat \<Rightarrow> hpacker \<Rightarrow> hpacker \<Rightarrow> bool" where
  "in_sync k e d \<longleftrightarrow>
     (\<exists>te td. hp_encode_table e = Some te \<and> hp_decode_table d = Some td \<and> it_need_indexes te \<and> \<not> it_need_indexes td \<and>
        table_ok k te \<and> table_ok k td \<and> it_max_size td = it_max_size te \<and>
        it_list td = map lower_hdr (it_list te))"

lemma table_ok_length:
  assumes "table_ok k t" shows "length (it_list t) < 8000000"
proof -
  have "34 * length (it_list t) \<le> table_size (it_list t)"
    using assms it_invD(2) by (intro table_size_values) (auto simp: table_ok_def hdr_ok_def)
  then show ?thesis using assms by (simp add: table_ok_def)
qed

lemma table_ok_add:
  assumes t: "table_ok (Suc k) t" and h: "hdr_ok h" "hdr_value h \<noteq> []"
  shows "\<exists>t'. add_header h t = Inr t' \<and> table_ok k t' \<and> it_max_size t' = it_max_size t \<and>
    it_need_indexes t' = it_need_indexes t \<and> it_list t' = table_add (it_max_size t) h (it_list t)"
proof -
  have inv: "it_inv t" using t by (simp add: table_ok_def)
  have "length (table_add (it_max_size t) h (it_list t)) \<le> unat (bq_cap (it_header_queue t))"
    using t h it_invD(2) [OF inv] by (intro table_add_fits) (auto simp: table_ok_def)
  moreover have "unat (it_add_times t) + 1 < 2 ^ 31" using t by (simp add: table_ok_def)
  ultimately obtain t' where t': "add_header h t = Inr t'" "it_inv t'" "it_frame t t'"
      "unat (it_add_times t') \<le> unat (it_add_times t) + 1" "it_list t' = table_add (it_max_size t) h (it_list t)"
    using add_header_law [OF inv h(1)] by blast
  have "\<forall>x \<in> set (it_list t'). hdr_value x \<noteq> []"
    using t h set_table_add [of "it_max_size t" h "it_list t"] by (auto simp: t'(5) table_ok_def)
  then have "table_ok k t'"
    using t t' table_size_add [of "it_max_size t" h "it_list t"] by (simp add: table_ok_def it_frame_def)
  then show ?thesis using t' by (auto simp: it_frame_def)
qed

lemma table_ok_weaken: "table_ok (Suc k) t \<Longrightarrow> table_ok k t"
  by (simp add: table_ok_def)

subsection \<open>Indexes\<close>

lemma name_index_entry:
  assumes "it_inv t" "it_need_indexes t" "no_nul n" "0 \<le> it_start_index t" "it_start_index t + int (length (it_list t)) < 2 ^ 31"
  shows "get_index_of_name n t = Inr 0 \<or>
    (\<exists>j < length (it_list t). get_index_of_name n t = Inr (it_start_index t + int j) \<and>
       tolower (hdr_name (it_list t ! (length (it_list t) - j - 1))) = tolower n)"
proof (cases "name_pos n (it_list t)")
  case None
  then show ?thesis using get_index_of_name_law [OF assms] by simp
next
  case (Some i)
  then have i: "i < length (it_list t)" "tolower (hdr_name (it_list t ! i)) = tolower n"
    by (auto simp: name_pos_def dest: latest_SomeD)
  then show ?thesis
    using get_index_of_name_law [OF assms] Some by (intro disjI2 exI [of _ "length (it_list t) - i - 1"]) auto
qed

lemma header_index_entry:
  assumes "it_inv t" "it_need_indexes t" "key_ok h" "0 \<le> it_start_index t" "it_start_index t + int (length (it_list t)) < 2 ^ 31"
  shows "get_index_of_header h t = Inr 0 \<or>
    (\<exists>j < length (it_list t). get_index_of_header h t = Inr (it_start_index t + int j) \<and>
       lower_hdr (it_list t ! (length (it_list t) - j - 1)) = lower_hdr h)"
proof (cases "header_pos h (it_list t)")
  case None
  then show ?thesis using get_index_of_header_law [OF assms] by simp
next
  case (Some i)
  then have i: "i < length (it_list t)" "lower_hdr (it_list t ! i) = lower_hdr h"
    by (auto simp: header_pos_def lower_hdr_def dest!: latest_SomeD split: if_splits)
  then show ?thesis
    using get_index_of_header_law [OF assms] Some by (intro disjI2 exI [of _ "length (it_list t) - i - 1"]) auto
qed

text \<open>An index is 0 or leads the receiver to the entry that the sender found.\<close>

definition leads_to :: "hpack_globals \<Rightarrow> hpacker \<Rightarrow> int \<Rightarrow> (header \<Rightarrow> bool) \<Rightarrow> bool" where
  "leads_to g d i P \<longleftrightarrow> 0 \<le> i \<and> i < 10485760 \<and> (i \<noteq> 0 \<longrightarrow> (\<exists>h. hp_header_at g i d = Inr (Some h) \<and> P h))"

lemma leads_to_static:
  assumes g: "globals_ok g" and d: "in_sync k e d" and j: "j < 61"
    and P: "P (rev static_list ! (61 - j - 1))"
  shows "leads_to g d (1 + int j) P"
proof -
  obtain td where td: "hp_decode_table d = Some td" "it_start_index td = 62"
    using d by (auto simp: in_sync_def table_ok_def)
  have "header_at (it_start_index (g_static_table g) + int j) (g_static_table g) =
      Inr (Some (rev static_list ! (61 - j - 1)))"
    using g j by (subst header_at_law) (auto simp: globals_ok_def static_list_facts(1))
  then show ?thesis
    using g td j P by (simp add: leads_to_def hp_header_at_def deref_table_def globals_ok_def)
qed

lemma leads_to_dynamic:
  assumes d: "hp_decode_table d = Some td" "table_ok k td" and j: "j < length (it_list td)"
    and P: "P (it_list td ! (length (it_list td) - j - 1))"
  shows "leads_to g d (62 + int j) P"
proof -
  have len: "length (it_list td) < 8000000" by (rule table_ok_length [OF d(2)])
  have td: "it_inv td" "it_start_index td = 62" using d(2) by (auto simp: table_ok_def)
  have "header_at (it_start_index td + int j) td = Inr (Some (it_list td ! (length (it_list td) - j - 1)))"
    using td(1) j len by (subst header_at_law) auto
  then show ?thesis using d(1) td(2) j P len by (simp add: leads_to_def hp_header_at_def deref_table_def)
qed

lemma find_leads:
  assumes g: "globals_ok g" and s: "in_sync k e d"
    and static: "get (g_static_table g) = Inr 0 \<or>
      (\<exists>j < 61. get (g_static_table g) = Inr (1 + int j) \<and> P (rev static_list ! (61 - j - 1)))"
    and dynamic: "\<And>te. table_ok k te \<Longrightarrow> it_need_indexes te \<Longrightarrow> get te = Inr 0 \<or>
      (\<exists>j < length (it_list te). get te = Inr (62 + int j) \<and> P (lower_hdr (it_list te ! (length (it_list te) - j - 1))))"
  shows "\<exists>i. bindE (get (g_static_table g)) (\<lambda>index. if index > 0 then Inr index
      else bindE (deref_table (hp_encode_table e)) get) = Inr i \<and> leads_to g d i P"
  using static
proof (elim disjE exE conjE)
  fix j assume j: "j < 61" "get (g_static_table g) = Inr (1 + int j)" "P (rev static_list ! (61 - j - 1))"
  then show ?thesis using leads_to_static [OF g s j(1), of P] by (intro exI [of _ "1 + int j"]) simp
next
  assume none: "get (g_static_table g) = Inr 0"
  obtain te td where t: "hp_encode_table e = Some te" "hp_decode_table d = Some td" "it_need_indexes te"
      "table_ok k te" "table_ok k td" "it_list td = map lower_hdr (it_list te)"
    using s by (auto simp: in_sync_def)
  show ?thesis
    using dynamic [OF t(4,3)]
  proof (elim disjE exE conjE)
    assume "get te = Inr 0"
    then show ?thesis using none t(1) by (intro exI [of _ 0]) (simp add: deref_table_def leads_to_def)
  next
    fix j assume j: "j < length (it_list te)" "get te = Inr (62 + int j)"
      "P (lower_hdr (it_list te ! (length (it_list te) - j - 1)))"
    have "leads_to g d (62 + int j) P"
      by (rule leads_to_dynamic [OF t(2,5)]) (use j in \<open>auto simp: t(6)\<close>)
    then show ?thesis using none t(1) j(2) by (intro exI [of _ "62 + int j"]) (simp add: deref_table_def)
  qed
qed

lemma static_lower_hdr:
  assumes "j < 61" shows "lower_hdr (rev static_list ! (61 - j - 1)) = rev static_list ! (61 - j - 1)"
proof -
  have "61 - j - 1 < length (rev static_list)" using assms by (simp add: static_list_facts(1))
  then have "rev static_list ! (61 - j - 1) \<in> set (rev static_list)" by (rule nth_mem)
  then show ?thesis using static_lower by (simp add: lower_hdr_def)
qed

lemma find_name_law:
  assumes g: "globals_ok g" and s: "in_sync k e d" and n: "no_nul n"
  shows "\<exists>i. find_name_from_index_table g n e = Inr i \<and> leads_to g d i (\<lambda>h. hdr_name h = tolower n)"
  unfolding find_name_from_index_table_def
proof (rule find_leads [OF g s])
  have G: "it_inv (g_static_table g)" "it_list (g_static_table g) = rev static_list"
      "it_start_index (g_static_table g) = 1" "it_need_indexes (g_static_table g)"
    using g by (simp_all add: globals_ok_def)
  have "hdr_name (rev static_list ! (61 - j - 1)) = tolower (hdr_name (rev static_list ! (61 - j - 1)))" if "j < 61" for j
    using arg_cong [OF static_lower_hdr [OF that], of hdr_name] by simp
  then show "get_index_of_name n (g_static_table g) = Inr 0 \<or> (\<exists>j < 61. get_index_of_name n (g_static_table g) = Inr (1 + int j) \<and>
      hdr_name (rev static_list ! (61 - j - 1)) = tolower n)"
    using name_index_entry [OF G(1,4) n] by (auto simp: G(2,3) static_list_facts(1))
next
  fix te assume te: "table_ok k te" "it_need_indexes te"
  then have "it_inv te" "it_start_index te = 62" by (auto simp: table_ok_def)
  with name_index_entry [OF _ te(2) n] table_ok_length [OF te(1)]
  show "get_index_of_name n te = Inr 0 \<or> (\<exists>j < length (it_list te). get_index_of_name n te = Inr (62 + int j) \<and>
      hdr_name (lower_hdr (it_list te ! (length (it_list te) - j - 1))) = tolower n)" by simp
qed

lemma find_header_law:
  assumes g: "globals_ok g" and s: "in_sync k e d" and h: "key_ok h"
  shows "\<exists>i. find_header_from_index_table g h e = Inr i \<and> leads_to g d i (\<lambda>x. x = lower_hdr h)"
  unfolding find_header_from_index_table_def
proof (rule find_leads [OF g s])
  have G: "it_inv (g_static_table g)" "it_list (g_static_table g) = rev static_list"
      "it_start_index (g_static_table g) = 1" "it_need_indexes (g_static_table g)"
    using g by (simp_all add: globals_ok_def)
  show "get_index_of_header h (g_static_table g) = Inr 0 \<or> (\<exists>j < 61. get_index_of_header h (g_static_table g) = Inr (1 + int j) \<and>
      rev static_list ! (61 - j - 1) = lower_hdr h)"
    using header_index_entry [OF G(1,4) h] static_lower_hdr by (auto simp: G(2,3) static_list_facts(1))
next
  fix te assume te: "table_ok k te" "it_need_indexes te"
  then have "it_inv te" "it_start_index te = 62" by (auto simp: table_ok_def)
  with header_index_entry [OF _ te(2) h] table_ok_length [OF te(1)]
  show "get_index_of_header h te = Inr 0 \<or> (\<exists>j < length (it_list te). get_index_of_header h te = Inr (62 + int j) \<and>
      lower_hdr (it_list te ! (length (it_list te) - j - 1)) = lower_hdr h)" by simp
qed

subsection \<open>One header\<close>

lemma index_word:
  assumes "0 \<le> i" "i < 10485760"
  shows "unat (word_of_int i :: 32 word) = nat i" "sint (word_of_int i :: 32 word) = i"
proof -
  have u: "uint (word_of_int i :: 32 word) = i"
    using assms by (simp add: uint_word_of_int_eq take_bit_int_eq_self)
  then show "unat (word_of_int i :: 32 word) = nat i" by (metis nat_uint_eq)
  show "sint (word_of_int i :: 32 word) = i" using u assms by (simp add: sint_small)
qed

text \<open>What is written for the name of a literal is read back as the name.\<close>

lemma decode_literal:
  assumes g: "globals_ok g" and i: "leads_to g d i (\<lambda>h. hdr_name h = tolower name)"
    and p: "1 \<le> p" "p \<le> 7" "msb AND mask p = 0"
    and len: "length name < 2 ^ 21" "length val < 2 ^ 21"
  shows "\<exists>c cs. drop_bit p c = drop_bit p msb \<and>
    (let o1 = encode_integer out msb p (word_of_int i);
         o2 = (if i = 0 then encode_string True o1 name hn else o1)
     in encode_string False o2 val hv) = out @ c # cs \<and>
    (\<forall>rest. decode_with_known_prefix g (c # cs @ rest) p d =
       Inr (Decoded (length (c # cs)) \<lparr>hdr_name = tolower name, hdr_value = val\<rparr> rest))"
proof -
  have tree: "tree_of s_huffman_table (g_huffman_tree g)" using g by (simp add: globals_ok_def)
  have w: "unat (word_of_int i :: 32 word) < 10485760" "sint (word_of_int i :: 32 word) = i"
    using i index_word by (auto simp: leads_to_def)
  obtain c js where e: "encode_integer [] msb p (word_of_int i) = c # js" "drop_bit p c = drop_bit p msb"
      "\<And>rest. decode_integer (c # js @ rest) p = Inr (Decoded (length (c # js)) (word_of_int i) rest)"
    using encode_integer_law [OF p w(1)] by auto
  have o1: "encode_integer out msb p (word_of_int i) = out @ c # js"
    using encode_integer_append [of out] e(1) by simp
  show ?thesis
  proof (cases "i = 0")
    case True
    obtain ns where ns: "encode_string True (out @ c # js) name hn = (out @ c # js) @ ns" "ns \<noteq> []"
        "\<And>rest. decode_string (g_huffman_tree g) (ns @ rest) = Inr (Decoded (length ns) (tolower name) rest)"
      using encode_string_law [OF tree len(1), of True "out @ c # js" hn] by (auto simp: cased_def)
    obtain vs where vs: "encode_string False (out @ c # js @ ns) val hv = (out @ c # js @ ns) @ vs"
        "\<And>rest. decode_string (g_huffman_tree g) (vs @ rest) = Inr (Decoded (length vs) val rest)"
      using encode_string_law [OF tree len(2), of False "out @ c # js @ ns" hv] by (auto simp: cased_def)
    have "decode_with_known_prefix g (c # (js @ ns @ vs) @ rest) p d =
        Inr (Decoded (length (c # js @ ns @ vs)) \<lparr>hdr_name = tolower name, hdr_value = val\<rparr> rest)" for rest
      using e(3) [of "ns @ vs @ rest"] ns(3) [of "vs @ rest"] vs(2) [of rest] w(2) True
      by (simp add: decode_with_known_prefix_def)
    then show ?thesis using e(2) ns(1) vs(1) True
      unfolding o1 by (intro exI [of _ c] exI [of _ "js @ ns @ vs"]) simp
  next
    case False
    then obtain x where x: "hp_header_at g i d = Inr (Some x)" "hdr_name x = tolower name"
      using i by (auto simp: leads_to_def)
    obtain vs where vs: "encode_string False (out @ c # js) val hv = (out @ c # js) @ vs"
        "\<And>rest. decode_string (g_huffman_tree g) (vs @ rest) = Inr (Decoded (length vs) val rest)"
      using encode_string_law [OF tree len(2), of False "out @ c # js" hv] by (auto simp: cased_def)
    have "decode_with_known_prefix g (c # (js @ vs) @ rest) p d =
        Inr (Decoded (length (c # js @ vs)) \<lparr>hdr_name = tolower name, hdr_value = val\<rparr> rest)" for rest
      using e(3) [of "vs @ rest"] vs(2) [of rest] w(2) False x
      by (simp add: decode_with_known_prefix_def)
    then show ?thesis using e(2) vs(1) False
      unfolding o1 by (intro exI [of _ c] exI [of _ "js @ vs"]) simp
  qed
qed

lemma entry_type:
  fixes c msb :: byte
  assumes "drop_bit p c = drop_bit p msb"
  shows "unat c div 2 ^ p = unat msb div 2 ^ p"
  using arg_cong [OF assms, of unat] by (simp only: unat_drop_bit)

lemma lower_hdr_eq: "\<lparr>hdr_name = tolower (hdr_name h), hdr_value = hdr_value h\<rparr> = lower_hdr h"
  by (cases h) (simp add: lower_hdr_def)

lemma in_sync_weaken: "in_sync (Suc k) e d \<Longrightarrow> in_sync k e d"
  using table_ok_weaken by (auto simp: in_sync_def)

lemma in_sync_add:
  assumes s: "in_sync (Suc k) e d" and h: "hdr_ok h" "hdr_value h \<noteq> []"
  shows "\<exists>te te' td td'. hp_encode_table e = Some te \<and> add_header h te = Inr te' \<and>
    hp_decode_table d = Some td \<and> add_header (lower_hdr h) td = Inr td' \<and>
    in_sync k (e\<lparr>hp_encode_table := Some te'\<rparr>) (d\<lparr>hp_decode_table := Some td'\<rparr>)"
proof -
  obtain te td where t: "hp_encode_table e = Some te" "hp_decode_table d = Some td" "it_need_indexes te" "\<not> it_need_indexes td"
      "table_ok (Suc k) te" "table_ok (Suc k) td" "it_max_size td = it_max_size te" "it_list td = map lower_hdr (it_list te)"
    using s by (auto simp: in_sync_def)
  obtain te' where te': "add_header h te = Inr te'" "table_ok k te'" "it_max_size te' = it_max_size te"
      "it_need_indexes te'" "it_list te' = table_add (it_max_size te) h (it_list te)"
    using table_ok_add [OF t(5) h] t(3) by auto
  have "hdr_ok (lower_hdr h)" "hdr_value (lower_hdr h) \<noteq> []" using h by simp_all
  from table_ok_add [OF t(6) this] obtain td' where td': "add_header (lower_hdr h) td = Inr td'" "table_ok k td'"
      "it_max_size td' = it_max_size td" "\<not> it_need_indexes td'"
      "it_list td' = table_add (it_max_size td) (lower_hdr h) (it_list td)"
    using t(4) by auto
  have "in_sync k (e\<lparr>hp_encode_table := Some te'\<rparr>) (d\<lparr>hp_decode_table := Some td'\<rparr>)"
    using te' td' t(7,8) by (simp add: in_sync_def table_add_lower)
  then show ?thesis using t(1,2) te'(1) td'(1) by blast
qed

lemma hp_decode_indexed:
  assumes "128 \<le> unat c" "decode_integer (c # iter) 7 = Inr (Decoded n w rest)" "hp_header_at g (sint w) d = Inr (Some h)"
  shows "hp_decode g (c # iter) d = Inr (Decoded n h rest, d)"
proof -
  have "8 \<le> unat (drop_bit 4 c)" using assms(1) by (simp only: unat_drop_bit) simp
  then show ?thesis using assms(2,3) by (subst hp_decode.simps) simp
qed

lemma hp_decode_literal_indexed:
  assumes "64 \<le> unat c" "unat c < 128" "decode_with_known_prefix g (c # iter) 6 d = Inr (Decoded n h rest)"
    "hp_decode_table d = Some t" "add_header h t = Inr t'"
  shows "hp_decode g (c # iter) d = Inr (Decoded n h rest, d\<lparr>hp_decode_table := Some t'\<rparr>)"
proof -
  have "4 \<le> unat (drop_bit 4 c)" "\<not> 8 \<le> unat (drop_bit 4 c)" using assms(1,2) by (simp_all only: unat_drop_bit, simp_all)
  then show ?thesis using assms(3-5) by (subst hp_decode.simps) (simp add: deref_table_def)
qed

lemma hp_decode_literal:
  assumes "unat c < 32" "decode_with_known_prefix g (c # iter) 4 d = Inr r"
  shows "hp_decode g (c # iter) d = Inr (r, d)"
proof -
  have "\<not> 2 \<le> unat (drop_bit 4 c)" "\<not> 4 \<le> unat (drop_bit 4 c)" "\<not> 8 \<le> unat (drop_bit 4 c)"
    using assms(1) by (simp_all only: unat_drop_bit, simp_all)
  then show ?thesis using assms(2) by (subst hp_decode.simps) simp
qed

text \<open>
  Encoding one header and decoding it on the other side: the header comes back with its name in lower
  case, the decoder stops behind its bytes, and the tables stay in step.
\<close>

lemma encode_literal_step:
  assumes g: "globals_ok g" and s: "in_sync (Suc k) e d" and h: "hdr_ok h"
    and len: "length (hdr_name h) < 2 ^ 21" "length (hdr_value h) < 2 ^ 21"
    and v: "index_policy opts = HPACK_INDEX_HEADER \<longrightarrow> hdr_value h \<noteq> []"
  shows "\<exists>cs e' d'. hp_encode_literal g out h opts e = Inr (out @ cs, e') \<and> cs \<noteq> [] \<and>
    (\<forall>rest. hp_decode g (cs @ rest) d = Inr (Decoded (length cs) (lower_hdr h) rest, d')) \<and> in_sync k e' d'"
proof -
  have key: "no_nul (hdr_name h)" using h by (simp add: hdr_ok_def)
  obtain i where i: "find_name_from_index_table g (hdr_name h) e = Inr i"
      "leads_to g d i (\<lambda>x. hdr_name x = tolower (hdr_name h))"
    using find_name_law [OF g s key] by blast
  note lit = decode_literal [OF g i(2) _ _ _ len, of _ _ out "encode_name opts" "encode_value opts", unfolded lower_hdr_eq]
  show ?thesis
  proof (cases "index_policy opts")
    case HPACK_INDEX_HEADER
    obtain te te' td td' where t: "hp_encode_table e = Some te" "add_header h te = Inr te'"
        "hp_decode_table d = Some td" "add_header (lower_hdr h) td = Inr td'"
        "in_sync k (e\<lparr>hp_encode_table := Some te'\<rparr>) (d\<lparr>hp_decode_table := Some td'\<rparr>)"
      using in_sync_add [OF s h] v HPACK_INDEX_HEADER by blast
    obtain c cs where c: "drop_bit 6 c = drop_bit 6 0x40"
        "(let o1 = encode_integer out 0x40 6 (word_of_int i);
              o2 = (if i = 0 then encode_string True o1 (hdr_name h) (encode_name opts) else o1)
          in encode_string False o2 (hdr_value h) (encode_value opts)) = out @ c # cs"
        "\<And>rest. decode_with_known_prefix g (c # cs @ rest) 6 d = Inr (Decoded (length (c # cs)) (lower_hdr h) rest)"
      using lit [of 6 "0x40"] by (auto simp: mask_eq_exp_minus_1)
    have "64 \<le> unat c" "unat c < 128" using entry_type [OF c(1)] by simp_all
    then have "hp_decode g (c # cs @ rest) d =
        Inr (Decoded (length (c # cs)) (lower_hdr h) rest, d\<lparr>hp_decode_table := Some td'\<rparr>)" for rest
      by (rule hp_decode_literal_indexed [OF _ _ c(3) t(3,4)])
    moreover have "hp_encode_literal g out h opts e = Inr (out @ c # cs, e\<lparr>hp_encode_table := Some te'\<rparr>)"
      using i(1) t(1,2) c(2) HPACK_INDEX_HEADER by (simp add: hp_encode_literal_def deref_table_def Let_def)
    ultimately show ?thesis using t(5) by (metis append_Cons list.distinct(1))
  next
    case HPACK_NOT_INDEX_HEADER
    obtain c cs where c: "drop_bit 4 c = drop_bit 4 0"
        "(let o1 = encode_integer out 0 4 (word_of_int i);
              o2 = (if i = 0 then encode_string True o1 (hdr_name h) (encode_name opts) else o1)
          in encode_string False o2 (hdr_value h) (encode_value opts)) = out @ c # cs"
        "\<And>rest. decode_with_known_prefix g (c # cs @ rest) 4 d = Inr (Decoded (length (c # cs)) (lower_hdr h) rest)"
      using lit [of 4 0] by auto
    have "unat c < 32" using entry_type [OF c(1)] by simp
    then have "hp_decode g (c # cs @ rest) d = Inr (Decoded (length (c # cs)) (lower_hdr h) rest, d)" for rest
      by (rule hp_decode_literal [OF _ c(3)])
    moreover have "hp_encode_literal g out h opts e = Inr (out @ c # cs, e)"
      using i(1) c(2) HPACK_NOT_INDEX_HEADER by (simp add: hp_encode_literal_def Let_def)
    ultimately show ?thesis using in_sync_weaken [OF s] by (metis append_Cons list.distinct(1))
  next
    case HPACK_NEVER_INDEX_HEADER
    obtain c cs where c: "drop_bit 4 c = drop_bit 4 0x10"
        "(let o1 = encode_integer out 0x10 4 (word_of_int i);
              o2 = (if i = 0 then encode_string True o1 (hdr_name h) (encode_name opts) else o1)
          in encode_string False o2 (hdr_value h) (encode_value opts)) = out @ c # cs"
        "\<And>rest. decode_with_known_prefix g (c # cs @ rest) 4 d = Inr (Decoded (length (c # cs)) (lower_hdr h) rest)"
      using lit [of 4 "0x10"] by (auto simp: mask_eq_exp_minus_1)
    have "unat c < 32" using entry_type [OF c(1)] by simp
    then have "hp_decode g (c # cs @ rest) d = Inr (Decoded (length (c # cs)) (lower_hdr h) rest, d)" for rest
      by (rule hp_decode_literal [OF _ c(3)])
    moreover have "hp_encode_literal g out h opts e = Inr (out @ c # cs, e)"
      using i(1) c(2) HPACK_NEVER_INDEX_HEADER by (simp add: hp_encode_literal_def Let_def)
    ultimately show ?thesis using in_sync_weaken [OF s] by (metis append_Cons list.distinct(1))
  qed
qed

lemma encode_step:
  assumes g: "globals_ok g" and s: "in_sync (Suc k) e d" and h: "hdr_ok h"
    and len: "length (hdr_name h) < 2 ^ 21" "length (hdr_value h) < 2 ^ 21"
    and v: "index_policy opts = HPACK_INDEX_HEADER \<longrightarrow> hdr_value h \<noteq> []"
  shows "\<exists>cs e' d'. hp_encode g out h opts e = Inr (out @ cs, e') \<and> cs \<noteq> [] \<and>
    (\<forall>rest. hp_decode g (cs @ rest) d = Inr (Decoded (length cs) (lower_hdr h) rest, d')) \<and> in_sync k e' d'"
proof -
  note literal = encode_literal_step [OF assms, of out]
  have key: "key_ok h" using h by (simp add: hdr_ok_def)
  obtain i where i: "find_header_from_index_table g h e = Inr i" "leads_to g d i (\<lambda>x. x = lower_hdr h)"
    using find_header_law [OF g s key] by blast
  show ?thesis
  proof (cases "index_policy opts \<noteq> HPACK_NEVER_INDEX_HEADER \<and> i > 0")
    case False
    then show ?thesis using literal i(1) by (auto simp: hp_encode_def)
  next
    case True
    then have at: "hp_header_at g i d = Inr (Some (lower_hdr h))" "0 \<le> i" "i < 10485760"
      using i(2) by (auto simp: leads_to_def)
    have w: "unat (word_of_int i :: 32 word) < 10485760" using index_word [OF at(2,3)] at(2,3) by simp
    obtain c cs where c: "encode_integer [] 0x80 7 (word_of_int i) = c # cs" "drop_bit 7 c = drop_bit 7 0x80"
        "\<And>rest. decode_integer (c # cs @ rest) 7 = Inr (Decoded (length (c # cs)) (word_of_int i) rest)"
      using encode_integer_law [of 7 "0x80", OF _ _ _ w] by (auto simp: mask_eq_exp_minus_1)
    have top: "128 \<le> unat c" using entry_type [OF c(2)] by simp
    have "hp_decode g (c # cs @ rest) d = Inr (Decoded (length (c # cs)) (lower_hdr h) rest, d)" for rest
      using hp_decode_indexed [OF top c(3)] at(1) index_word(2) [OF at(2,3)] by simp
    moreover have "hp_encode g out h opts e = Inr (out @ c # cs, e)"
      using True i(1) c(1) encode_integer_append [of out] by (simp add: hp_encode_def)
    ultimately show ?thesis using in_sync_weaken [OF s] by (metis append_Cons list.distinct(1))
  qed
qed

subsection \<open>Sequences of headers\<close>

text \<open>A sender that encodes headers one after the other, and a receiver that decodes \<open>n\<close> of them.\<close>

definition encode_headers ::
  "hpack_globals \<Rightarrow> bytes \<Rightarrow> (header \<times> hpack_options) list \<Rightarrow> hpacker \<Rightarrow> (bytes \<times> hpacker) run" where
  "encode_headers g out hs p = foldE (\<lambda>(out, p) (h, options). hp_encode g out h options p) (out, p) hs"

primrec decode_headers :: "hpack_globals \<Rightarrow> nat \<Rightarrow> bytes \<Rightarrow> hpacker \<Rightarrow> (header list decoding \<times> hpacker) run" where
  "decode_headers g 0 iter p = Inr (Decoded 0 [] iter, p)"
| "decode_headers g (Suc n) iter p =
     bindE (hp_decode g iter p) (\<lambda>(r, p).
       case r of
         Malformed \<Rightarrow> Inr (Malformed, p)
       | Incomplete \<Rightarrow> Inr (Incomplete, p)
       | Decoded k h iter \<Rightarrow>
           mapE (\<lambda>(r, p). case r of
                   Malformed \<Rightarrow> (Malformed, p)
                 | Incomplete \<Rightarrow> (Incomplete, p)
                 | Decoded j hs iter \<Rightarrow> (Decoded (k + j) (h # hs) iter, p))
             (decode_headers g n iter p))"

definition sendable :: "header \<times> hpack_options \<Rightarrow> bool" where
  "sendable = (\<lambda>(h, options). hdr_ok h \<and> length (hdr_name h) < 2 ^ 21 \<and> length (hdr_value h) < 2 ^ 21 \<and>
     (index_policy options = HPACK_INDEX_HEADER \<longrightarrow> hdr_value h \<noteq> []))"

lemma encode_headers_law:
  assumes g: "globals_ok g"
  shows "in_sync (length hs) e d \<Longrightarrow> list_all sendable hs \<Longrightarrow>
    \<exists>cs e' d'. encode_headers g out hs e = Inr (out @ cs, e') \<and>
      (\<forall>rest. decode_headers g (length hs) (cs @ rest) d =
         Inr (Decoded (length cs) (map (lower_hdr \<circ> fst) hs) rest, d')) \<and> in_sync 0 e' d'"
proof (induction hs arbitrary: e d out)
  case Nil
  then show ?case by (simp add: encode_headers_def)
next
  case (Cons x hs)
  obtain h options where x: "x = (h, options)" by force
  have "sendable (h, options)" using Cons.prems(2) x by simp
  then have ok: "hdr_ok h" "length (hdr_name h) < 2 ^ 21" "length (hdr_value h) < 2 ^ 21"
      "index_policy options = HPACK_INDEX_HEADER \<longrightarrow> hdr_value h \<noteq> []"
    by (simp_all add: sendable_def)
  have s: "in_sync (Suc (length hs)) e d" using Cons.prems(1) by simp
  obtain cs1 e1 d1 where 1: "hp_encode g out h options e = Inr (out @ cs1, e1)" "in_sync (length hs) e1 d1"
      "\<And>rest. hp_decode g (cs1 @ rest) d = Inr (Decoded (length cs1) (lower_hdr h) rest, d1)"
    using encode_step [OF g s ok, of out] by auto
  have "list_all sendable hs" using Cons.prems(2) by simp
  then obtain cs2 e2 d2 where 2: "encode_headers g (out @ cs1) hs e1 = Inr ((out @ cs1) @ cs2, e2)" "in_sync 0 e2 d2"
      "\<And>rest. decode_headers g (length hs) (cs2 @ rest) d1 =
         Inr (Decoded (length cs2) (map (lower_hdr \<circ> fst) hs) rest, d2)"
    using Cons.IH [OF 1(2), of "out @ cs1"] by auto
  have "encode_headers g out (x # hs) e = Inr (out @ cs1 @ cs2, e2)"
    using 1(1) 2(1) by (simp add: encode_headers_def x)
  moreover have "decode_headers g (length (x # hs)) ((cs1 @ cs2) @ rest) d =
      Inr (Decoded (length (cs1 @ cs2)) (map (lower_hdr \<circ> fst) (x # hs)) rest, d2)" for rest
    using 1(3) [of "cs2 @ rest"] 2(3) [of rest] by (simp add: x)
  ultimately show ?case using 2(2) by blast
qed

lemma hp_init_law:
  assumes g: "globals_ok g" and n: "34 \<le> n" "n < 2 ^ 28" and k: "k < 2 ^ 31"
  shows "\<exists>p. hp_init g n hpacker_new = Inr (True, p) \<and> in_sync k p p"
proof -
  have "end_index (g_static_table g) = 62"
    using g end_index_law [of "g_static_table g"] by (simp add: globals_ok_def static_list_facts(1))
  then have start: "opt_start_index (dynamic_table_options g n b) = 62" for b by (simp add: dynamic_table_options_def)
  have "\<exists>t. it_init (dynamic_table_options g n b) it_new = Inr (True, t) \<and> table_ok k t \<and> it_list t = [] \<and>
      it_max_size t = n \<and> it_need_indexes t = b" for b
  proof -
    have o: "opt_static_table (dynamic_table_options g n b) = []" "opt_max_size (dynamic_table_options g n b) = n"
        "opt_need_indexes (dynamic_table_options g n b) = b"
      by (simp_all add: dynamic_table_options_def)
    show ?thesis using it_init_dynamic [of "dynamic_table_options g n b"] n k
      by (fastforce simp: table_ok_def o start)
  qed
  from this [of True] this [of False] obtain te td where
      te: "it_init (dynamic_table_options g n True) it_new = Inr (True, te)" "table_ok k te" "it_list te = []"
        "it_max_size te = n" "it_need_indexes te"
      and td: "it_init (dynamic_table_options g n False) it_new = Inr (True, td)" "table_ok k td" "it_list td = []"
        "it_max_size td = n" "\<not> it_need_indexes td" by blast
  let ?p = "\<lparr>hp_encode_table = Some te, hp_decode_table = Some td\<rparr>"
  have "hp_init g n hpacker_new = Inr (True, ?p)" using te(1) td(1) by (simp add: hp_init_def hpacker_new_def)
  moreover have "in_sync k ?p ?p" using te td by (simp add: in_sync_def)
  ultimately show ?thesis by blast
qed

subsection \<open>Properties\<close>


definition sample_headers :: "(header \<times> hpack_options) list" where
  "sample_headers =
     [(sample_header '':method'' ''GET'', hpack_options_new), (sample_header ''X-Trace'' ''17'', hpack_options_new),
      (sample_header ''x-trace'' ''17'', hpack_options_new\<lparr>index_policy := HPACK_NOT_INDEX_HEADER\<rparr>)]"


text \<open>
  (C27) A peer can abort the process: a literal header with incremental indexing whose name is the
  empty string is decoded and then fails the \<^verbatim>\<open>FLARE_CHECK\<close> of \<^verbatim>\<open>AddHeader\<close>.
\<close>

theorem empty_name_aborts:
  assumes "hp_decode_table p = Some t"
  shows "hp_decode g ([0x40, 0x00, 0x01, c] @ rest) p = Inl CheckFailed"
proof -
  have "hp_decode g ([0x40, 0x00, 0x01, c] @ rest) p =
    bindE (decode_with_known_prefix g (0x40 # 0 # 1 # c # rest) 6 p) (\<lambda>r.
              case r of
                Decoded bytes_consumed h iter \<Rightarrow>
                  bindE (deref_table (hp_decode_table p)) (\<lambda>t.
                    mapE (\<lambda>t. (r, p\<lparr>hp_decode_table := Some t\<rparr>)) (add_header h t))
              | _ \<Rightarrow> Inr (Malformed, p))"
    by (subst hp_decode.simps) simp
  also have "decode_with_known_prefix g (0x40 # 0 # 1 # c # rest) 6 p =
      Inr (Decoded 4 \<lparr>hdr_name = [], hdr_value = [c]\<rparr> rest)"
    by (simp add: decode_with_known_prefix_def decode_integer.simps decode_string_def tolower_eq)
  finally show ?thesis using assms by (simp add: deref_table_def add_header_def)
qed

theorem empty_name_aborts_witness:
  "\<exists>t. hp_decode_table \<lparr>hp_encode_table = None, hp_decode_table = Some it_new\<rparr> = Some t \<and>
    hp_decode \<lparr>g_huffman_tree = [], g_static_table = it_new\<rparr> [0x40, 0x00, 0x01, 0x61]
      \<lparr>hp_encode_table = None, hp_decode_table = Some it_new\<rparr> = Inl CheckFailed"
  using empty_name_aborts [of "\<lparr>hp_encode_table = None, hp_decode_table = Some it_new\<rparr>" it_new
    "\<lparr>g_huffman_tree = [], g_static_table = it_new\<rparr>" "0x61" "[]"] by simp



end
