(* ===== verification/Digest.thy ===== *)
theory Digest
  imports Word_Bits
begin

text \<open>
  What the digest classes \<^verbatim>\<open>SHA1\<close>, \<^verbatim>\<open>SHA256\<close>, \<^verbatim>\<open>SHA512\<close> and \<^verbatim>\<open>MD5\<close> (src/flare/base) have in common.  Their
  \<^verbatim>\<open>process\<close> and \<^verbatim>\<open>finalize\<close> are the same code up to the compression function, the size of the block
  and the place of the length in the last block, which are parameters here; the theories of the
  classes supply them.  The interface \<open>block_digest\<close> proves once that hashing in pieces is the
  Merkle-Damgard construction over the padded message, whatever the buffer held before.
\<close>

record 'w digest_ctx =
  dc_length :: "64 word"
  dc_state :: "'w list"
  dc_curlen :: nat
  dc_buf :: bytes

subsection \<open>Model\<close>

text \<open>
  The loop of \<^verbatim>\<open>process\<close>.  With more than a block in the buffer, \<^verbatim>\<open>block_size - _curlen\<close> would wrap
  around and the copy would leave the buffer.
\<close>

function digest_process ::
  "('w list \<Rightarrow> bytes \<Rightarrow> 'w list) \<Rightarrow> nat \<Rightarrow> bytes \<Rightarrow> 'w digest_ctx \<Rightarrow> 'w digest_ctx run" where
  "digest_process compress block_size data c =
     (if data = [] then Inr c
      else if block_size < dc_curlen c \<or> block_size = 0 then Inl Undefined
      else if dc_curlen c = 0 \<and> length data \<ge> block_size then
        digest_process compress block_size (drop block_size data)
          (c\<lparr>dc_state := compress (dc_state c) (take block_size data),
             dc_length := dc_length c + word_of_nat (block_size * 8)\<rparr>)
      else
        let n = min (length data) (block_size - dc_curlen c);
            c = c\<lparr>dc_buf := take (dc_curlen c) (dc_buf c) @ take n data @ drop (dc_curlen c + n) (dc_buf c),
                  dc_curlen := dc_curlen c + n\<rparr>;
            c = (if dc_curlen c = block_size
                 then c\<lparr>dc_state := compress (dc_state c) (dc_buf c),
                        dc_length := dc_length c + word_of_nat (8 * block_size), dc_curlen := 0\<rparr>
                 else c)
        in digest_process compress block_size (drop n data) c)"
  by pat_completeness auto
termination
  by (relation "measure (\<lambda>(_, block_size, data, c). length data + (if dc_curlen c = block_size then 1 else 0))")
    (auto simp: Let_def)

declare digest_process.simps [simp del]

text \<open>\<^verbatim>\<open>while (_curlen < stop) _buf[_curlen++] = 0;\<close>\<close>

function zero_fill :: "nat \<Rightarrow> 'w digest_ctx \<Rightarrow> 'w digest_ctx" where
  "zero_fill stop c =
     (if dc_curlen c < stop
      then zero_fill stop (c\<lparr>dc_buf := (dc_buf c)[dc_curlen c := 0], dc_curlen := dc_curlen c + 1\<rparr>)
      else c)"
  by pat_completeness auto
termination
  by (relation "measure (\<lambda>(stop, c). stop - dc_curlen c)") auto

declare zero_fill.simps [simp del]

text \<open>
  \<^verbatim>\<open>finalize\<close> up to the output: a block is closed early if the length does not fit behind position
  \<open>limit\<close>, and the length is stored at \<open>len_pos\<close>.
\<close>

definition digest_close ::
  "('w list \<Rightarrow> bytes \<Rightarrow> 'w list) \<Rightarrow> nat \<Rightarrow> nat \<Rightarrow> nat \<Rightarrow> (64 word \<Rightarrow> bytes) \<Rightarrow> 'w digest_ctx \<Rightarrow> 'w digest_ctx" where
  "digest_close compress block_size limit len_pos store c =
     (let c = (if dc_curlen c > limit
               then let c = zero_fill block_size c
                    in c\<lparr>dc_state := compress (dc_state c) (dc_buf c), dc_curlen := 0\<rparr>
               else c);
          c = zero_fill len_pos c;
          c = c\<lparr>dc_buf := take len_pos (dc_buf c) @ store (dc_length c)\<rparr>
      in c\<lparr>dc_state := compress (dc_state c) (dc_buf c)\<rparr>)"

definition digest_finalize ::
  "('w list \<Rightarrow> bytes \<Rightarrow> 'w list) \<Rightarrow> nat \<Rightarrow> nat \<Rightarrow> nat \<Rightarrow> (64 word \<Rightarrow> bytes) \<Rightarrow> 'w digest_ctx \<Rightarrow> 'w digest_ctx run" where
  "digest_finalize compress block_size limit len_pos store c =
     (let c = c\<lparr>dc_length := dc_length c + word_of_nat (dc_curlen c * 8)\<rparr> in
      if dc_curlen c \<ge> block_size then Inl Undefined
      else Inr (digest_close compress block_size limit len_pos store
        (c\<lparr>dc_buf := (dc_buf c)[dc_curlen c := 0x80], dc_curlen := dc_curlen c + 1\<rparr>)))"

text \<open>\<^verbatim>\<open>process(const std::string&)\<close> passes the size on as a \<^verbatim>\<open>uint32_t\<close>.\<close>

definition digest_process_string ::
  "('w list \<Rightarrow> bytes \<Rightarrow> 'w list) \<Rightarrow> nat \<Rightarrow> bytes \<Rightarrow> 'w digest_ctx \<Rightarrow> 'w digest_ctx run" where
  "digest_process_string compress block_size str c =
     digest_process compress block_size (take (length str mod 2 ^ 32) str) c"

subsection \<open>The Merkle-Damgard construction\<close>

fun blocks :: "nat \<Rightarrow> bytes \<Rightarrow> bytes list" where
  "blocks n xs = (if n = 0 \<or> length xs < n then [] else take n xs # blocks n (drop n xs))"

declare blocks.simps [simp del]

lemma blocks_short: "length xs < n \<Longrightarrow> blocks n xs = []"
  by (subst blocks.simps) simp

lemma blocks_append:
  assumes "0 < n" "n dvd length xs"
  shows "blocks n (xs @ ys) = blocks n xs @ blocks n ys"
  using assms
proof (induction n xs rule: blocks.induct)
  case (1 n xs)
  show ?case
  proof (cases "xs = []")
    case True
    then show ?thesis using 1(2) by (simp add: blocks_short)
  next
    case False
    then have len: "n \<le> length xs" using 1(3) by (auto dest: dvd_imp_le)
    moreover have "n dvd length (drop n xs)" using 1(3) len by (simp add: dvd_diff_nat)
    ultimately have "blocks n (drop n xs @ ys) = blocks n (drop n xs) @ blocks n ys"
      using 1(1) 1(2) by simp
    then show ?thesis
      using len 1(2) by (subst (1 2) blocks.simps) simp
  qed
qed

lemma blocks_one: "0 < n \<Longrightarrow> length xs = n \<Longrightarrow> blocks n xs = [xs]"
  by (subst blocks.simps) (simp add: blocks_short)

lemma blocks_next:
  assumes "0 < n" "n dvd length xs" "length b = n"
  shows "blocks n (xs @ b @ ys) = blocks n xs @ b # blocks n ys" "blocks n (xs @ b) = blocks n xs @ [b]"
  using assms blocks_append [of n xs "b @ ys"] blocks_append [of n b ys] blocks_append [of n xs b]
  by (simp_all add: blocks_one)

definition md_pad :: "nat \<Rightarrow> nat \<Rightarrow> nat \<Rightarrow> (64 word \<Rightarrow> bytes) \<Rightarrow> bytes \<Rightarrow> bytes" where
  "md_pad block_size limit len_pos store msg =
     msg @ [0x80] @ replicate ((block_size + limit - (length msg + 1) mod block_size) mod block_size) 0 @
     replicate (len_pos - limit) 0 @ store (word_of_nat (8 * length msg))"

definition md_hash ::
  "('w list \<Rightarrow> bytes \<Rightarrow> 'w list) \<Rightarrow> nat \<Rightarrow> nat \<Rightarrow> nat \<Rightarrow> (64 word \<Rightarrow> bytes) \<Rightarrow> 'w list \<Rightarrow> bytes \<Rightarrow> 'w list" where
  "md_hash compress block_size limit len_pos store iv msg =
     foldl compress iv (blocks block_size (md_pad block_size limit len_pos store msg))"

text \<open>The context that started with the state \<open>iv\<close> has processed \<open>msg\<close>.\<close>

definition digest_rep :: "('w list \<Rightarrow> bytes \<Rightarrow> 'w list) \<Rightarrow> nat \<Rightarrow> 'w list \<Rightarrow> bytes \<Rightarrow> 'w digest_ctx \<Rightarrow> bool" where
  "digest_rep compress block_size iv msg c \<longleftrightarrow>
     (\<exists>past. msg = past @ take (dc_curlen c) (dc_buf c) \<and> block_size dvd length past \<and>
        dc_state c = foldl compress iv (blocks block_size past) \<and>
        dc_length c = word_of_nat (8 * length past)) \<and>
     dc_curlen c < block_size \<and> length (dc_buf c) = block_size"

lemma zero_fill_eq:
  "dc_curlen c \<le> stop \<Longrightarrow> stop \<le> length (dc_buf c) \<Longrightarrow>
   zero_fill stop c = c\<lparr>dc_buf := take (dc_curlen c) (dc_buf c) @ replicate (stop - dc_curlen c) 0 @ drop stop (dc_buf c),
     dc_curlen := stop\<rparr>"
proof (induction stop c rule: zero_fill.induct)
  case (1 stop c)
  show ?case
  proof (cases "dc_curlen c < stop")
    case True
    define k where "k = dc_curlen c"
    have k: "k < stop" "k < length (dc_buf c)" using True 1(3) by (auto simp: k_def)
    have "take (Suc k) ((dc_buf c)[k := 0]) = take k (dc_buf c) @ [0]"
      using k by (simp add: take_Suc_conv_app_nth)
    moreover have "replicate (stop - k) (0 :: byte) = 0 # replicate (stop - Suc k) 0"
      using k by (simp flip: replicate_Suc add: Suc_diff_Suc)
    ultimately show ?thesis
      using 1 True k by (subst zero_fill.simps) (simp add: k_def [symmetric])
  next
    case False
    then have "dc_curlen c = stop" using 1(2) by simp
    then have "c\<lparr>dc_buf := dc_buf c, dc_curlen := stop\<rparr> = c" by simp
    then show ?thesis using False \<open>dc_curlen c = stop\<close> by (subst zero_fill.simps) simp
  qed
qed

text \<open>The contract of a digest: the shape of its last block, and a length field of eight bytes.\<close>

locale block_digest =
  fixes compress :: "'w list \<Rightarrow> bytes \<Rightarrow> 'w list" and block_size limit len_pos :: nat
    and store :: "64 word \<Rightarrow> bytes"
  assumes limit: "0 < limit" "limit \<le> len_pos"
    and len_pos: "len_pos + 8 = block_size"
    and length_store: "length (store n) = 8"
begin

lemma rep_start:
  assumes "length buf = block_size"
  shows "digest_rep compress block_size iv [] \<lparr>dc_length = 0, dc_state = iv, dc_curlen = 0, dc_buf = buf\<rparr>"
  using assms len_pos by (auto simp: digest_rep_def blocks_short intro!: exI [of _ "[]"])

lemma process_law:
  "digest_rep compress block_size iv msg c \<Longrightarrow>
   \<exists>c'. digest_process compress block_size data c = Inr c' \<and> digest_rep compress block_size iv (msg @ data) c'"
proof (induction compress block_size data c arbitrary: msg rule: digest_process.induct)
  case (1 compress block_size data c)
  let ?rep = "digest_rep compress block_size iv"
  obtain past where p: "msg = past @ take (dc_curlen c) (dc_buf c)" "block_size dvd length past"
      "dc_state c = foldl compress iv (blocks block_size past)" "dc_length c = word_of_nat (8 * length past)"
    and b: "dc_curlen c < block_size" "length (dc_buf c) = block_size"
    using 1(3) by (auto simp: digest_rep_def)
  consider (nil) "data = []" | (whole) "data \<noteq> []" "dc_curlen c = 0 \<and> length data \<ge> block_size"
    | (part) "data \<noteq> []" "\<not> (dc_curlen c = 0 \<and> length data \<ge> block_size)" by metis
  then show ?case
  proof cases
    case nil
    then show ?thesis using 1(3) by (simp add: digest_process.simps)
  next
    case whole
    let ?c = "c\<lparr>dc_state := compress (dc_state c) (take block_size data), dc_length := dc_length c + word_of_nat (block_size * 8)\<rparr>"
    have "?rep (msg @ take block_size data) ?c"
      using p b whole unfolding digest_rep_def
      by (intro conjI exI [of _ "past @ take block_size data"]) (auto simp: blocks_append blocks_one)
    with 1(1) whole b obtain c' where "digest_process compress block_size (drop block_size data) ?c = Inr c'"
        "?rep ((msg @ take block_size data) @ drop block_size data) c'" by fastforce
    then show ?thesis using whole b by (subst digest_process.simps) simp
  next
    case part
    define n where "n = min (length data) (block_size - dc_curlen c)"
    define c1 where "c1 = c\<lparr>dc_buf := take (dc_curlen c) (dc_buf c) @ take n data @ drop (dc_curlen c + n) (dc_buf c),
      dc_curlen := dc_curlen c + n\<rparr>"
    define c2 where "c2 = (if dc_curlen c1 = block_size
      then c1\<lparr>dc_state := compress (dc_state c1) (dc_buf c1),
              dc_length := dc_length c1 + word_of_nat (8 * block_size), dc_curlen := 0\<rparr>
      else c1)"
    have n: "n \<le> length data" "dc_curlen c + n \<le> block_size" using b by (auto simp: n_def)
    have buf: "length (dc_buf c1) = block_size" "take (dc_curlen c1) (dc_buf c1) = take (dc_curlen c) (dc_buf c) @ take n data"
      using b n by (simp_all add: c1_def)
    have "?rep (msg @ take n data) c2"
    proof (cases "dc_curlen c1 = block_size")
      case True
      then have "dc_buf c1 = take (dc_curlen c) (dc_buf c) @ take n data" using buf by simp
      then show ?thesis
        using True p b buf(1) unfolding digest_rep_def
        by (intro conjI exI [of _ "past @ dc_buf c1"])
          (auto simp: c2_def c1_def blocks_append blocks_one)
    next
      case False
      then show ?thesis
        using p b n buf unfolding digest_rep_def
        by (intro conjI exI [of _ past]) (auto simp: c2_def c1_def)
    qed
    then have "\<exists>c'. digest_process compress block_size (drop n data) c2 = Inr c' \<and>
        ?rep ((msg @ take n data) @ drop n data) c'"
      using b by (intro 1(2) [OF part(1) _ part(2) n_def c1_def c2_def]) auto
    moreover have "digest_process compress block_size data c = digest_process compress block_size (drop n data) c2"
      unfolding digest_process.simps [of compress block_size data c] Let_def n_def [symmetric]
        c1_def [symmetric] c2_def [symmetric]
      using part b by (simp only: if_False) auto
    ultimately show ?thesis by simp
  qed
qed

lemma pad_early:
  assumes "block_size dvd length past" "length tail + 1 = n" "limit < n" "n \<le> block_size"
  shows "md_pad block_size limit len_pos store (past @ tail) =
    past @ (tail @ [0x80] @ replicate (block_size - n) 0) @
      replicate len_pos 0 @ store (word_of_nat (8 * length (past @ tail)))"
proof -
  have "(length (past @ tail) + 1) mod block_size = n mod block_size"
    using assms(1,2) by (auto elim!: dvdE)
  then have "(block_size + limit - (length (past @ tail) + 1) mod block_size) mod block_size = block_size - n + limit"
    using assms(3,4) limit len_pos by (cases "n = block_size") auto
  moreover have "replicate (block_size - n + limit) (0 :: byte) @ replicate (len_pos - limit) 0 =
      replicate (block_size - n) 0 @ replicate len_pos 0"
    using limit by (simp flip: replicate_add)
  ultimately show ?thesis by (simp add: md_pad_def)
qed

lemma pad_late:
  assumes "block_size dvd length past" "length tail + 1 = n" "n \<le> limit"
  shows "md_pad block_size limit len_pos store (past @ tail) =
    past @ (tail @ [0x80] @ replicate (len_pos - n) 0 @ store (word_of_nat (8 * length (past @ tail))))"
proof -
  have "(length (past @ tail) + 1) mod block_size = n mod block_size"
    using assms(1,2) by (auto elim!: dvdE)
  then have "(block_size + limit - (length (past @ tail) + 1) mod block_size) mod block_size = limit - n"
    using assms(2,3) limit len_pos by (simp add: mod_if)
  moreover have "replicate (limit - n) (0 :: byte) @ replicate (len_pos - limit) 0 = replicate (len_pos - n) 0"
    using assms(3) limit by (simp flip: replicate_add)
  ultimately show ?thesis by (simp add: md_pad_def)
qed

lemma finalize_law:
  assumes "digest_rep compress block_size iv msg c"
  shows "\<exists>c'. digest_finalize compress block_size limit len_pos store c = Inr c' \<and>
    dc_state c' = md_hash compress block_size limit len_pos store iv msg"
proof -
  obtain past where p: "msg = past @ take (dc_curlen c) (dc_buf c)" "block_size dvd length past"
      "dc_state c = foldl compress iv (blocks block_size past)" "dc_length c = word_of_nat (8 * length past)"
    and b: "dc_curlen c < block_size" "length (dc_buf c) = block_size"
    using assms by (auto simp: digest_rep_def)
  define tail where "tail = take (dc_curlen c) (dc_buf c)"
  define n where "n = dc_curlen c + 1"
  have tail: "msg = past @ tail" "length tail + 1 = n" "n \<le> block_size" using p(1) b by (auto simp: tail_def n_def)
  have pos: "0 < block_size" using len_pos by simp
  define len where "len = (word_of_nat (8 * length (past @ tail)) :: 64 word)"
  have len: "dc_length c + word_of_nat (dc_curlen c * 8) = len"
    using p(4) b by (simp add: len_def tail_def)
  define buf where "buf = (dc_buf c)[dc_curlen c := 0x80]"
  have buf: "length buf = block_size" "take n buf = tail @ [0x80]"
    using b by (simp_all add: buf_def n_def tail_def take_Suc_conv_app_nth)
  define c1 where "c1 = c\<lparr>dc_length := len, dc_buf := buf, dc_curlen := n\<rparr>"
  have fin: "digest_finalize compress block_size limit len_pos store c =
      Inr (digest_close compress block_size limit len_pos store c1)"
    using b unfolding digest_finalize_def Let_def c1_def buf_def n_def len [symmetric] by simp
  show ?thesis
  proof (cases "n > limit")
    case True
    have fill: "zero_fill block_size c1 = c1\<lparr>dc_buf := tail @ [0x80] @ replicate (block_size - n) 0, dc_curlen := block_size\<rparr>"
      using buf tail(3) by (subst zero_fill_eq) (auto simp: c1_def)
    define c2 where "c2 = c1\<lparr>dc_buf := tail @ [0x80] @ replicate (block_size - n) 0, dc_curlen := 0,
      dc_state := compress (dc_state c) (tail @ [0x80] @ replicate (block_size - n) 0)\<rparr>"
    have c2: "(zero_fill block_size c1)\<lparr>dc_state := compress (dc_state (zero_fill block_size c1)) (dc_buf (zero_fill block_size c1)),
        dc_curlen := 0\<rparr> = c2"
      unfolding fill by (simp add: c1_def c2_def)
    have "zero_fill len_pos c2 = c2\<lparr>dc_buf := replicate len_pos 0 @ drop len_pos (dc_buf c2), dc_curlen := len_pos\<rparr>"
      using tail(2,3) len_pos by (subst zero_fill_eq) (auto simp: c2_def)
    then have run: "digest_close compress block_size limit len_pos store c1 =
        (c2\<lparr>dc_buf := replicate len_pos 0 @ store len, dc_curlen := len_pos,
            dc_state := compress (dc_state c2) (replicate len_pos 0 @ store len)\<rparr>)"
      using True unfolding digest_close_def Let_def c2 by (simp add: c1_def) (simp add: c1_def c2_def)
    have "length (tail @ [0x80] @ replicate (block_size - n) 0) = block_size"
      "length (replicate len_pos 0 @ store len) = block_size"
      using tail(2,3) len_pos length_store by auto
    then have "md_hash compress block_size limit len_pos store iv msg = compress (dc_state c2) (replicate len_pos 0 @ store len)"
      unfolding md_hash_def tail(1) pad_early [OF p(2) tail(2) True tail(3)] len_def [symmetric]
      using p(3) by (simp only: blocks_next(1) [OF pos p(2)] blocks_one [OF pos]) (simp add: c2_def)
    with run fin show ?thesis by simp
  next
    case False
    have "zero_fill len_pos c1 = c1\<lparr>dc_buf := tail @ [0x80] @ replicate (len_pos - n) 0 @ drop len_pos buf, dc_curlen := len_pos\<rparr>"
      using buf False limit len_pos by (subst zero_fill_eq) (auto simp: c1_def)
    moreover have "take len_pos (tail @ [0x80] @ replicate (len_pos - n) 0 @ drop len_pos buf) = tail @ [0x80] @ replicate (len_pos - n) 0"
    proof -
      have "length (tail @ [0x80] @ replicate (len_pos - n) (0 :: byte)) = len_pos" using False tail(2) limit by simp
      then show ?thesis by (metis append_assoc append_eq_conv_conj)
    qed
    ultimately have run: "digest_close compress block_size limit len_pos store c1 =
        (c1\<lparr>dc_buf := tail @ [0x80] @ replicate (len_pos - n) 0 @ store len, dc_curlen := len_pos,
            dc_state := compress (dc_state c) (tail @ [0x80] @ replicate (len_pos - n) 0 @ store len)\<rparr>)"
      using False unfolding digest_close_def Let_def by (simp add: c1_def)
    have "length (tail @ [0x80] @ replicate (len_pos - n) 0 @ store len) = block_size"
      using tail(2) False limit len_pos length_store by auto
    then have "md_hash compress block_size limit len_pos store iv msg =
        compress (dc_state c) (tail @ [0x80] @ replicate (len_pos - n) 0 @ store len)"
      unfolding md_hash_def tail(1) pad_late [OF p(2) tail(2) leI [OF False]] len_def [symmetric]
      using p(3) by (simp only: blocks_next(2) [OF pos p(2)]) simp
    with run fin show ?thesis by simp
  qed
qed

text \<open>Processing in pieces and finalizing, from a context with whatever in its buffer.\<close>

lemma digest_law:
  assumes "length buf = block_size"
  shows "\<exists>c c'. foldE (\<lambda>c data. digest_process compress block_size data c)
      \<lparr>dc_length = 0, dc_state = iv, dc_curlen = 0, dc_buf = buf\<rparr> chunks = Inr c \<and>
    digest_finalize compress block_size limit len_pos store c = Inr c' \<and>
    dc_state c' = md_hash compress block_size limit len_pos store iv (concat chunks)"
proof -
  have "\<exists>c. foldE (\<lambda>c data. digest_process compress block_size data c) c0 chunks = Inr c \<and>
      digest_rep compress block_size iv (msg @ concat chunks) c"
    if "digest_rep compress block_size iv msg c0" for c0 msg
    using that
  proof (induction chunks arbitrary: c0 msg)
    case (Cons data chunks)
    obtain c1 where c1: "digest_process compress block_size data c0 = Inr c1" "digest_rep compress block_size iv (msg @ data) c1"
      using process_law [OF Cons.prems] by blast
    then show ?case using Cons.IH [OF c1(2)] by simp
  qed simp
  from this [OF rep_start [OF assms]] finalize_law show ?thesis by fastforce
qed

end

text \<open>A compression function that may be replaced by another on states of the right length.\<close>

lemma md_hash_cong:
  assumes "\<And>st b. length st = n \<Longrightarrow> f st b = g st b \<and> length (g st b) = n" "length iv = n"
  shows "md_hash f block_size limit len_pos store iv msg = md_hash g block_size limit len_pos store iv msg"
proof -
  have "foldl f st bs = foldl g st bs" if "length st = n" for st bs
    using that assms(1) by (induction bs arbitrary: st) simp_all
  then show ?thesis using assms(2) by (simp add: md_hash_def)
qed

end
