(* ===== verification/Sha2.thy ===== *)
theory Sha2
  imports Digest
begin

text \<open>
  \<^verbatim>\<open>SHA256\<close> and \<^verbatim>\<open>SHA512\<close> (src/flare/base/sha256.cc and sha512.cc) over the rotations of
  src/flare/base/math.  The reference is FIPS 180-4: its logical functions as the standard writes
  them, the message schedule as a recursive function, and the loop over the eight working
  variables, which \<^verbatim>\<open>SHA512\<close> unrolls by renaming the variables instead of moving their values.
\<close>

subsection \<open>Rotations\<close>

text \<open>The portable versions; the assembler versions are the instructions \<^verbatim>\<open>rol\<close> and \<^verbatim>\<open>ror\<close>.\<close>

definition rotl32 :: "32 word \<Rightarrow> nat \<Rightarrow> 32 word" where
  "rotl32 x i = push_bit (i mod 32) x OR drop_bit ((32 - i mod 32) mod 32) x"

definition rotr32 :: "32 word \<Rightarrow> nat \<Rightarrow> 32 word" where
  "rotr32 x i = drop_bit (i mod 32) x OR push_bit ((32 - i mod 32) mod 32) x"

definition rotr64 :: "64 word \<Rightarrow> nat \<Rightarrow> 64 word" where
  "rotr64 x i = drop_bit (i mod 64) x OR push_bit ((64 - i mod 64) mod 64) x"

subsection \<open>Model: SHA-256\<close>

definition sha256_K :: "32 word list" where
  "sha256_K = concat
     [[0x428a2f98, 0x71374491, 0xb5c0fbcf, 0xe9b5dba5, 0x3956c25b],
      [0x59f111f1, 0x923f82a4, 0xab1c5ed5, 0xd807aa98, 0x12835b01],
      [0x243185be, 0x550c7dc3, 0x72be5d74, 0x80deb1fe, 0x9bdc06a7],
      [0xc19bf174, 0xe49b69c1, 0xefbe4786, 0x0fc19dc6, 0x240ca1cc],
      [0x2de92c6f, 0x4a7484aa, 0x5cb0a9dc, 0x76f988da, 0x983e5152],
      [0xa831c66d, 0xb00327c8, 0xbf597fc7, 0xc6e00bf3, 0xd5a79147],
      [0x06ca6351, 0x14292967, 0x27b70a85, 0x2e1b2138, 0x4d2c6dfc],
      [0x53380d13, 0x650a7354, 0x766a0abb, 0x81c2c92e, 0x92722c85],
      [0xa2bfe8a1, 0xa81a664b, 0xc24b8b70, 0xc76c51a3, 0xd192e819],
      [0xd6990624, 0xf40e3585, 0x106aa070, 0x19a4c116, 0x1e376c08],
      [0x2748774c, 0x34b0bcb5, 0x391c0cb3, 0x4ed8aa4a, 0x5b9cca4f],
      [0x682e6ff3, 0x748f82ee, 0x78a5636f, 0x84c87814, 0x8cc70208],
      [0x90befffa, 0xa4506ceb, 0xbef9a3f7, 0xc67178f2]]"

definition sha256_load32 :: "bytes \<Rightarrow> 32 word" where
  "sha256_load32 y = push_bit 24 (ucast (y ! 0)) OR push_bit 16 (ucast (y ! 1)) OR
     push_bit 8 (ucast (y ! 2)) OR push_bit 0 (ucast (y ! 3))"

definition sha256_store64 :: "64 word \<Rightarrow> bytes" where
  "sha256_store64 x = map (\<lambda>i. ucast (drop_bit ((7 - i) * 8) x AND 255)) [0..<8]"

definition sha256_store32 :: "32 word \<Rightarrow> bytes" where
  "sha256_store32 x = map (\<lambda>i. ucast (drop_bit ((3 - i) * 8) x AND 255)) [0..<4]"

definition sha256_Ch :: "32 word \<Rightarrow> 32 word \<Rightarrow> 32 word \<Rightarrow> 32 word" where
  "sha256_Ch x y z = z XOR (x AND (y XOR z))"

definition sha256_Maj :: "32 word \<Rightarrow> 32 word \<Rightarrow> 32 word \<Rightarrow> 32 word" where
  "sha256_Maj x y z = ((x OR y) AND z) OR (x AND y)"

definition sha256_Sh :: "32 word \<Rightarrow> nat \<Rightarrow> 32 word" where
  "sha256_Sh x n = drop_bit n x"

definition sha256_Sigma0 :: "32 word \<Rightarrow> 32 word" where
  "sha256_Sigma0 x = rotr32 x 2 XOR rotr32 x 13 XOR rotr32 x 22"

definition sha256_Sigma1 :: "32 word \<Rightarrow> 32 word" where
  "sha256_Sigma1 x = rotr32 x 6 XOR rotr32 x 11 XOR rotr32 x 25"

definition sha256_Gamma0 :: "32 word \<Rightarrow> 32 word" where
  "sha256_Gamma0 x = rotr32 x 7 XOR rotr32 x 18 XOR sha256_Sh x 3"

definition sha256_Gamma1 :: "32 word \<Rightarrow> 32 word" where
  "sha256_Gamma1 x = rotr32 x 17 XOR rotr32 x 19 XOR sha256_Sh x 10"

primrec sha256_fill :: "nat \<Rightarrow> 32 word list \<Rightarrow> 32 word list" where
  "sha256_fill 0 W = W"
| "sha256_fill (Suc n) W =
     (let i = length W in
      sha256_fill n (W @ [sha256_Gamma1 (W ! (i - 2)) + W ! (i - 7) + sha256_Gamma0 (W ! (i - 15)) + W ! (i - 16)]))"

definition sha256_W :: "bytes \<Rightarrow> 32 word list" where
  "sha256_W buf = sha256_fill 48 (map (\<lambda>i. sha256_load32 (drop (4 * i) buf)) [0..<16])"

definition sha256_round :: "32 word list \<Rightarrow> nat \<Rightarrow> 32 word list \<Rightarrow> 32 word list" where
  "sha256_round W i S =
     (let t0 = S ! 7 + sha256_Sigma1 (S ! 4) + sha256_Ch (S ! 4) (S ! 5) (S ! 6) + sha256_K ! i + W ! i;
          t1 = sha256_Sigma0 (S ! 0) + sha256_Maj (S ! 0) (S ! 1) (S ! 2);
          S = S[3 := S ! 3 + t0];
          S = S[7 := t0 + t1]
      in [S ! 7, S ! 0, S ! 1, S ! 2, S ! 3, S ! 4, S ! 5, S ! 6])"

definition sha256_compress :: "32 word list \<Rightarrow> bytes \<Rightarrow> 32 word list" where
  "sha256_compress state buf = map2 (+) state (fold (sha256_round (sha256_W buf)) [0..<64] state)"

definition sha256_iv :: "32 word list" where
  "sha256_iv = [0x6A09E667, 0xBB67AE85, 0x3C6EF372, 0xA54FF53A, 0x510E527F, 0x9B05688C, 0x1F83D9AB, 0x5BE0CD19]"

text \<open>The constructor leaves \<^verbatim>\<open>_buf\<close> as it finds it.\<close>

definition sha256_new :: "bytes \<Rightarrow> 32 word digest_ctx" where
  "sha256_new buf = \<lparr>dc_length = 0, dc_state = sha256_iv, dc_curlen = 0, dc_buf = buf\<rparr>"

definition sha256_process :: "bytes \<Rightarrow> 32 word digest_ctx \<Rightarrow> 32 word digest_ctx run" where
  "sha256_process data c = digest_process sha256_compress 64 data c"

definition sha256_process_string :: "bytes \<Rightarrow> 32 word digest_ctx \<Rightarrow> 32 word digest_ctx run" where
  "sha256_process_string str c = digest_process_string sha256_compress 64 str c"

definition sha256_finalize :: "32 word digest_ctx \<Rightarrow> (bytes \<times> 32 word digest_ctx) run" where
  "sha256_finalize c =
     mapE (\<lambda>c. (concat (map sha256_store32 (dc_state c)), c)) (digest_finalize sha256_compress 64 56 56 sha256_store64 c)"

definition sha256_digest :: "32 word digest_ctx \<Rightarrow> bytes run" where
  "sha256_digest c = mapE fst (sha256_finalize c)"

subsection \<open>Model: SHA-512\<close>

definition sha512_K :: "64 word list" where
  "sha512_K = concat
     [[0x428a2f98d728ae22, 0x7137449123ef65cd, 0xb5c0fbcfec4d3b2f],
      [0xe9b5dba58189dbbc, 0x3956c25bf348b538, 0x59f111f1b605d019],
      [0x923f82a4af194f9b, 0xab1c5ed5da6d8118, 0xd807aa98a3030242],
      [0x12835b0145706fbe, 0x243185be4ee4b28c, 0x550c7dc3d5ffb4e2],
      [0x72be5d74f27b896f, 0x80deb1fe3b1696b1, 0x9bdc06a725c71235],
      [0xc19bf174cf692694, 0xe49b69c19ef14ad2, 0xefbe4786384f25e3],
      [0x0fc19dc68b8cd5b5, 0x240ca1cc77ac9c65, 0x2de92c6f592b0275],
      [0x4a7484aa6ea6e483, 0x5cb0a9dcbd41fbd4, 0x76f988da831153b5],
      [0x983e5152ee66dfab, 0xa831c66d2db43210, 0xb00327c898fb213f],
      [0xbf597fc7beef0ee4, 0xc6e00bf33da88fc2, 0xd5a79147930aa725],
      [0x06ca6351e003826f, 0x142929670a0e6e70, 0x27b70a8546d22ffc],
      [0x2e1b21385c26c926, 0x4d2c6dfc5ac42aed, 0x53380d139d95b3df],
      [0x650a73548baf63de, 0x766a0abb3c77b2a8, 0x81c2c92e47edaee6],
      [0x92722c851482353b, 0xa2bfe8a14cf10364, 0xa81a664bbc423001],
      [0xc24b8b70d0f89791, 0xc76c51a30654be30, 0xd192e819d6ef5218],
      [0xd69906245565a910, 0xf40e35855771202a, 0x106aa07032bbd1b8],
      [0x19a4c116b8d2d0c8, 0x1e376c085141ab53, 0x2748774cdf8eeb99],
      [0x34b0bcb5e19b48a8, 0x391c0cb3c5c95a63, 0x4ed8aa4ae3418acb],
      [0x5b9cca4f7763e373, 0x682e6ff3d6b2b8a3, 0x748f82ee5defb2fc],
      [0x78a5636f43172f60, 0x84c87814a1f0ab72, 0x8cc702081a6439ec],
      [0x90befffa23631e28, 0xa4506cebde82bde9, 0xbef9a3f7b2c67915],
      [0xc67178f2e372532b, 0xca273eceea26619c, 0xd186b8c721c0c207],
      [0xeada7dd6cde0eb1e, 0xf57d4f7fee6ed178, 0x06f067aa72176fba],
      [0x0a637dc5a2c898a6, 0x113f9804bef90dae, 0x1b710b35131c471b],
      [0x28db77f523047d84, 0x32caab7b40c72493, 0x3c9ebe0a15c9bebc],
      [0x431d67c49c100d4c, 0x4cc5d4becb3e42b6, 0x597f299cfc657e2a],
      [0x5fcb6fab3ad6faec, 0x6c44198c4a475817]]"

definition sha512_store64 :: "64 word \<Rightarrow> bytes" where
  "sha512_store64 x = map (\<lambda>i. ucast (drop_bit ((7 - i) * 8) x AND 255)) [0..<8]"

definition sha512_load64 :: "bytes \<Rightarrow> 64 word" where
  "sha512_load64 y = fold (\<lambda>i res. res OR push_bit ((7 - i) * 8) (ucast (y ! i))) [0..<8] 0"

definition sha512_Ch :: "64 word \<Rightarrow> 64 word \<Rightarrow> 64 word \<Rightarrow> 64 word" where
  "sha512_Ch x y z = z XOR (x AND (y XOR z))"

definition sha512_Maj :: "64 word \<Rightarrow> 64 word \<Rightarrow> 64 word \<Rightarrow> 64 word" where
  "sha512_Maj x y z = ((x OR y) AND z) OR (x AND y)"

definition sha512_Sh :: "64 word \<Rightarrow> nat \<Rightarrow> 64 word" where
  "sha512_Sh x n = drop_bit n x"

definition sha512_Sigma0 :: "64 word \<Rightarrow> 64 word" where
  "sha512_Sigma0 x = rotr64 x 28 XOR rotr64 x 34 XOR rotr64 x 39"

definition sha512_Sigma1 :: "64 word \<Rightarrow> 64 word" where
  "sha512_Sigma1 x = rotr64 x 14 XOR rotr64 x 18 XOR rotr64 x 41"

definition sha512_Gamma0 :: "64 word \<Rightarrow> 64 word" where
  "sha512_Gamma0 x = rotr64 x 1 XOR rotr64 x 8 XOR sha512_Sh x 7"

definition sha512_Gamma1 :: "64 word \<Rightarrow> 64 word" where
  "sha512_Gamma1 x = rotr64 x 19 XOR rotr64 x 61 XOR sha512_Sh x 6"

primrec sha512_fill :: "nat \<Rightarrow> 64 word list \<Rightarrow> 64 word list" where
  "sha512_fill 0 W = W"
| "sha512_fill (Suc n) W =
     (let i = length W in
      sha512_fill n (W @ [sha512_Gamma1 (W ! (i - 2)) + W ! (i - 7) + sha512_Gamma0 (W ! (i - 15)) + W ! (i - 16)]))"

definition sha512_W :: "bytes \<Rightarrow> 64 word list" where
  "sha512_W buf = sha512_fill 64 (map (\<lambda>i. sha512_load64 (drop (8 * i) buf)) [0..<16])"

text \<open>\<^verbatim>\<open>RND(S[a], ..., S[h], i)\<close>: the fourth and the last argument are references.\<close>

definition sha512_RND ::
  "64 word list \<Rightarrow> nat \<times> nat \<times> nat \<times> nat \<times> nat \<times> nat \<times> nat \<times> nat \<Rightarrow> nat \<Rightarrow> 64 word list \<Rightarrow> 64 word list" where
  "sha512_RND W = (\<lambda>(a, b, c, d, e, f, g, h) i S.
     let t0 = S ! h + sha512_Sigma1 (S ! e) + sha512_Ch (S ! e) (S ! f) (S ! g) + sha512_K ! i + W ! i;
         t1 = sha512_Sigma0 (S ! a) + sha512_Maj (S ! a) (S ! b) (S ! c);
         S = S[d := S ! d + t0]
     in S[h := t0 + t1])"

text \<open>The body of the loop, for \<open>i\<close> = 0, 8, ..., 72.\<close>

definition sha512_round8 :: "64 word list \<Rightarrow> nat \<Rightarrow> 64 word list \<Rightarrow> 64 word list" where
  "sha512_round8 W i S =
     (let S = sha512_RND W (0, 1, 2, 3, 4, 5, 6, 7) (i + 0) S;
          S = sha512_RND W (7, 0, 1, 2, 3, 4, 5, 6) (i + 1) S;
          S = sha512_RND W (6, 7, 0, 1, 2, 3, 4, 5) (i + 2) S;
          S = sha512_RND W (5, 6, 7, 0, 1, 2, 3, 4) (i + 3) S;
          S = sha512_RND W (4, 5, 6, 7, 0, 1, 2, 3) (i + 4) S;
          S = sha512_RND W (3, 4, 5, 6, 7, 0, 1, 2) (i + 5) S;
          S = sha512_RND W (2, 3, 4, 5, 6, 7, 0, 1) (i + 6) S
      in sha512_RND W (1, 2, 3, 4, 5, 6, 7, 0) (i + 7) S)"

definition sha512_compress :: "64 word list \<Rightarrow> bytes \<Rightarrow> 64 word list" where
  "sha512_compress state buf =
     map2 (+) state (fold (\<lambda>j. sha512_round8 (sha512_W buf) (8 * j)) [0..<10] state)"

definition sha512_iv :: "64 word list" where
  "sha512_iv = [0x6a09e667f3bcc908, 0xbb67ae8584caa73b, 0x3c6ef372fe94f82b, 0xa54ff53a5f1d36f1,
     0x510e527fade682d1, 0x9b05688c2b3e6c1f, 0x1f83d9abfb41bd6b, 0x5be0cd19137e2179]"

definition sha512_new :: "bytes \<Rightarrow> 64 word digest_ctx" where
  "sha512_new buf = \<lparr>dc_length = 0, dc_state = sha512_iv, dc_curlen = 0, dc_buf = buf\<rparr>"

definition sha512_process :: "bytes \<Rightarrow> 64 word digest_ctx \<Rightarrow> 64 word digest_ctx run" where
  "sha512_process data c = digest_process sha512_compress 128 data c"

definition sha512_process_string :: "bytes \<Rightarrow> 64 word digest_ctx \<Rightarrow> 64 word digest_ctx run" where
  "sha512_process_string str c = digest_process_string sha512_compress 128 str c"

definition sha512_finalize :: "64 word digest_ctx \<Rightarrow> (bytes \<times> 64 word digest_ctx) run" where
  "sha512_finalize c =
     mapE (\<lambda>c. (concat (map sha512_store64 (dc_state c)), c)) (digest_finalize sha512_compress 128 112 120 sha512_store64 c)"

definition sha512_digest :: "64 word digest_ctx \<Rightarrow> bytes run" where
  "sha512_digest c = mapE fst (sha512_finalize c)"

subsection \<open>FIPS 180-4\<close>

lemma rotr_word_rotr:
  fixes x :: "'a::len word"
  shows "drop_bit (i mod LENGTH('a)) x OR push_bit ((LENGTH('a) - i mod LENGTH('a)) mod LENGTH('a)) x = word_rotr i x"
proof (rule bit_word_eqI)
  fix n assume n: "n < LENGTH('a)"
  define L where "L = LENGTH('a)"
  define k where "k = i mod L"
  have k: "k < L" by (simp add: k_def L_def)
  have out: "\<not> bit x j" if "L \<le> j" for j using that bit_imp_le_length [of x j] by (auto simp: L_def)
  have "(n + i) mod L = (n + k) mod L" unfolding k_def by (rule mod_add_right_eq [symmetric])
  also have "\<dots> = (if n + k < L then n + k else n + k - L)" using n k by (simp add: mod_if L_def)
  finally have m: "(n + i) mod L = (if n + k < L then n + k else n + k - L)" .
  have "bit (drop_bit k x OR push_bit ((L - k) mod L) x) n \<longleftrightarrow>
      bit x (k + n) \<or> (L - k) mod L \<le> n \<and> n < L \<and> bit x (n - (L - k) mod L)"
    by (simp only: bit_or_iff bit_drop_bit_eq comp_apply bit_push_bit_iff possible_bit_word L_def)
  also have "\<dots> \<longleftrightarrow> bit x ((n + i) mod L)"
  proof (cases "k = 0")
    case True
    then show ?thesis using m n by (simp add: L_def)
  next
    case False
    then have "(L - k) mod L = L - k" using k by simp
    then show ?thesis using m n k False out [of "k + n"] by (auto simp: L_def [symmetric] add.commute)
  qed
  also have "\<dots> \<longleftrightarrow> bit (word_rotr i x) n" using n by (simp only: bit_word_rotr_iff L_def) simp
  finally show "bit (drop_bit (i mod LENGTH('a)) x OR push_bit ((LENGTH('a) - i mod LENGTH('a)) mod LENGTH('a)) x) n =
      bit (word_rotr i x) n" by (simp only: k_def L_def)
qed

lemma rotr32_eq: "rotr32 x i = word_rotr i x"
  using rotr_word_rotr [of i x] by (simp add: rotr32_def)

lemma rotr64_eq: "rotr64 x i = word_rotr i x"
  using rotr_word_rotr [of i x] by (simp add: rotr64_def)

lemma rotl32_eq: "rotl32 x i = word_rotl i x"
proof (rule bit_word_eqI)
  fix n assume "n < LENGTH(32)"
  then have n: "n < 32" by simp
  define k where "k = i mod 32"
  have k: "k < 32" by (simp add: k_def)
  have out: "\<not> bit x j" if "32 \<le> j" for j using that bit_imp_le_length [of x j] by auto
  have m: "(n + (32 - k)) mod 32 = (if k \<le> n then n - k else 32 + n - k)" using n k by (auto simp: mod_if)
  have "bit (rotl32 x i) n \<longleftrightarrow> k \<le> n \<and> n < 32 \<and> bit x (n - k) \<or> bit x ((32 - k) mod 32 + n)"
    unfolding rotl32_def k_def [symmetric]
    by (simp only: bit_or_iff bit_drop_bit_eq comp_apply bit_push_bit_iff possible_bit_word) simp
  also have "\<dots> \<longleftrightarrow> bit x ((n + (32 - k)) mod 32)"
  proof (cases "k = 0")
    case False
    then have "(32 - k) mod 32 = 32 - k" using k by simp
    then show ?thesis using m n k False out [of "32 - k + n"] by auto
  qed (use m n in simp)
  also have "\<dots> \<longleftrightarrow> bit (word_rotl i x) n" using n by (simp only: bit_word_rotl_iff k_def) simp
  finally show "bit (rotl32 x i) n = bit (word_rotl i x) n" .
qed

definition fips_Ch :: "'a::len word \<Rightarrow> 'a word \<Rightarrow> 'a word \<Rightarrow> 'a word" where
  "fips_Ch x y z = (x AND y) XOR (NOT x AND z)"

definition fips_Maj :: "'a::len word \<Rightarrow> 'a word \<Rightarrow> 'a word \<Rightarrow> 'a word" where
  "fips_Maj x y z = (x AND y) XOR (x AND z) XOR (y AND z)"

lemma Ch_eq: "z XOR (x AND (y XOR z)) = fips_Ch x y z"
  by (rule bit_word_eqI) (auto simp: fips_Ch_def bit_simps)

lemma Maj_eq: "((x OR y) AND z) OR (x AND y) = fips_Maj x y z"
  by (rule bit_word_eqI) (auto simp: fips_Maj_def bit_simps)

text \<open>The eight working variables of SHA-256 and SHA-512, and the step of the loop of section 6.2.2 and 6.4.2.\<close>

type_synonym 'w sha2_vars = "'w \<times> 'w \<times> 'w \<times> 'w \<times> 'w \<times> 'w \<times> 'w \<times> 'w"

definition fips_sha2_step ::
  "('a::len word \<Rightarrow> 'a word) \<Rightarrow> ('a word \<Rightarrow> 'a word) \<Rightarrow> 'a word \<Rightarrow> 'a word \<Rightarrow> 'a word sha2_vars \<Rightarrow> 'a word sha2_vars" where
  "fips_sha2_step Sigma0 Sigma1 k w = (\<lambda>(a, b, c, d, e, f, g, h).
     let T1 = h + Sigma1 e + fips_Ch e f g + k + w;
         T2 = Sigma0 a + fips_Maj a b c
     in (T1 + T2, a, b, c, d + T1, e, f, g))"

definition vars_list :: "'w sha2_vars \<Rightarrow> 'w list" where
  "vars_list = (\<lambda>(a, b, c, d, e, f, g, h). [a, b, c, d, e, f, g, h])"

text \<open>The message schedules.\<close>

fun fips256_W :: "bytes \<Rightarrow> nat \<Rightarrow> 32 word" where
  "fips256_W block t =
     (if t < 16 then sha256_load32 (drop (4 * t) block)
      else sha256_Gamma1 (fips256_W block (t - 2)) + fips256_W block (t - 7) +
           sha256_Gamma0 (fips256_W block (t - 15)) + fips256_W block (t - 16))"

fun fips512_W :: "bytes \<Rightarrow> nat \<Rightarrow> 64 word" where
  "fips512_W block t =
     (if t < 16 then sha512_load64 (drop (8 * t) block)
      else sha512_Gamma1 (fips512_W block (t - 2)) + fips512_W block (t - 7) +
           sha512_Gamma0 (fips512_W block (t - 15)) + fips512_W block (t - 16))"

declare fips256_W.simps [simp del] fips512_W.simps [simp del]

definition fips256_step :: "bytes \<Rightarrow> nat \<Rightarrow> 32 word sha2_vars \<Rightarrow> 32 word sha2_vars" where
  "fips256_step block t = fips_sha2_step (\<lambda>x. word_rotr 2 x XOR word_rotr 13 x XOR word_rotr 22 x)
     (\<lambda>x. word_rotr 6 x XOR word_rotr 11 x XOR word_rotr 25 x) (sha256_K ! t) (fips256_W block t)"

definition fips512_step :: "bytes \<Rightarrow> nat \<Rightarrow> 64 word sha2_vars \<Rightarrow> 64 word sha2_vars" where
  "fips512_step block t = fips_sha2_step (\<lambda>x. word_rotr 28 x XOR word_rotr 34 x XOR word_rotr 39 x)
     (\<lambda>x. word_rotr 14 x XOR word_rotr 18 x XOR word_rotr 41 x) (sha512_K ! t) (fips512_W block t)"

definition list_vars :: "'w list \<Rightarrow> 'w sha2_vars" where
  "list_vars S = (S ! 0, S ! 1, S ! 2, S ! 3, S ! 4, S ! 5, S ! 6, S ! 7)"

definition fips256_compress :: "32 word list \<Rightarrow> bytes \<Rightarrow> 32 word list" where
  "fips256_compress H block = map2 (+) H (vars_list (fold (fips256_step block) [0..<64] (list_vars H)))"

definition fips512_compress :: "64 word list \<Rightarrow> bytes \<Rightarrow> 64 word list" where
  "fips512_compress H block = map2 (+) H (vars_list (fold (fips512_step block) [0..<80] (list_vars H)))"

text \<open>Filling the array of the schedule from below computes the recursive function.\<close>

lemma sha256_fill_eq:
  "16 \<le> n \<Longrightarrow> sha256_fill k (map (fips256_W block) [0..<n]) = map (fips256_W block) [0..<n + k]"
proof (induction k arbitrary: n)
  case (Suc k)
  have "fips256_W block n = sha256_Gamma1 (fips256_W block (n - 2)) + fips256_W block (n - 7) +
      sha256_Gamma0 (fips256_W block (n - 15)) + fips256_W block (n - 16)"
    using Suc.prems by (subst fips256_W.simps) simp
  then have "sha256_fill (Suc k) (map (fips256_W block) [0..<n]) = sha256_fill k (map (fips256_W block) [0..<Suc n])"
    using Suc.prems by simp
  then show ?case using Suc.IH [of "Suc n"] Suc.prems by (simp del: upt_Suc)
qed simp

lemma sha512_fill_eq:
  "16 \<le> n \<Longrightarrow> sha512_fill k (map (fips512_W block) [0..<n]) = map (fips512_W block) [0..<n + k]"
proof (induction k arbitrary: n)
  case (Suc k)
  have "fips512_W block n = sha512_Gamma1 (fips512_W block (n - 2)) + fips512_W block (n - 7) +
      sha512_Gamma0 (fips512_W block (n - 15)) + fips512_W block (n - 16)"
    using Suc.prems by (subst fips512_W.simps) simp
  then have "sha512_fill (Suc k) (map (fips512_W block) [0..<n]) = sha512_fill k (map (fips512_W block) [0..<Suc n])"
    using Suc.prems by simp
  then show ?case using Suc.IH [of "Suc n"] Suc.prems by (simp del: upt_Suc)
qed simp

lemma sha256_W_eq: "t < 64 \<Longrightarrow> sha256_W block ! t = fips256_W block t"
proof -
  assume t: "t < 64"
  have eq: "map (\<lambda>i. sha256_load32 (drop (4 * i) block)) [0..<16] = map (fips256_W block) [0..<16]"
    by (rule map_cong [OF refl]) (simp add: fips256_W.simps)
  show ?thesis using t unfolding sha256_W_def eq sha256_fill_eq [OF order_refl] by simp
qed

lemma sha512_W_eq: "t < 80 \<Longrightarrow> sha512_W block ! t = fips512_W block t"
proof -
  assume t: "t < 80"
  have eq: "map (\<lambda>i. sha512_load64 (drop (8 * i) block)) [0..<16] = map (fips512_W block) [0..<16]"
    by (rule map_cong [OF refl]) (simp add: fips512_W.simps)
  show ?thesis using t unfolding sha512_W_def eq sha512_fill_eq [OF order_refl] by simp
qed

lemma list_update_numeral: "(x # xs)[numeral k := v] = x # xs[pred_numeral k := v]"
  by (simp add: numeral_eq_Suc)

lemmas sha2_step_simps = vars_list_def fips_sha2_step_def list_update_numeral Ch_eq Maj_eq rotr32_eq rotr64_eq

lemma vars_cases: obtains a b c d e f g h where "v = (a, b, c, d, e, f, g, h)"
  by (cases v) auto

lemma sha256_round_eq:
  assumes "i < 64"
  shows "sha256_round (sha256_W block) i (vars_list v) = vars_list (fips256_step block i v)"
  by (rule vars_cases [of v])
    (simp add: sha256_round_def sha2_step_simps Let_def sha256_W_eq [OF assms] sha256_Ch_def sha256_Maj_def
      sha256_Sigma0_def sha256_Sigma1_def fips256_step_def)

lemma length_8_cases:
  assumes "length S = 8"
  obtains a b c d e f g h where "S = [a, b, c, d, e, f, g, h]"
proof -
  have "S = [S ! 0, S ! 1, S ! 2, S ! 3, S ! 4, S ! 5, S ! 6, S ! 7]"
    using assms by (intro nth_equalityI) (auto simp: less_Suc_eq numeral_eq_Suc)
  then show ?thesis by (rule that)
qed

lemma vars_list_list_vars: "length S = 8 \<Longrightarrow> vars_list (list_vars S) = S"
  by (erule length_8_cases) (simp add: vars_list_def list_vars_def)

lemma list_vars_vars_list [simp]: "list_vars (vars_list v) = v"
  by (rule vars_cases [of v]) (simp add: vars_list_def list_vars_def)

lemma length_vars_list [simp]: "length (vars_list v) = 8"
  by (rule vars_cases [of v]) (simp add: vars_list_def)

lemma sha256_compress_eq:
  assumes "length state = 8"
  shows "sha256_compress state block = fips256_compress state block"
proof -
  have "fold (sha256_round (sha256_W block)) ts (vars_list v) = vars_list (fold (fips256_step block) ts v)"
    if "\<forall>t \<in> set ts. t < 64" for ts v
    using that by (induction ts arbitrary: v) (simp_all add: sha256_round_eq)
  from this [of "[0..<64]" "list_vars state"] show ?thesis
    by (simp add: sha256_compress_def fips256_compress_def vars_list_list_vars [OF assms])
qed

text \<open>
  After \<open>j\<close> calls of \<^verbatim>\<open>RND\<close> the variable number \<open>k\<close> is in the place \<open>k - j\<close>, counted modulo 8; one call is one
  step of the standard.
\<close>

definition turn :: "nat \<Rightarrow> 'w list \<Rightarrow> 'w list" where
  "turn j S = map (\<lambda>k. S ! ((k + 8 - j) mod 8)) [0..<8]"

lemma length_sha512_RND [simp]: "length (sha512_RND W v i S) = length S"
  by (rule vars_cases [of v]) (simp add: sha512_RND_def Let_def)

lemma sha512_RND_eq:
  assumes "t < 80" "length S = 8"
  shows "list_vars (turn 1 (sha512_RND (sha512_W block) (0, 1, 2, 3, 4, 5, 6, 7) t S)) = fips512_step block t (list_vars (turn 0 S))"
    and "list_vars (turn 2 (sha512_RND (sha512_W block) (7, 0, 1, 2, 3, 4, 5, 6) t S)) = fips512_step block t (list_vars (turn 1 S))"
    and "list_vars (turn 3 (sha512_RND (sha512_W block) (6, 7, 0, 1, 2, 3, 4, 5) t S)) = fips512_step block t (list_vars (turn 2 S))"
    and "list_vars (turn 4 (sha512_RND (sha512_W block) (5, 6, 7, 0, 1, 2, 3, 4) t S)) = fips512_step block t (list_vars (turn 3 S))"
    and "list_vars (turn 5 (sha512_RND (sha512_W block) (4, 5, 6, 7, 0, 1, 2, 3) t S)) = fips512_step block t (list_vars (turn 4 S))"
    and "list_vars (turn 6 (sha512_RND (sha512_W block) (3, 4, 5, 6, 7, 0, 1, 2) t S)) = fips512_step block t (list_vars (turn 5 S))"
    and "list_vars (turn 7 (sha512_RND (sha512_W block) (2, 3, 4, 5, 6, 7, 0, 1) t S)) = fips512_step block t (list_vars (turn 6 S))"
    and "list_vars (turn 8 (sha512_RND (sha512_W block) (1, 2, 3, 4, 5, 6, 7, 0) t S)) = fips512_step block t (list_vars (turn 7 S))"
  using assms(2)
  by (rule length_8_cases; simp add: sha512_RND_def sha512_W_eq [OF assms(1)] fips512_step_def fips_sha2_step_def
      list_vars_def turn_def upt_rec sha512_Ch_def sha512_Maj_def sha512_Sigma0_def sha512_Sigma1_def
      list_update_numeral Ch_eq Maj_eq rotr64_eq Let_def)+

lemma turn_whole: "length S = 8 \<Longrightarrow> turn 0 S = S \<and> turn 8 S = S"
  by (erule length_8_cases) (simp add: turn_def upt_rec)

lemma length_round8 [simp]: "length (sha512_round8 W i S) = length S"
  by (simp add: sha512_round8_def Let_def)

lemma sha512_round8_eq:
  assumes "i + 7 < 80" "length S = 8"
  shows "list_vars (sha512_round8 (sha512_W block) i S) = fold (fips512_step block) [i..<i + 8] (list_vars S)"
proof -
  have "list_vars (turn 8 (sha512_round8 (sha512_W block) i S)) =
      fips512_step block (i + 7) (fips512_step block (i + 6) (fips512_step block (i + 5) (fips512_step block (i + 4)
      (fips512_step block (i + 3) (fips512_step block (i + 2) (fips512_step block (i + 1) (fips512_step block (i + 0)
      (list_vars (turn 0 S)))))))))"
    using assms by (simp only: sha512_round8_def Let_def sha512_RND_eq length_sha512_RND)
  moreover have "[i..<i + 8] = [i + 0, i + 1, i + 2, i + 3, i + 4, i + 5, i + 6, i + 7]"
    by (simp add: upt_rec)
  ultimately show ?thesis
    using turn_whole [of S] turn_whole [of "sha512_round8 (sha512_W block) i S"] assms(2)
    by (simp only: length_round8) simp
qed

lemma sha512_compress_eq:
  assumes "length state = 8"
  shows "sha512_compress state block = fips512_compress state block"
proof -
  let ?F = "\<lambda>n. fold (\<lambda>j. sha512_round8 (sha512_W block) (8 * j)) [0..<n] state"
  have rounds: "list_vars (?F n) = fold (fips512_step block) [0..<8 * n] (list_vars state) \<and> length (?F n) = 8"
    if "n \<le> 10" for n
    using that
  proof (induction n)
    case (Suc n)
    have "[0..<8 * Suc n] = [0..<8 * n] @ [8 * n..<8 * n + 8]"
      using upt_add_eq_append [of 0 "8 * n" 8] by (simp add: add.commute)
    then show ?case using Suc sha512_round8_eq [of "8 * n" _ block] by simp
  qed (use assms in simp)
  have "?F 10 = vars_list (list_vars (?F 10))" using rounds [of 10] vars_list_list_vars [of "?F 10"] by simp
  also have "\<dots> = vars_list (fold (fips512_step block) [0..<80] (list_vars state))" using rounds [of 10] by simp
  finally show ?thesis by (simp only: sha512_compress_def fips512_compress_def)
qed

subsection \<open>The digest of a message\<close>

interpretation sha256_digest: block_digest sha256_compress 64 56 56 sha256_store64
  by unfold_locales (simp_all add: sha256_store64_def)

interpretation sha512_digest: block_digest sha512_compress 128 112 120 sha512_store64
  by unfold_locales (simp_all add: sha512_store64_def)

definition fips_sha256 :: "bytes \<Rightarrow> bytes" where
  "fips_sha256 msg = concat (map sha256_store32 (md_hash fips256_compress 64 56 56 sha256_store64 sha256_iv msg))"

lemma sha256_law:
  assumes "length buf = 64"
  shows "\<exists>c. foldE (\<lambda>c data. sha256_process data c) (sha256_new buf) chunks = Inr c \<and>
    sha256_digest c = Inr (fips_sha256 (concat chunks))"
proof -
  have "md_hash sha256_compress 64 56 56 sha256_store64 sha256_iv msg = md_hash fips256_compress 64 56 56 sha256_store64 sha256_iv msg" for msg
    by (rule md_hash_cong [of 8]) (simp_all add: sha256_compress_eq fips256_compress_def sha256_iv_def)
  moreover obtain c c' where "foldE (\<lambda>c data. sha256_process data c) (sha256_new buf) chunks = Inr c"
      "digest_finalize sha256_compress 64 56 56 sha256_store64 c = Inr c'"
      "dc_state c' = md_hash sha256_compress 64 56 56 sha256_store64 sha256_iv (concat chunks)"
    using sha256_digest.digest_law [OF assms, of sha256_iv chunks] by (auto simp: sha256_new_def sha256_process_def)
  ultimately show ?thesis by (simp add: sha256_digest_def sha256_finalize_def fips_sha256_def)
qed

definition fips_sha512 :: "bytes \<Rightarrow> bytes" where
  "fips_sha512 msg = concat (map sha512_store64 (md_hash fips512_compress 128 112 120 sha512_store64 sha512_iv msg))"

lemma sha512_law:
  assumes "length buf = 128"
  shows "\<exists>c. foldE (\<lambda>c data. sha512_process data c) (sha512_new buf) chunks = Inr c \<and>
    sha512_digest c = Inr (fips_sha512 (concat chunks))"
proof -
  have "md_hash sha512_compress 128 112 120 sha512_store64 sha512_iv msg = md_hash fips512_compress 128 112 120 sha512_store64 sha512_iv msg" for msg
    by (rule md_hash_cong [of 8]) (simp_all add: sha512_compress_eq fips512_compress_def sha512_iv_def)
  moreover obtain c c' where "foldE (\<lambda>c data. sha512_process data c) (sha512_new buf) chunks = Inr c"
      "digest_finalize sha512_compress 128 112 120 sha512_store64 c = Inr c'"
      "dc_state c' = md_hash sha512_compress 128 112 120 sha512_store64 sha512_iv (concat chunks)"
    using sha512_digest.digest_law [OF assms, of sha512_iv chunks] by (auto simp: sha512_new_def sha512_process_def)
  ultimately show ?thesis by (simp add: sha512_digest_def sha512_finalize_def fips_sha512_def)
qed

end
