(* ===== verification/Sha1.thy ===== *)
theory Sha1
  imports Sha2
begin

text \<open>
  \<^verbatim>\<open>SHA1\<close> (src/flare/base/sha1.h and sha1.cc), against section 6.1.2 of FIPS 180-4: the logical
  functions of the standard, the schedule as a recursive function, and one loop of 80 steps for the
  four loops of the code.
\<close>

subsection \<open>Model\<close>

definition sha1_store64h :: "64 word \<Rightarrow> bytes" where
  "sha1_store64h x = map (\<lambda>i. ucast (drop_bit ((7 - i) * 8) x AND 255)) [0..<8]"

definition sha1_load32h :: "bytes \<Rightarrow> 32 word" where
  "sha1_load32h y = push_bit 24 (ucast (y ! 0)) OR push_bit 16 (ucast (y ! 1)) OR
     push_bit 8 (ucast (y ! 2)) OR push_bit 0 (ucast (y ! 3))"

definition sha1_store32h :: "32 word \<Rightarrow> bytes" where
  "sha1_store32h x = map (\<lambda>i. ucast (drop_bit ((3 - i) * 8) x AND 255)) [0..<4]"

definition sha1_F0 :: "32 word \<Rightarrow> 32 word \<Rightarrow> 32 word \<Rightarrow> 32 word" where
  "sha1_F0 x y z = z XOR (x AND (y XOR z))"

definition sha1_F1 :: "32 word \<Rightarrow> 32 word \<Rightarrow> 32 word \<Rightarrow> 32 word" where
  "sha1_F1 x y z = x XOR y XOR z"

definition sha1_F2 :: "32 word \<Rightarrow> 32 word \<Rightarrow> 32 word \<Rightarrow> 32 word" where
  "sha1_F2 x y z = (x AND y) OR (z AND (x OR y))"

definition sha1_F3 :: "32 word \<Rightarrow> 32 word \<Rightarrow> 32 word \<Rightarrow> 32 word" where
  "sha1_F3 x y z = x XOR y XOR z"

primrec sha1_expand :: "nat \<Rightarrow> 32 word list \<Rightarrow> 32 word list" where
  "sha1_expand 0 W = W"
| "sha1_expand (Suc n) W =
     (let i = length W in
      sha1_expand n (W @ [rotl32 (W ! (i - 3) XOR W ! (i - 8) XOR W ! (i - 14) XOR W ! (i - 16)) 1]))"

definition sha1_W :: "bytes \<Rightarrow> 32 word list" where
  "sha1_W buf = sha1_expand 64 (map (\<lambda>i. sha1_load32h (drop (4 * i) buf)) [0..<16])"

type_synonym sha1_vars = "32 word \<times> 32 word \<times> 32 word \<times> 32 word \<times> 32 word"

text \<open>The body of the four loops, with the function and the constant of each.\<close>

definition sha1_body ::
  "32 word list \<Rightarrow> (32 word \<Rightarrow> 32 word \<Rightarrow> 32 word \<Rightarrow> 32 word) \<Rightarrow> 32 word \<Rightarrow> nat \<Rightarrow> sha1_vars \<Rightarrow> sha1_vars" where
  "sha1_body W F k i = (\<lambda>(a, b, c, d, e).
     let e = rotl32 a 5 + F b c d + e + W ! i + k;
         b = rotl32 b 30;
         t = e; e = d; d = c; c = b; b = a; a = t
     in (a, b, c, d, e))"

definition sha1_compress :: "32 word list \<Rightarrow> bytes \<Rightarrow> 32 word list" where
  "sha1_compress state buf =
     (let W = sha1_W buf;
          v = (state ! 0, state ! 1, state ! 2, state ! 3, state ! 4);
          v = fold (sha1_body W sha1_F0 0x5a827999) [0..<20] v;
          v = fold (sha1_body W sha1_F1 0x6ed9eba1) [20..<40] v;
          v = fold (sha1_body W sha1_F2 0x8f1bbcdc) [40..<60] v;
          (a, b, c, d, e) = fold (sha1_body W sha1_F3 0xca62c1d6) [60..<80] v
      in [state ! 0 + a, state ! 1 + b, state ! 2 + c, state ! 3 + d, state ! 4 + e])"

definition sha1_iv :: "32 word list" where
  "sha1_iv = [0x67452301, 0xefcdab89, 0x98badcfe, 0x10325476, 0xc3d2e1f0]"

definition sha1_new :: "bytes \<Rightarrow> 32 word digest_ctx" where
  "sha1_new buf = \<lparr>dc_length = 0, dc_state = sha1_iv, dc_curlen = 0, dc_buf = buf\<rparr>"

definition sha1_process :: "bytes \<Rightarrow> 32 word digest_ctx \<Rightarrow> 32 word digest_ctx run" where
  "sha1_process data c = digest_process sha1_compress 64 data c"

definition sha1_process_string :: "bytes \<Rightarrow> 32 word digest_ctx \<Rightarrow> 32 word digest_ctx run" where
  "sha1_process_string str c = digest_process_string sha1_compress 64 str c"

definition sha1_finalize :: "32 word digest_ctx \<Rightarrow> (bytes \<times> 32 word digest_ctx) run" where
  "sha1_finalize c =
     mapE (\<lambda>c. (concat (map sha1_store32h (dc_state c)), c)) (digest_finalize sha1_compress 64 56 56 sha1_store64h c)"

definition sha1_digest :: "32 word digest_ctx \<Rightarrow> bytes run" where
  "sha1_digest c = mapE fst (sha1_finalize c)"

subsection \<open>FIPS 180-4\<close>

definition fips_Parity :: "32 word \<Rightarrow> 32 word \<Rightarrow> 32 word \<Rightarrow> 32 word" where
  "fips_Parity x y z = x XOR y XOR z"

definition fips1_f :: "nat \<Rightarrow> 32 word \<Rightarrow> 32 word \<Rightarrow> 32 word \<Rightarrow> 32 word" where
  "fips1_f t = (if t < 20 then fips_Ch else if t < 40 then fips_Parity else if t < 60 then fips_Maj else fips_Parity)"

definition fips1_K :: "nat \<Rightarrow> 32 word" where
  "fips1_K t = (if t < 20 then 0x5a827999 else if t < 40 then 0x6ed9eba1 else if t < 60 then 0x8f1bbcdc else 0xca62c1d6)"

fun fips1_W :: "bytes \<Rightarrow> nat \<Rightarrow> 32 word" where
  "fips1_W block t =
     (if t < 16 then sha1_load32h (drop (4 * t) block)
      else word_rotl 1 (fips1_W block (t - 3) XOR fips1_W block (t - 8) XOR fips1_W block (t - 14) XOR fips1_W block (t - 16)))"

declare fips1_W.simps [simp del]

definition fips1_step :: "bytes \<Rightarrow> nat \<Rightarrow> sha1_vars \<Rightarrow> sha1_vars" where
  "fips1_step block t = (\<lambda>(a, b, c, d, e).
     let T = word_rotl 5 a + fips1_f t b c d + e + fips1_K t + fips1_W block t
     in (T, a, word_rotl 30 b, c, d))"

definition fips1_compress :: "32 word list \<Rightarrow> bytes \<Rightarrow> 32 word list" where
  "fips1_compress H block =
     (case fold (fips1_step block) [0..<80] (H ! 0, H ! 1, H ! 2, H ! 3, H ! 4) of
        (a, b, c, d, e) \<Rightarrow> [H ! 0 + a, H ! 1 + b, H ! 2 + c, H ! 3 + d, H ! 4 + e])"

lemma sha1_expand_eq:
  "16 \<le> n \<Longrightarrow> sha1_expand k (map (fips1_W block) [0..<n]) = map (fips1_W block) [0..<n + k]"
proof (induction k arbitrary: n)
  case (Suc k)
  have "fips1_W block n = word_rotl 1 (fips1_W block (n - 3) XOR fips1_W block (n - 8) XOR fips1_W block (n - 14) XOR fips1_W block (n - 16))"
    using Suc.prems by (subst fips1_W.simps) simp
  then have "sha1_expand (Suc k) (map (fips1_W block) [0..<n]) = sha1_expand k (map (fips1_W block) [0..<Suc n])"
    using Suc.prems by (simp add: rotl32_eq)
  then show ?case using Suc.IH [of "Suc n"] Suc.prems by (simp del: upt_Suc)
qed simp

lemma sha1_W_eq: "t < 80 \<Longrightarrow> sha1_W block ! t = fips1_W block t"
proof -
  assume t: "t < 80"
  have eq: "map (\<lambda>i. sha1_load32h (drop (4 * i) block)) [0..<16] = map (fips1_W block) [0..<16]"
    by (rule map_cong [OF refl]) (simp add: fips1_W.simps)
  show ?thesis using t unfolding sha1_W_def eq sha1_expand_eq [OF order_refl] by simp
qed

lemma sha1_body_eq:
  assumes "t < 80" "F = fips1_f t" "k = fips1_K t"
  shows "sha1_body (sha1_W block) F k t v = fips1_step block t v"
  by (cases v) (simp add: sha1_body_def fips1_step_def assms sha1_W_eq rotl32_eq Let_def ac_simps)

lemma sha1_loop_eq:
  assumes "\<And>t. t \<in> set ts \<Longrightarrow> t < 80 \<and> F = fips1_f t \<and> k = fips1_K t"
  shows "fold (sha1_body (sha1_W block) F k) ts v = fold (fips1_step block) ts v"
  using assms by (induction ts arbitrary: v) (simp_all add: sha1_body_eq)

lemma sha1_F_eq: "sha1_F0 = fips_Ch" "sha1_F1 = fips_Parity" "sha1_F2 = fips_Maj" "sha1_F3 = fips_Parity"
proof -
  show "sha1_F0 = fips_Ch" by (intro ext) (simp add: sha1_F0_def Ch_eq)
  show "sha1_F2 = fips_Maj"
    by (intro ext bit_word_eqI) (auto simp: sha1_F2_def fips_Maj_def bit_simps)
qed (intro ext; simp add: sha1_F1_def sha1_F3_def fips_Parity_def)+

lemma sha1_compress_eq: "sha1_compress state block = fips1_compress state block"
proof -
  have "[0..<80] = [0..<20] @ [20..<40] @ [40..<60] @ [60..<80]"
    by (simp add: upt_rec)
  then have "fold (fips1_step block) [0..<80] v = fold (fips1_step block) [60..<80] (fold (fips1_step block) [40..<60]
      (fold (fips1_step block) [20..<40] (fold (fips1_step block) [0..<20] v)))" for v
    by (simp only: fold_append comp_apply)
  moreover have "fold (sha1_body (sha1_W block) sha1_F0 0x5a827999) [0..<20] v = fold (fips1_step block) [0..<20] v"
    "fold (sha1_body (sha1_W block) sha1_F1 0x6ed9eba1) [20..<40] v = fold (fips1_step block) [20..<40] v"
    "fold (sha1_body (sha1_W block) sha1_F2 0x8f1bbcdc) [40..<60] v = fold (fips1_step block) [40..<60] v"
    "fold (sha1_body (sha1_W block) sha1_F3 0xca62c1d6) [60..<80] v = fold (fips1_step block) [60..<80] v" for v
    by (rule sha1_loop_eq; auto simp: sha1_F_eq fips1_f_def fips1_K_def)+
  ultimately show ?thesis by (simp only: sha1_compress_def fips1_compress_def Let_def)
qed

subsection \<open>The digest of a message\<close>

interpretation sha1_digest: block_digest sha1_compress 64 56 56 sha1_store64h
  by unfold_locales (simp_all add: sha1_store64h_def)

definition fips_sha1 :: "bytes \<Rightarrow> bytes" where
  "fips_sha1 msg = concat (map sha1_store32h (md_hash fips1_compress 64 56 56 sha1_store64h sha1_iv msg))"

lemma sha1_law:
  assumes "length buf = 64"
  shows "\<exists>c. foldE (\<lambda>c data. sha1_process data c) (sha1_new buf) chunks = Inr c \<and>
    sha1_digest c = Inr (fips_sha1 (concat chunks))"
proof -
  have "sha1_compress = fips1_compress" by (intro ext sha1_compress_eq)
  moreover obtain c c' where "foldE (\<lambda>c data. sha1_process data c) (sha1_new buf) chunks = Inr c"
      "digest_finalize sha1_compress 64 56 56 sha1_store64h c = Inr c'"
      "dc_state c' = md_hash sha1_compress 64 56 56 sha1_store64h sha1_iv (concat chunks)"
    using sha1_digest.digest_law [OF assms, of sha1_iv chunks] by (auto simp: sha1_new_def sha1_process_def)
  ultimately show ?thesis by (simp add: sha1_digest_def sha1_finalize_def fips_sha1_def)
qed

end
