(* ===== verification/Md5.thy ===== *)
theory Md5
  imports Sha2
begin

text \<open>
  \<^verbatim>\<open>MD5\<close> (src/flare/base/md5.h and md5.cc), against RFC 1321: the auxiliary functions as the RFC writes
  them, the order of the words and the shift amounts by their formulas, and one loop of 64 steps for
  the four loops of the code.  The sine table is the one of the code.
\<close>

subsection \<open>Model\<close>

definition md5_load32l :: "bytes \<Rightarrow> 32 word" where
  "md5_load32l y = fold (\<lambda>i res. res OR push_bit (i * 8) (ucast (y ! i))) [0..<4] 0"

definition md5_store32l :: "32 word \<Rightarrow> bytes" where
  "md5_store32l x = map (\<lambda>i. ucast (drop_bit (i * 8) x AND 255)) [0..<4]"

definition md5_store64l :: "64 word \<Rightarrow> bytes" where
  "md5_store64l x = map (\<lambda>i. ucast (drop_bit (i * 8) x AND 255)) [0..<8]"

definition md5_F :: "32 word \<Rightarrow> 32 word \<Rightarrow> 32 word \<Rightarrow> 32 word" where
  "md5_F x y z = z XOR (x AND (y XOR z))"

definition md5_G :: "32 word \<Rightarrow> 32 word \<Rightarrow> 32 word \<Rightarrow> 32 word" where
  "md5_G x y z = y XOR (z AND (y XOR x))"

definition md5_H :: "32 word \<Rightarrow> 32 word \<Rightarrow> 32 word \<Rightarrow> 32 word" where
  "md5_H x y z = x XOR y XOR z"

definition md5_I :: "32 word \<Rightarrow> 32 word \<Rightarrow> 32 word \<Rightarrow> 32 word" where
  "md5_I x y z = y XOR (x OR NOT z)"

definition md5_FF :: "32 word \<Rightarrow> 32 word \<Rightarrow> 32 word \<Rightarrow> 32 word \<Rightarrow> 32 word \<Rightarrow> nat \<Rightarrow> 32 word \<Rightarrow> 32 word" where
  "md5_FF a b c d M s t = (let a = a + md5_F b c d + M + t in rotl32 a s + b)"

definition md5_GG :: "32 word \<Rightarrow> 32 word \<Rightarrow> 32 word \<Rightarrow> 32 word \<Rightarrow> 32 word \<Rightarrow> nat \<Rightarrow> 32 word \<Rightarrow> 32 word" where
  "md5_GG a b c d M s t = (let a = a + md5_G b c d + M + t in rotl32 a s + b)"

definition md5_HH :: "32 word \<Rightarrow> 32 word \<Rightarrow> 32 word \<Rightarrow> 32 word \<Rightarrow> 32 word \<Rightarrow> nat \<Rightarrow> 32 word \<Rightarrow> 32 word" where
  "md5_HH a b c d M s t = (let a = a + md5_H b c d + M + t in rotl32 a s + b)"

definition md5_II :: "32 word \<Rightarrow> 32 word \<Rightarrow> 32 word \<Rightarrow> 32 word \<Rightarrow> 32 word \<Rightarrow> nat \<Rightarrow> 32 word \<Rightarrow> 32 word" where
  "md5_II a b c d M s t = (let a = a + md5_I b c d + M + t in rotl32 a s + b)"

definition kWorder :: "nat list" where
  "kWorder =
    [0, 1, 2, 3, 4, 5, 6, 7, 8, 9, 10, 11, 12, 13, 14, 15,
     1, 6, 11, 0, 5, 10, 15, 4, 9, 14, 3, 8, 13, 2, 7, 12,
     5, 8, 11, 14, 1, 4, 7, 10, 13, 0, 3, 6, 9, 12, 15, 2,
     0, 7, 14, 5, 12, 3, 10, 1, 8, 15, 6, 13, 4, 11, 2, 9]"

definition kRorder :: "nat list" where
  "kRorder =
    [7, 12, 17, 22, 7, 12, 17, 22, 7, 12, 17, 22, 7, 12, 17, 22,
     5, 9, 14, 20, 5, 9, 14, 20, 5, 9, 14, 20, 5, 9, 14, 20,
     4, 11, 16, 23, 4, 11, 16, 23, 4, 11, 16, 23, 4, 11, 16, 23,
     6, 10, 15, 21, 6, 10, 15, 21, 6, 10, 15, 21, 6, 10, 15, 21]"

definition kOrder :: "32 word list" where
  "kOrder =
    [0xd76aa478, 0xe8c7b756, 0x242070db, 0xc1bdceee, 0xf57c0faf,
     0x4787c62a, 0xa8304613, 0xfd469501, 0x698098d8, 0x8b44f7af,
     0xffff5bb1, 0x895cd7be, 0x6b901122, 0xfd987193, 0xa679438e,
     0x49b40821, 0xf61e2562, 0xc040b340, 0x265e5a51, 0xe9b6c7aa,
     0xd62f105d, 0x02441453, 0xd8a1e681, 0xe7d3fbc8, 0x21e1cde6,
     0xc33707d6, 0xf4d50d87, 0x455a14ed, 0xa9e3e905, 0xfcefa3f8,
     0x676f02d9, 0x8d2a4c8a, 0xfffa3942, 0x8771f681, 0x6d9d6122,
     0xfde5380c, 0xa4beea44, 0x4bdecfa9, 0xf6bb4b60, 0xbebfbc70,
     0x289b7ec6, 0xeaa127fa, 0xd4ef3085, 0x04881d05, 0xd9d4d039,
     0xe6db99e5, 0x1fa27cf8, 0xc4ac5665, 0xf4292244, 0x432aff97,
     0xab9423a7, 0xfc93a039, 0x655b59c3, 0x8f0ccc92, 0xffeff47d,
     0x85845dd1, 0x6fa87e4f, 0xfe2ce6e0, 0xa3014314, 0x4e0811a1,
     0xf7537e82, 0xbd3af235, 0x2ad7d2bb, 0xeb86d391]"

type_synonym md5_vars = "32 word \<times> 32 word \<times> 32 word \<times> 32 word"

text \<open>The body of the four loops, with the operation of each.\<close>

definition md5_body ::
  "32 word list \<Rightarrow> (32 word \<Rightarrow> 32 word \<Rightarrow> 32 word \<Rightarrow> 32 word \<Rightarrow> 32 word \<Rightarrow> nat \<Rightarrow> 32 word \<Rightarrow> 32 word) \<Rightarrow>
   nat \<Rightarrow> md5_vars \<Rightarrow> md5_vars" where
  "md5_body W op i = (\<lambda>(a, b, c, d).
     let a = op a b c d (W ! (kWorder ! i)) (kRorder ! i) (kOrder ! i);
         t = d; d = c; c = b; b = a; a = t
     in (a, b, c, d))"

definition md5_compress :: "32 word list \<Rightarrow> bytes \<Rightarrow> 32 word list" where
  "md5_compress state buf =
     (let W = map (\<lambda>i. md5_load32l (drop (4 * i) buf)) [0..<16];
          v = (state ! 0, state ! 1, state ! 2, state ! 3);
          v = fold (md5_body W md5_FF) [0..<16] v;
          v = fold (md5_body W md5_GG) [16..<32] v;
          v = fold (md5_body W md5_HH) [32..<48] v;
          (a, b, c, d) = fold (md5_body W md5_II) [48..<64] v
      in [state ! 0 + a, state ! 1 + b, state ! 2 + c, state ! 3 + d])"

definition md5_iv :: "32 word list" where
  "md5_iv = [0x67452301, 0xefcdab89, 0x98badcfe, 0x10325476]"

definition md5_new :: "bytes \<Rightarrow> 32 word digest_ctx" where
  "md5_new buf = \<lparr>dc_length = 0, dc_state = md5_iv, dc_curlen = 0, dc_buf = buf\<rparr>"

definition md5_process :: "bytes \<Rightarrow> 32 word digest_ctx \<Rightarrow> 32 word digest_ctx run" where
  "md5_process data c = digest_process md5_compress 64 data c"

definition md5_process_string :: "bytes \<Rightarrow> 32 word digest_ctx \<Rightarrow> 32 word digest_ctx run" where
  "md5_process_string str c = digest_process_string md5_compress 64 str c"

definition md5_finalize :: "32 word digest_ctx \<Rightarrow> (bytes \<times> 32 word digest_ctx) run" where
  "md5_finalize c =
     mapE (\<lambda>c. (concat (map md5_store32l (dc_state c)), c)) (digest_finalize md5_compress 64 56 56 md5_store64l c)"

definition md5_digest :: "32 word digest_ctx \<Rightarrow> bytes run" where
  "md5_digest c = mapE fst (md5_finalize c)"

subsection \<open>RFC 1321\<close>

definition rfc_F :: "nat \<Rightarrow> 32 word \<Rightarrow> 32 word \<Rightarrow> 32 word \<Rightarrow> 32 word" where
  "rfc_F i x y z =
     (if i < 16 then (x AND y) OR (NOT x AND z)
      else if i < 32 then (x AND z) OR (y AND NOT z)
      else if i < 48 then x XOR y XOR z
      else y XOR (x OR NOT z))"

definition rfc_k :: "nat \<Rightarrow> nat" where
  "rfc_k i = (if i < 16 then i else if i < 32 then (1 + 5 * i) mod 16 else if i < 48 then (5 + 3 * i) mod 16 else 7 * i mod 16)"

definition rfc_s :: "nat \<Rightarrow> nat" where
  "rfc_s i = [[7, 12, 17, 22], [5, 9, 14, 20], [4, 11, 16, 23], [6, 10, 15, 21]] ! (i div 16) ! (i mod 4)"

definition rfc_step :: "bytes \<Rightarrow> nat \<Rightarrow> md5_vars \<Rightarrow> md5_vars" where
  "rfc_step block i = (\<lambda>(a, b, c, d).
     (d, b + word_rotl (rfc_s i) (a + rfc_F i b c d + md5_load32l (drop (4 * rfc_k i) block) + kOrder ! i), b, c))"

definition rfc_md5_compress :: "32 word list \<Rightarrow> bytes \<Rightarrow> 32 word list" where
  "rfc_md5_compress H block =
     (case fold (rfc_step block) [0..<64] (H ! 0, H ! 1, H ! 2, H ! 3) of
        (a, b, c, d) \<Rightarrow> [H ! 0 + a, H ! 1 + b, H ! 2 + c, H ! 3 + d])"

lemma orders: "kWorder = map rfc_k [0..<64]" "kRorder = map rfc_s [0..<64]"
  by (simp_all add: kWorder_def kRorder_def rfc_k_def rfc_s_def upt_rec)

lemma rfc_k_less: "rfc_k i < 16"
  by (simp add: rfc_k_def)

lemma md5_body_eq:
  assumes "i < 64" "\<And>a b c d M s t. op a b c d M s t = rotl32 (a + rfc_F i b c d + M + t) s + b"
  shows "md5_body (map (\<lambda>i. md5_load32l (drop (4 * i) block)) [0..<16]) op i v = rfc_step block i v"
  using assms rfc_k_less [of i]
  by (cases v) (simp add: md5_body_def rfc_step_def orders rotl32_eq ac_simps)

lemma md5_loop_eq:
  assumes "\<And>i. i \<in> set is \<Longrightarrow> i < 64 \<and> (\<forall>a b c d M s t. op a b c d M s t = rotl32 (a + rfc_F i b c d + M + t) s + b)"
  shows "fold (md5_body (map (\<lambda>i. md5_load32l (drop (4 * i) block)) [0..<16]) op) is v = fold (rfc_step block) is v"
  using assms by (induction "is" arbitrary: v) (simp_all add: md5_body_eq)

lemma md5_F_eq: "md5_F x y z = (x AND y) OR (NOT x AND z)" "md5_G x y z = (x AND z) OR (y AND NOT z)"
  by (rule bit_word_eqI; auto simp: md5_F_def md5_G_def bit_simps)+

lemma md5_compress_eq: "md5_compress state block = rfc_md5_compress state block"
proof -
  let ?W = "map (\<lambda>i. md5_load32l (drop (4 * i) block)) [0..<16]"
  have "[0..<64] = [0..<16] @ [16..<32] @ [32..<48] @ [48..<64]"
    by (simp add: upt_rec)
  then have "fold (rfc_step block) [0..<64] v = fold (rfc_step block) [48..<64] (fold (rfc_step block) [32..<48]
      (fold (rfc_step block) [16..<32] (fold (rfc_step block) [0..<16] v)))" for v
    by (simp only: fold_append comp_apply)
  moreover have "fold (md5_body ?W md5_FF) [0..<16] v = fold (rfc_step block) [0..<16] v"
    "fold (md5_body ?W md5_GG) [16..<32] v = fold (rfc_step block) [16..<32] v"
    "fold (md5_body ?W md5_HH) [32..<48] v = fold (rfc_step block) [32..<48] v"
    "fold (md5_body ?W md5_II) [48..<64] v = fold (rfc_step block) [48..<64] v" for v
    by (rule md5_loop_eq; auto simp: md5_FF_def md5_GG_def md5_HH_def md5_II_def md5_F_eq md5_H_def md5_I_def rfc_F_def)+
  ultimately show ?thesis by (simp only: md5_compress_def rfc_md5_compress_def Let_def)
qed

subsection \<open>The digest of a message\<close>

interpretation md5_digest: block_digest md5_compress 64 56 56 md5_store64l
  by unfold_locales (simp_all add: md5_store64l_def)

definition rfc_md5 :: "bytes \<Rightarrow> bytes" where
  "rfc_md5 msg = concat (map md5_store32l (md_hash rfc_md5_compress 64 56 56 md5_store64l md5_iv msg))"

lemma md5_law:
  assumes "length buf = 64"
  shows "\<exists>c. foldE (\<lambda>c data. md5_process data c) (md5_new buf) chunks = Inr c \<and>
    md5_digest c = Inr (rfc_md5 (concat chunks))"
proof -
  have "md5_compress = rfc_md5_compress" by (intro ext md5_compress_eq)
  moreover obtain c c' where "foldE (\<lambda>c data. md5_process data c) (md5_new buf) chunks = Inr c"
      "digest_finalize md5_compress 64 56 56 md5_store64l c = Inr c'"
      "dc_state c' = md_hash md5_compress 64 56 56 md5_store64l md5_iv (concat chunks)"
    using md5_digest.digest_law [OF assms, of md5_iv chunks] by (auto simp: md5_new_def md5_process_def)
  ultimately show ?thesis by (simp add: md5_digest_def md5_finalize_def rfc_md5_def)
qed

end
