(* ===== verification/Hex_Dump.thy ===== *)
theory Hex_Dump
  imports Ascii Word_Bits
begin

text \<open>
  Hexadecimal dumps and their parser (src/flare/strings/hex_dump.cc).  The exception of
  \<^verbatim>\<open>parse_hex_dump\<close> is \<open>None\<close>.
\<close>

subsection \<open>Model\<close>

definition xdigits :: bytes where
  "xdigits = bytes_of ''0123456789ABCDEF''"

definition hex_dump :: "bytes \<Rightarrow> bytes" where
  "hex_dump data = concat (map (\<lambda>c. [xdigits ! unat (drop_bit 4 (c AND 0xF0)), xdigits ! unat (c AND 0x0F)]) data)"

definition xdigits_lc :: bytes where
  "xdigits_lc = bytes_of ''0123456789abcdef''"

definition hex_dump_lc :: "bytes \<Rightarrow> bytes" where
  "hex_dump_lc data = concat (map (\<lambda>c. [xdigits_lc ! unat (drop_bit 4 (c AND 0xF0)), xdigits_lc ! unat (c AND 0x0F)]) data)"

text \<open>The two switches over a character.\<close>

definition hex_first :: "(byte \<times> byte) list" where
  "hex_first = map (\<lambda>(c, v). (of_char c, v))
     [(CHR ''0'', 0x00), (CHR ''1'', 0x10), (CHR ''2'', 0x20), (CHR ''3'', 0x30), (CHR ''4'', 0x40), (CHR ''5'', 0x50),
      (CHR ''6'', 0x60), (CHR ''7'', 0x70), (CHR ''8'', 0x80), (CHR ''9'', 0x90), (CHR ''A'', 0xA0), (CHR ''a'', 0xA0),
      (CHR ''B'', 0xB0), (CHR ''b'', 0xB0), (CHR ''C'', 0xC0), (CHR ''c'', 0xC0), (CHR ''D'', 0xD0), (CHR ''d'', 0xD0),
      (CHR ''E'', 0xE0), (CHR ''e'', 0xE0), (CHR ''F'', 0xF0), (CHR ''f'', 0xF0)]"

definition hex_second :: "(byte \<times> byte) list" where
  "hex_second = map (\<lambda>(c, v). (of_char c, v))
     [(CHR ''0'', 0x00), (CHR ''1'', 0x01), (CHR ''2'', 0x02), (CHR ''3'', 0x03), (CHR ''4'', 0x04), (CHR ''5'', 0x05),
      (CHR ''6'', 0x06), (CHR ''7'', 0x07), (CHR ''8'', 0x08), (CHR ''9'', 0x09), (CHR ''A'', 0x0A), (CHR ''a'', 0x0A),
      (CHR ''B'', 0x0B), (CHR ''b'', 0x0B), (CHR ''C'', 0x0C), (CHR ''c'', 0x0C), (CHR ''D'', 0x0D), (CHR ''d'', 0x0D),
      (CHR ''E'', 0x0E), (CHR ''e'', 0x0E), (CHR ''F'', 0x0F), (CHR ''f'', 0x0F)]"

fun parse_hex_loop :: "bytes \<Rightarrow> bytes \<Rightarrow> bytes option" where
  "parse_hex_loop [] out = Some out"
| "parse_hex_loop (x # str) out =
     (case map_of hex_first x of
        None \<Rightarrow> None
      | Some v \<Rightarrow>
          let c = 0 OR v in
          (case str of
             [] \<Rightarrow> None
           | y # str \<Rightarrow>
               (case map_of hex_second y of
                  None \<Rightarrow> None
                | Some w \<Rightarrow> parse_hex_loop str (out @ [c OR w]))))"

definition parse_hex_dump :: "bytes \<Rightarrow> bytes option" where
  "parse_hex_dump str = parse_hex_loop str []"

subsection \<open>Digits\<close>

text \<open>The value of a hexadecimal digit.\<close>

definition hex_value :: "byte \<Rightarrow> nat option" where
  "hex_value c =
     (if 48 \<le> unat c \<and> unat c \<le> 57 then Some (unat c - 48)
      else if 65 \<le> unat c \<and> unat c \<le> 70 then Some (unat c - 55)
      else if 97 \<le> unat c \<and> unat c \<le> 102 then Some (unat c - 87)
      else None)"

lemmas hex_switches = hex_first_def [simplified] hex_second_def [simplified]

lemma hex_tables:
  "map_of hex_first c = map_option (\<lambda>v. word_of_nat (16 * v)) (hex_value c)"
  "map_of hex_second c = map_option word_of_nat (hex_value c)"
proof -
  have digits: "48 \<le> n \<and> n \<le> 57 \<Longrightarrow> n \<in> set [48, 49, 50, 51, 52, 53, 54, 55, 56, 57]"
    "65 \<le> n \<and> n \<le> 70 \<Longrightarrow> n \<in> set [65, 66, 67, 68, 69, 70]"
    "97 \<le> n \<and> n \<le> 102 \<Longrightarrow> n \<in> set [97, 98, 99, 100, 101, 102]" for n :: nat
    by (simp, presburger)+
  consider "unat c \<in> set [48, 49, 50, 51, 52, 53, 54, 55, 56, 57]" | "unat c \<in> set [65, 66, 67, 68, 69, 70]"
    | "unat c \<in> set [97, 98, 99, 100, 101, 102]"
    | "\<not> (48 \<le> unat c \<and> unat c \<le> 57) \<and> \<not> (65 \<le> unat c \<and> unat c \<le> 70) \<and> \<not> (97 \<le> unat c \<and> unat c \<le> 102)"
    using digits [of "unat c"] by metis
  then show "map_of hex_first c = map_option (\<lambda>v. word_of_nat (16 * v)) (hex_value c)"
    "map_of hex_second c = map_option word_of_nat (hex_value c)"
    by (cases; auto simp: hex_switches hex_value_def word_unat_eq_iff)+
qed

lemma nth_xdigits:
  assumes "n < 16"
  shows "unat (xdigits ! n) = (if n < 10 then 48 + n else 55 + n)" "unat (xdigits_lc ! n) = (if n < 10 then 48 + n else 87 + n)"
proof -
  have len: "length xdigits = 16" "length xdigits_lc = 16" by (simp_all add: xdigits_def xdigits_lc_def bytes_of_def)
  have "map unat xdigits = map (\<lambda>n. if n < 10 then 48 + n else 55 + n) [0..<16]"
    "map unat xdigits_lc = map (\<lambda>n. if n < 10 then 48 + n else 87 + n) [0..<16]"
    by (simp_all add: xdigits_def xdigits_lc_def bytes_of_def upt_rec)
  from this [THEN arg_cong, of "\<lambda>xs. xs ! n"] assms len
  show "unat (xdigits ! n) = (if n < 10 then 48 + n else 55 + n)" "unat (xdigits_lc ! n) = (if n < 10 then 48 + n else 87 + n)"
    by simp_all
qed

lemma digit_values:
  assumes "n < 16"
  shows "hex_value (xdigits ! n) = Some n" "hex_value (xdigits_lc ! n) = Some n"
  using assms by (auto simp: hex_value_def nth_xdigits)

lemma hex_value_upper: "hex_value c = Some n \<Longrightarrow> n < 16 \<and> xdigits ! n = to_upper c"
  by (auto simp: hex_value_def word_unat_eq_iff nth_xdigits unat_to_upper split: if_splits)

lemma hex_value_to_upper: "hex_value (to_upper c) = hex_value c"
  by (auto simp: hex_value_def unat_to_upper)

lemma nibbles:
  fixes c :: byte
  shows "unat (drop_bit 4 (c AND 0xF0)) = unat c div 16" "unat (c AND 0x0F) = unat c mod 16"
    "word_of_nat (16 * (unat c div 16)) OR word_of_nat (unat c mod 16) = c"
proof -
  have lo: "unat (c AND 0x0F) = unat c mod 16" using unat_and_mask [of c 4] by (simp add: mask_eq_exp_minus_1)
  then show "unat (c AND 0x0F) = unat c mod 16" .
  have "drop_bit 4 (c AND 0xF0) = drop_bit 4 c AND mask 4" by (simp add: mask_eq_exp_minus_1)
  moreover have "unat (drop_bit 4 c) = unat c div 16" by (simp only: unat_drop_bit) simp
  moreover have div: "unat c div 16 < 16" by (simp add: div_less_iff_less_mult)
  ultimately show "unat (drop_bit 4 (c AND 0xF0)) = unat c div 16" by (simp only: unat_and_mask) simp
  let ?h = "word_of_nat (16 * (unat c div 16)) :: byte" and ?l = "word_of_nat (unat c mod 16) :: byte"
  have uh: "unat ?h = 16 * (unat c div 16)" using div by (intro unat_of_nat_less) simp
  have ul: "unat ?l = unat c mod 16" by (intro unat_of_nat_less) (simp add: less_trans [OF mod_less_divisor])
  have "\<not> bit ?h i" if "i < 4" for i
  proof -
    have "?h = push_bit 4 (word_of_nat (unat c div 16))" by (simp add: push_bit_eq_mult)
    then show ?thesis using that by (simp only: bit_push_bit_iff) simp
  qed
  then have "?l AND ?h = 0" using ul by (intro and_0_low_high [of _ 4]) auto
  then have "unat (?l OR ?h) = unat c" using ul uh unat_byte_less [of c] by (subst unat_or_disjoint) simp_all
  then show "?h OR ?l = c" by (simp add: word_unat_eq_iff or.commute)
qed

lemma hex_dump_eq:
  "hex_dump data = concat (map (\<lambda>c. [xdigits ! (unat c div 16), xdigits ! (unat c mod 16)]) data)"
  "hex_dump_lc data = concat (map (\<lambda>c. [xdigits_lc ! (unat c div 16), xdigits_lc ! (unat c mod 16)]) data)"
  by (simp_all only: hex_dump_def hex_dump_lc_def nibbles(1,2))

lemma parse_pair:
  assumes "hex_value x = Some v" "hex_value y = Some w"
  shows "parse_hex_loop (x # y # str) out = parse_hex_loop str (out @ [word_of_nat (16 * v) OR word_of_nat w])"
  using assms by (simp add: hex_tables)

lemma parse_hex_loop_dump:
  assumes "\<And>n. n < 16 \<Longrightarrow> hex_value (digits ! n) = Some n"
  shows "parse_hex_loop (concat (map (\<lambda>c :: byte. [digits ! (unat c div 16), digits ! (unat c mod 16)]) data)) out = Some (out @ data)"
proof (induction data arbitrary: out)
  case (Cons c data)
  have "hex_value (digits ! (unat c div 16)) = Some (unat c div 16)" "hex_value (digits ! (unat c mod 16)) = Some (unat c mod 16)"
    by (rule assms, simp add: div_less_iff_less_mult)+
  then show ?case using Cons.IH [of "out @ [c]"] nibbles(3) [of c] by (simp add: parse_pair del: parse_hex_loop.simps)
qed simp

lemma pair_value:
  assumes "v < 16" "w < 16"
  shows "unat (word_of_nat (16 * v) OR word_of_nat w :: byte) = 16 * v + w"
proof -
  let ?c = "word_of_nat (16 * v + w) :: byte"
  have u: "unat ?c = 16 * v + w" using assms by (intro unat_of_nat_less) simp
  then have "unat ?c div 16 = v" "unat ?c mod 16 = w" using assms by simp_all
  then show ?thesis using nibbles(3) [of ?c] u by simp
qed

lemma parse_hex_loop_inverse:
  "parse_hex_loop str out = Some res \<Longrightarrow> \<exists>data. res = out @ data \<and> hex_dump data = map to_upper str"
proof (induction str out rule: parse_hex_loop.induct)
  case (2 x str out)
  then obtain v y str' w where v: "hex_value x = Some v" "str = y # str'" "hex_value y = Some w"
    by (auto simp: hex_tables split: option.splits list.splits)
  let ?c = "word_of_nat (16 * v) OR word_of_nat w :: byte"
  have vw: "v < 16" "w < 16" "xdigits ! v = to_upper x" "xdigits ! w = to_upper y"
    using hex_value_upper v(1,3) by blast+
  then have "hex_dump [?c] = map to_upper [x, y]" using pair_value [OF vw(1,2)] by (simp only: hex_dump_eq) simp
  moreover have "parse_hex_loop str' (out @ [?c]) = Some res" using 2(2) v by (simp only: v(2) parse_pair)
  then obtain data where "res = (out @ [?c]) @ data" "hex_dump data = map to_upper str'"
    using 2(1) [of "word_of_nat (16 * v)" "word_of_nat (16 * v)" y str' "word_of_nat w"] v by (auto simp: hex_tables)
  ultimately show ?case using v(2) by (intro exI [of _ "?c # data"]) (simp add: hex_dump_def)
qed (simp add: hex_dump_def)

subsection \<open>Properties\<close>

text \<open>
  (C29) Dumping and parsing are inverse: what either dump prints is parsed back, and the strings
  that are parsed are exactly the dumps, up to the case of the digits.
\<close>

theorem hex_dump_round_trip:
  "parse_hex_dump (hex_dump data) = Some data \<and> parse_hex_dump (hex_dump_lc data) = Some data \<and>
   (parse_hex_dump str = Some res \<longleftrightarrow> hex_dump res = map to_upper str)"
proof -
  have dump: "parse_hex_dump (hex_dump data) = Some data" "parse_hex_dump (hex_dump_lc data) = Some data" for data
    unfolding parse_hex_dump_def hex_dump_eq
    by (rule parse_hex_loop_dump [where out = "[]", simplified]; simp add: digit_values)+
  have "parse_hex_loop (map to_upper s) out = parse_hex_loop s out" for s out
    by (induction s out rule: parse_hex_loop.induct)
      (auto simp: hex_tables hex_value_to_upper split: option.splits list.splits)
  then have "parse_hex_dump str = Some res" if "hex_dump res = map to_upper str"
    using dump(1) [of res] that by (simp add: parse_hex_dump_def)
  moreover have "hex_dump res = map to_upper str" if "parse_hex_dump str = Some res"
    using parse_hex_loop_inverse [of str "[]" res] that by (simp add: parse_hex_dump_def)
  ultimately show ?thesis using dump by auto
qed

end
