(* ===== verification/Digest_Hex.thy ===== *)
theory Digest_Hex
  imports Sha1 Md5 Hex_Dump
begin

text \<open>
  The hexadecimal digests and the one-shot functions of the digest classes: constructors that
  process data, \<^verbatim>\<open>digest_hex\<close>, \<^verbatim>\<open>digest_hex_uc\<close> and the free functions \<^verbatim>\<open>sha1_hex\<close> etc.  The argument \<open>buf\<close> is what
  the uninitialised buffer of the object holds.
\<close>

subsection \<open>Model\<close>

definition sha1_new_string :: "bytes \<Rightarrow> bytes \<Rightarrow> 32 word digest_ctx run" where
  "sha1_new_string buf str = sha1_process_string str (sha1_new buf)"

definition sha1_digest_hex :: "32 word digest_ctx \<Rightarrow> bytes run" where
  "sha1_digest_hex c = mapE (\<lambda>(digest, _). hex_dump_lc digest) (sha1_finalize c)"

definition sha1_digest_hex_uc :: "32 word digest_ctx \<Rightarrow> bytes run" where
  "sha1_digest_hex_uc c = mapE (\<lambda>(digest, _). hex_dump digest) (sha1_finalize c)"

definition sha1_hex :: "bytes \<Rightarrow> bytes \<Rightarrow> bytes run" where
  "sha1_hex buf str = bindE (sha1_new_string buf str) sha1_digest_hex"

definition sha1_hex_uc :: "bytes \<Rightarrow> bytes \<Rightarrow> bytes run" where
  "sha1_hex_uc buf str = bindE (sha1_new_string buf str) sha1_digest_hex_uc"

definition sha256_new_string :: "bytes \<Rightarrow> bytes \<Rightarrow> 32 word digest_ctx run" where
  "sha256_new_string buf str = sha256_process_string str (sha256_new buf)"

definition sha256_digest_hex :: "32 word digest_ctx \<Rightarrow> bytes run" where
  "sha256_digest_hex c = mapE (\<lambda>(digest, _). hex_dump_lc digest) (sha256_finalize c)"

definition sha256_digest_hex_uc :: "32 word digest_ctx \<Rightarrow> bytes run" where
  "sha256_digest_hex_uc c = mapE (\<lambda>(digest, _). hex_dump digest) (sha256_finalize c)"

definition sha256_hex :: "bytes \<Rightarrow> bytes \<Rightarrow> bytes run" where
  "sha256_hex buf str = bindE (sha256_new_string buf str) sha256_digest_hex"

definition sha256_hex_uc :: "bytes \<Rightarrow> bytes \<Rightarrow> bytes run" where
  "sha256_hex_uc buf str = bindE (sha256_new_string buf str) sha256_digest_hex_uc"

definition sha512_new_string :: "bytes \<Rightarrow> bytes \<Rightarrow> 64 word digest_ctx run" where
  "sha512_new_string buf str = sha512_process_string str (sha512_new buf)"

definition sha512_digest_hex :: "64 word digest_ctx \<Rightarrow> bytes run" where
  "sha512_digest_hex c = mapE (\<lambda>(digest, _). hex_dump_lc digest) (sha512_finalize c)"

definition sha512_digest_hex_uc :: "64 word digest_ctx \<Rightarrow> bytes run" where
  "sha512_digest_hex_uc c = mapE (\<lambda>(digest, _). hex_dump digest) (sha512_finalize c)"

definition sha512_hex :: "bytes \<Rightarrow> bytes \<Rightarrow> bytes run" where
  "sha512_hex buf str = bindE (sha512_new_string buf str) sha512_digest_hex"

definition sha512_hex_uc :: "bytes \<Rightarrow> bytes \<Rightarrow> bytes run" where
  "sha512_hex_uc buf str = bindE (sha512_new_string buf str) sha512_digest_hex_uc"

definition md5_new_string :: "bytes \<Rightarrow> bytes \<Rightarrow> 32 word digest_ctx run" where
  "md5_new_string buf str = md5_process_string str (md5_new buf)"

definition md5_digest_hex :: "32 word digest_ctx \<Rightarrow> bytes run" where
  "md5_digest_hex c = mapE (\<lambda>(digest, _). hex_dump_lc digest) (md5_finalize c)"

definition md5_digest_hex_uc :: "32 word digest_ctx \<Rightarrow> bytes run" where
  "md5_digest_hex_uc c = mapE (\<lambda>(digest, _). hex_dump digest) (md5_finalize c)"

definition md5_hex :: "bytes \<Rightarrow> bytes \<Rightarrow> bytes run" where
  "md5_hex buf str = bindE (md5_new_string buf str) md5_digest_hex"

definition md5_hex_uc :: "bytes \<Rightarrow> bytes \<Rightarrow> bytes run" where
  "md5_hex_uc buf str = bindE (md5_new_string buf str) md5_digest_hex_uc"

subsection \<open>Properties\<close>

lemma process_string_short: "length str < 2 ^ 32 \<Longrightarrow> digest_process_string f n str c = digest_process f n str c"
  by (simp add: digest_process_string_def)









end
