(* ===== verification/Murmur.thy ===== *)
theory Murmur
  imports Digest
begin

text \<open>
  MurmurHash3 (src/flare/hash/murmurhash3.cc and murmurhash3.h): the three one-shot functions and
  their iterative versions.  The lengths are the lengths of the data; the callers pass them as an
  \<^verbatim>\<open>int\<close>.  The two 32-bit contexts count the bytes in an \<^verbatim>\<open>int\<close>, whose overflow is undefined
  behaviour, the 64-bit one in a \<^verbatim>\<open>uint64_t\<close>.  The blocks are read in the byte order of a
  little-endian machine.  The three copies of the body of a function (in the one-shot loop, for the
  completed tail of the context and in the loop of \<^verbatim>\<open>Update\<close>) are one definition, and so are the
  two copies of its \<^verbatim>\<open>switch\<close> over the tail.  The main result is that hashing a message in pieces
  is hashing it at once.
\<close>

subsection \<open>Model: rotations, blocks and finalization mixes\<close>

definition mm_rotl32 :: "32 word \<Rightarrow> nat \<Rightarrow> 32 word" where
  "mm_rotl32 x r = push_bit r x OR drop_bit (32 - r) x"

definition mm_rotl64 :: "64 word \<Rightarrow> nat \<Rightarrow> 64 word" where
  "mm_rotl64 x r = push_bit r x OR drop_bit (64 - r) x"

definition getblock32 :: "bytes \<Rightarrow> nat \<Rightarrow> 32 word" where
  "getblock32 p i = ucast (p ! (4 * i)) OR push_bit 8 (ucast (p ! (4 * i + 1))) OR
     push_bit 16 (ucast (p ! (4 * i + 2))) OR push_bit 24 (ucast (p ! (4 * i + 3)))"

definition getblock64 :: "bytes \<Rightarrow> nat \<Rightarrow> 64 word" where
  "getblock64 p i = ucast (p ! (8 * i)) OR push_bit 8 (ucast (p ! (8 * i + 1))) OR
     push_bit 16 (ucast (p ! (8 * i + 2))) OR push_bit 24 (ucast (p ! (8 * i + 3))) OR
     push_bit 32 (ucast (p ! (8 * i + 4))) OR push_bit 40 (ucast (p ! (8 * i + 5))) OR
     push_bit 48 (ucast (p ! (8 * i + 6))) OR push_bit 56 (ucast (p ! (8 * i + 7)))"

definition fmix32 :: "32 word \<Rightarrow> 32 word" where
  "fmix32 h =
     (let h = h XOR drop_bit 16 h;
          h = h * 0x85ebca6b;
          h = h XOR drop_bit 13 h;
          h = h * 0xc2b2ae35;
          h = h XOR drop_bit 16 h
      in h)"

definition fmix64 :: "64 word \<Rightarrow> 64 word" where
  "fmix64 k =
     (let k = k XOR drop_bit 33 k;
          k = k * 0xff51afd7ed558ccd;
          k = k XOR drop_bit 33 k;
          k = k * 0xc4ceb9fe1a85ec53;
          k = k XOR drop_bit 33 k
      in k)"

subsection \<open>Model: contexts and the shape of the three hashes\<close>

record ('h, 'l) murmur_ctx =
  mc_h :: 'h
  mc_total_len :: 'l
  mc_tail_len :: nat
  mc_tail :: bytes

text \<open>The loop over the whole blocks of the data.\<close>

definition murmur_body :: "nat \<Rightarrow> ('h \<Rightarrow> bytes \<Rightarrow> 'h) \<Rightarrow> bytes \<Rightarrow> 'h \<Rightarrow> 'h" where
  "murmur_body width block data h =
     foldl (\<lambda>h i. block h (take width (drop (i * width) data))) h [0..<length data div width]"

text \<open>\<^verbatim>\<open>ctx->total_len += n\<close> for the two types of the field.\<close>

definition add_int :: "int \<Rightarrow> nat \<Rightarrow> int run" where
  "add_int total_len n = (if total_len + int n < 2 ^ 31 then Inr (total_len + int n) else Inl Undefined)"

definition add_uint64 :: "64 word \<Rightarrow> nat \<Rightarrow> 64 word run" where
  "add_uint64 total_len n = Inr (total_len + word_of_nat n)"

text \<open>
  \<^verbatim>\<open>Update\<close>: the first part completes the tail of the context, the second one hashes the whole
  blocks and keeps the rest as the new tail.
\<close>

definition murmur_complete ::
  "nat \<Rightarrow> ('h \<Rightarrow> bytes \<Rightarrow> 'h) \<Rightarrow> ('l \<Rightarrow> nat \<Rightarrow> 'l run) \<Rightarrow> ('h, 'l) murmur_ctx \<Rightarrow> bytes \<Rightarrow>
   ('h \<times> ('h, 'l) murmur_ctx \<times> bytes) run" where
  "murmur_complete width block add ctx data =
     (if mc_tail_len ctx > 0 then
        let append = min (length data) (width - mc_tail_len ctx);
            ctx = ctx\<lparr>mc_tail := take (mc_tail_len ctx) (mc_tail ctx) @ take append data @
                                 drop (mc_tail_len ctx + append) (mc_tail ctx)\<rparr>
        in bindE (add (mc_total_len ctx) append) (\<lambda>total_len.
          let ctx = ctx\<lparr>mc_total_len := total_len, mc_tail_len := mc_tail_len ctx + append\<rparr>;
              data = drop append data
          in if mc_tail_len ctx = width
             then Inr (block (mc_h ctx) (mc_tail ctx), ctx\<lparr>mc_tail_len := 0\<rparr>, data)
             else Inr (mc_h ctx, ctx, data))
      else Inr (mc_h ctx, ctx, data))"

definition murmur_update ::
  "nat \<Rightarrow> ('h \<Rightarrow> bytes \<Rightarrow> 'h) \<Rightarrow> ('l \<Rightarrow> nat \<Rightarrow> 'l run) \<Rightarrow> ('h, 'l) murmur_ctx \<Rightarrow> bytes \<Rightarrow> ('h, 'l) murmur_ctx run" where
  "murmur_update width block add ctx data =
     bindE (murmur_complete width block add ctx data) (\<lambda>(h, ctx, data).
       let nblocks = length data div width;
           h = murmur_body width block data h;
           tail_len = length data mod width;
           ctx = (if tail_len > 0
                  then ctx\<lparr>mc_tail := take tail_len (drop (nblocks * width) data) @ drop tail_len (mc_tail ctx),
                           mc_tail_len := tail_len\<rparr>
                  else ctx)
       in bindE (add (mc_total_len ctx) (length data)) (\<lambda>total_len.
            Inr (ctx\<lparr>mc_h := h, mc_total_len := total_len\<rparr>)))"

subsection \<open>Model: MurmurHash3\_x86\_32\<close>

definition x86_32_c1 :: "32 word" where "x86_32_c1 = 0xcc9e2d51"

definition x86_32_c2 :: "32 word" where "x86_32_c2 = 0x1b873593"

definition x86_32_block :: "32 word \<Rightarrow> bytes \<Rightarrow> 32 word" where
  "x86_32_block h1 p =
     (let k1 = getblock32 p 0;
          k1 = k1 * x86_32_c1;
          k1 = mm_rotl32 k1 15;
          k1 = k1 * x86_32_c2;
          h1 = h1 XOR k1;
          h1 = mm_rotl32 h1 13;
          h1 = h1 * 5 + 0xe6546b64
      in h1)"

text \<open>
  A case of a \<^verbatim>\<open>switch\<close> whose labels fall through runs for its own label \<open>c\<close> and for all above it;
  here it is \<^verbatim>\<open>k ^= tail[i] << s\<close>.
\<close>

definition tail_case :: "nat \<Rightarrow> nat \<Rightarrow> bytes \<Rightarrow> nat \<Rightarrow> nat \<Rightarrow> 'a::len word \<Rightarrow> 'a word" where
  "tail_case c n tail i s k = (if n \<ge> c then k XOR push_bit s (ucast (tail ! i)) else k)"

definition x86_32_tail :: "bytes \<Rightarrow> nat \<Rightarrow> 32 word \<Rightarrow> 32 word" where
  "x86_32_tail tail n h1 =
     (if 1 \<le> n \<and> n \<le> 3 then
        let k1 = 0;
            k1 = tail_case 3 n tail 2 16 k1;
            k1 = tail_case 2 n tail 1 8 k1;
            k1 = tail_case 1 n tail 0 0 k1;
            k1 = k1 * x86_32_c1; k1 = mm_rotl32 k1 15; k1 = k1 * x86_32_c2; h1 = h1 XOR k1
        in h1
      else h1)"

definition MurmurHash3_x86_32 :: "bytes \<Rightarrow> 32 word \<Rightarrow> 32 word" where
  "MurmurHash3_x86_32 key seed =
     (let nblocks = length key div 4;
          h1 = seed;
          h1 = murmur_body 4 x86_32_block key h1;
          h1 = x86_32_tail (drop (nblocks * 4) key) (length key mod 4) h1;
          h1 = h1 XOR word_of_nat (length key);
          h1 = fmix32 h1
      in h1)"

text \<open>\<^verbatim>\<open>Init\<close> does not write the tail: \<open>junk\<close> is its memory.\<close>

definition MurmurHash3_x86_32_Init :: "bytes \<Rightarrow> 32 word \<Rightarrow> (32 word, int) murmur_ctx" where
  "MurmurHash3_x86_32_Init junk seed = \<lparr>mc_h = seed, mc_total_len = 0, mc_tail_len = 0, mc_tail = junk\<rparr>"

definition MurmurHash3_x86_32_Update :: "(32 word, int) murmur_ctx \<Rightarrow> bytes \<Rightarrow> (32 word, int) murmur_ctx run" where
  "MurmurHash3_x86_32_Update ctx key = murmur_update 4 x86_32_block add_int ctx key"

definition MurmurHash3_x86_32_Final :: "(32 word, int) murmur_ctx \<Rightarrow> 32 word" where
  "MurmurHash3_x86_32_Final ctx =
     (let h1 = mc_h ctx;
          h1 = x86_32_tail (mc_tail ctx) (mc_tail_len ctx) h1;
          h1 = h1 XOR word_of_int (mc_total_len ctx);
          h1 = fmix32 h1
      in h1)"

subsection \<open>Model: MurmurHash3\_x86\_128\<close>

type_synonym hash4 = "32 word \<times> 32 word \<times> 32 word \<times> 32 word"

definition x86_128_c1 :: "32 word" where "x86_128_c1 = 0x239b961b"

definition x86_128_c2 :: "32 word" where "x86_128_c2 = 0xab0e9789"

definition x86_128_c3 :: "32 word" where "x86_128_c3 = 0x38b34ae5"

definition x86_128_c4 :: "32 word" where "x86_128_c4 = 0xa1e38b93"

definition x86_128_block :: "hash4 \<Rightarrow> bytes \<Rightarrow> hash4" where
  "x86_128_block h p =
     (let (h1, h2, h3, h4) = h;
          k1 = getblock32 p 0;
          k2 = getblock32 p 1;
          k3 = getblock32 p 2;
          k4 = getblock32 p 3;
          k1 = k1 * x86_128_c1; k1 = mm_rotl32 k1 15; k1 = k1 * x86_128_c2; h1 = h1 XOR k1;
          h1 = mm_rotl32 h1 19; h1 = h1 + h2; h1 = h1 * 5 + 0x561ccd1b;
          k2 = k2 * x86_128_c2; k2 = mm_rotl32 k2 16; k2 = k2 * x86_128_c3; h2 = h2 XOR k2;
          h2 = mm_rotl32 h2 17; h2 = h2 + h3; h2 = h2 * 5 + 0x0bcaa747;
          k3 = k3 * x86_128_c3; k3 = mm_rotl32 k3 17; k3 = k3 * x86_128_c4; h3 = h3 XOR k3;
          h3 = mm_rotl32 h3 15; h3 = h3 + h4; h3 = h3 * 5 + 0x96cd1c35;
          k4 = k4 * x86_128_c4; k4 = mm_rotl32 k4 18; k4 = k4 * x86_128_c1; h4 = h4 XOR k4;
          h4 = mm_rotl32 h4 13; h4 = h4 + h1; h4 = h4 * 5 + 0x32ac3b17
      in (h1, h2, h3, h4))"

text \<open>The four groups of the \<^verbatim>\<open>switch\<close> over the tail, from its top.\<close>

definition x86_128_tail4 :: "bytes \<Rightarrow> nat \<Rightarrow> 32 word \<Rightarrow> 32 word" where
  "x86_128_tail4 tail n h4 =
     (if n \<ge> 13 then
        let k4 = 0;
            k4 = tail_case 15 n tail 14 16 k4;
            k4 = tail_case 14 n tail 13 8 k4;
            k4 = tail_case 13 n tail 12 0 k4;
            k4 = k4 * x86_128_c4; k4 = mm_rotl32 k4 18; k4 = k4 * x86_128_c1; h4 = h4 XOR k4
        in h4
      else h4)"

definition x86_128_tail3 :: "bytes \<Rightarrow> nat \<Rightarrow> 32 word \<Rightarrow> 32 word" where
  "x86_128_tail3 tail n h3 =
     (if n \<ge> 9 then
        let k3 = 0;
            k3 = tail_case 12 n tail 11 24 k3;
            k3 = tail_case 11 n tail 10 16 k3;
            k3 = tail_case 10 n tail 9 8 k3;
            k3 = tail_case 9 n tail 8 0 k3;
            k3 = k3 * x86_128_c3; k3 = mm_rotl32 k3 17; k3 = k3 * x86_128_c4; h3 = h3 XOR k3
        in h3
      else h3)"

definition x86_128_tail2 :: "bytes \<Rightarrow> nat \<Rightarrow> 32 word \<Rightarrow> 32 word" where
  "x86_128_tail2 tail n h2 =
     (if n \<ge> 5 then
        let k2 = 0;
            k2 = tail_case 8 n tail 7 24 k2;
            k2 = tail_case 7 n tail 6 16 k2;
            k2 = tail_case 6 n tail 5 8 k2;
            k2 = tail_case 5 n tail 4 0 k2;
            k2 = k2 * x86_128_c2; k2 = mm_rotl32 k2 16; k2 = k2 * x86_128_c3; h2 = h2 XOR k2
        in h2
      else h2)"

definition x86_128_tail1 :: "bytes \<Rightarrow> nat \<Rightarrow> 32 word \<Rightarrow> 32 word" where
  "x86_128_tail1 tail n h1 =
     (if n \<ge> 1 then
        let k1 = 0;
            k1 = tail_case 4 n tail 3 24 k1;
            k1 = tail_case 3 n tail 2 16 k1;
            k1 = tail_case 2 n tail 1 8 k1;
            k1 = tail_case 1 n tail 0 0 k1;
            k1 = k1 * x86_128_c1; k1 = mm_rotl32 k1 15; k1 = k1 * x86_128_c2; h1 = h1 XOR k1
        in h1
      else h1)"

definition x86_128_tail :: "bytes \<Rightarrow> nat \<Rightarrow> hash4 \<Rightarrow> hash4" where
  "x86_128_tail tail n h =
     (let (h1, h2, h3, h4) = h in
      if n \<le> 15
      then (x86_128_tail1 tail n h1, x86_128_tail2 tail n h2, x86_128_tail3 tail n h3, x86_128_tail4 tail n h4)
      else h)"

definition x86_128_finish :: "hash4 \<Rightarrow> 32 word \<Rightarrow> hash4" where
  "x86_128_finish h len =
     (let (h1, h2, h3, h4) = h;
          h1 = h1 XOR len; h2 = h2 XOR len; h3 = h3 XOR len; h4 = h4 XOR len;
          h1 = h1 + h2; h1 = h1 + h3; h1 = h1 + h4;
          h2 = h2 + h1; h3 = h3 + h1; h4 = h4 + h1;
          h1 = fmix32 h1;
          h2 = fmix32 h2;
          h3 = fmix32 h3;
          h4 = fmix32 h4;
          h1 = h1 + h2; h1 = h1 + h3; h1 = h1 + h4;
          h2 = h2 + h1; h3 = h3 + h1; h4 = h4 + h1
      in (h1, h2, h3, h4))"

definition MurmurHash3_x86_128 :: "bytes \<Rightarrow> 32 word \<Rightarrow> hash4" where
  "MurmurHash3_x86_128 key seed =
     (let nblocks = length key div 16;
          h = (seed, seed, seed, seed);
          h = murmur_body 16 x86_128_block key h;
          h = x86_128_tail (drop (nblocks * 16) key) (length key mod 16) h
      in x86_128_finish h (word_of_nat (length key)))"

definition MurmurHash3_x86_128_Init :: "bytes \<Rightarrow> 32 word \<Rightarrow> (hash4, int) murmur_ctx" where
  "MurmurHash3_x86_128_Init junk seed =
     \<lparr>mc_h = (seed, seed, seed, seed), mc_total_len = 0, mc_tail_len = 0, mc_tail = junk\<rparr>"

definition MurmurHash3_x86_128_Update :: "(hash4, int) murmur_ctx \<Rightarrow> bytes \<Rightarrow> (hash4, int) murmur_ctx run" where
  "MurmurHash3_x86_128_Update ctx key = murmur_update 16 x86_128_block add_int ctx key"

definition MurmurHash3_x86_128_Final :: "(hash4, int) murmur_ctx \<Rightarrow> hash4" where
  "MurmurHash3_x86_128_Final ctx =
     x86_128_finish (x86_128_tail (mc_tail ctx) (mc_tail_len ctx) (mc_h ctx)) (word_of_int (mc_total_len ctx))"

subsection \<open>Model: MurmurHash3\_x64\_128\<close>

type_synonym hash2 = "64 word \<times> 64 word"

definition x64_128_c1 :: "64 word" where "x64_128_c1 = 0x87c37b91114253d5"

definition x64_128_c2 :: "64 word" where "x64_128_c2 = 0x4cf5ad432745937f"

definition x64_128_block :: "hash2 \<Rightarrow> bytes \<Rightarrow> hash2" where
  "x64_128_block h p =
     (let (h1, h2) = h;
          k1 = getblock64 p 0;
          k2 = getblock64 p 1;
          k1 = k1 * x64_128_c1; k1 = mm_rotl64 k1 31; k1 = k1 * x64_128_c2; h1 = h1 XOR k1;
          h1 = mm_rotl64 h1 27; h1 = h1 + h2; h1 = h1 * 5 + 0x52dce729;
          k2 = k2 * x64_128_c2; k2 = mm_rotl64 k2 33; k2 = k2 * x64_128_c1; h2 = h2 XOR k2;
          h2 = mm_rotl64 h2 31; h2 = h2 + h1; h2 = h2 * 5 + 0x38495ab5
      in (h1, h2))"

definition x64_128_tail2 :: "bytes \<Rightarrow> nat \<Rightarrow> 64 word \<Rightarrow> 64 word" where
  "x64_128_tail2 tail n h2 =
     (if n \<ge> 9 then
        let k2 = 0;
            k2 = tail_case 15 n tail 14 48 k2;
            k2 = tail_case 14 n tail 13 40 k2;
            k2 = tail_case 13 n tail 12 32 k2;
            k2 = tail_case 12 n tail 11 24 k2;
            k2 = tail_case 11 n tail 10 16 k2;
            k2 = tail_case 10 n tail 9 8 k2;
            k2 = tail_case 9 n tail 8 0 k2;
            k2 = k2 * x64_128_c2; k2 = mm_rotl64 k2 33; k2 = k2 * x64_128_c1; h2 = h2 XOR k2
        in h2
      else h2)"

definition x64_128_tail1 :: "bytes \<Rightarrow> nat \<Rightarrow> 64 word \<Rightarrow> 64 word" where
  "x64_128_tail1 tail n h1 =
     (if n \<ge> 1 then
        let k1 = 0;
            k1 = tail_case 8 n tail 7 56 k1;
            k1 = tail_case 7 n tail 6 48 k1;
            k1 = tail_case 6 n tail 5 40 k1;
            k1 = tail_case 5 n tail 4 32 k1;
            k1 = tail_case 4 n tail 3 24 k1;
            k1 = tail_case 3 n tail 2 16 k1;
            k1 = tail_case 2 n tail 1 8 k1;
            k1 = tail_case 1 n tail 0 0 k1;
            k1 = k1 * x64_128_c1; k1 = mm_rotl64 k1 31; k1 = k1 * x64_128_c2; h1 = h1 XOR k1
        in h1
      else h1)"

definition x64_128_tail :: "bytes \<Rightarrow> nat \<Rightarrow> hash2 \<Rightarrow> hash2" where
  "x64_128_tail tail n h =
     (let (h1, h2) = h in
      if n \<le> 15 then (x64_128_tail1 tail n h1, x64_128_tail2 tail n h2) else h)"

definition x64_128_finish :: "hash2 \<Rightarrow> 64 word \<Rightarrow> hash2" where
  "x64_128_finish h len =
     (let (h1, h2) = h;
          h1 = h1 XOR len; h2 = h2 XOR len;
          h1 = h1 + h2;
          h2 = h2 + h1;
          h1 = fmix64 h1;
          h2 = fmix64 h2;
          h1 = h1 + h2;
          h2 = h2 + h1
      in (h1, h2))"

definition MurmurHash3_x64_128 :: "bytes \<Rightarrow> 32 word \<Rightarrow> hash2" where
  "MurmurHash3_x64_128 key seed =
     (let nblocks = length key div 16;
          h = (ucast seed, ucast seed);
          h = murmur_body 16 x64_128_block key h;
          h = x64_128_tail (drop (nblocks * 16) key) (length key mod 16) h
      in x64_128_finish h (word_of_nat (length key)))"

definition MurmurHash3_x64_128_Init :: "bytes \<Rightarrow> 32 word \<Rightarrow> (hash2, 64 word) murmur_ctx" where
  "MurmurHash3_x64_128_Init junk seed =
     \<lparr>mc_h = (ucast seed, ucast seed), mc_total_len = 0, mc_tail_len = 0, mc_tail = junk\<rparr>"

definition MurmurHash3_x64_128_Update :: "(hash2, 64 word) murmur_ctx \<Rightarrow> bytes \<Rightarrow> (hash2, 64 word) murmur_ctx run" where
  "MurmurHash3_x64_128_Update ctx key = murmur_update 16 x64_128_block add_uint64 ctx key"

definition MurmurHash3_x64_128_Final :: "(hash2, 64 word) murmur_ctx \<Rightarrow> hash2" where
  "MurmurHash3_x64_128_Final ctx =
     x64_128_finish (x64_128_tail (mc_tail ctx) (mc_tail_len ctx) (mc_h ctx)) (mc_total_len ctx)"

subsection \<open>Hashing in pieces\<close>

lemma blocks_eq_map: "0 < n \<Longrightarrow> blocks n xs = map (\<lambda>i. take n (drop (i * n) xs)) [0..<length xs div n]"
proof (induction n xs rule: blocks.induct)
  case (1 n xs)
  show ?case
  proof (cases "length xs < n")
    case True
    then show ?thesis by (simp add: blocks_short)
  next
    case False
    then have "length xs div n = Suc (length (drop n xs) div n)" using 1(2) by (simp add: le_div_geq)
    then have "[0..<length xs div n] = 0 # map Suc [0..<length (drop n xs) div n]"
      by (metis map_Suc_upt upt_conv_Cons zero_less_Suc)
    then show ?thesis using 1 False by (subst blocks.simps) (simp add: add.commute)
  qed
qed

lemma murmur_body_blocks: "0 < width \<Longrightarrow> murmur_body width block data h = foldl block h (blocks width data)"
  by (simp add: murmur_body_def blocks_eq_map foldl_map)

text \<open>The tail is read only up to its length.\<close>

lemma tail_case_cong:
  "take n xs = take n ys \<Longrightarrow> i < c \<Longrightarrow> tail_case c n xs i s k = tail_case c n ys i s k"
  unfolding tail_case_def by (metis nth_take order_less_le_trans)

lemma x86_32_tail_cong:
  assumes "take n xs = take n ys" shows "x86_32_tail xs n = x86_32_tail ys n"
  unfolding x86_32_tail_def by (simp add: tail_case_cong [OF assms] Let_def cong: if_cong)

lemma x86_128_tail_cong:
  assumes "take n xs = take n ys" shows "x86_128_tail xs n = x86_128_tail ys n"
  unfolding x86_128_tail_def x86_128_tail1_def x86_128_tail2_def x86_128_tail3_def x86_128_tail4_def
  by (simp add: tail_case_cong [OF assms] Let_def cong: if_cong)

lemma x64_128_tail_cong:
  assumes "take n xs = take n ys" shows "x64_128_tail xs n = x64_128_tail ys n"
  unfolding x64_128_tail_def x64_128_tail1_def x64_128_tail2_def
  by (simp add: tail_case_cong [OF assms] Let_def cong: if_cong)

text \<open>The context that started with the hash \<open>h0\<close> has seen \<open>msg\<close>.\<close>

definition murmur_rep :: "nat \<Rightarrow> ('h \<Rightarrow> bytes \<Rightarrow> 'h) \<Rightarrow> (nat \<Rightarrow> 'l) \<Rightarrow> 'h \<Rightarrow> bytes \<Rightarrow> ('h, 'l) murmur_ctx \<Rightarrow> bool" where
  "murmur_rep width block tot h0 msg ctx \<longleftrightarrow>
     (\<exists>past. msg = past @ take (mc_tail_len ctx) (mc_tail ctx) \<and> width dvd length past \<and>
        mc_h ctx = foldl block h0 (blocks width past)) \<and>
     mc_total_len ctx = tot (length msg) \<and> mc_tail_len ctx < width \<and> length (mc_tail ctx) = width"

text \<open>
  The contract of an iterative hash: its counter \<open>tot\<close> follows the length of the message as long as
  the message is \<open>ok\<close>, and the tail is read only up to its length.
\<close>

locale murmur =
  fixes width :: nat and block :: "'h \<Rightarrow> bytes \<Rightarrow> 'h" and add :: "'l \<Rightarrow> nat \<Rightarrow> 'l run"
    and tot :: "nat \<Rightarrow> 'l" and ok :: "nat \<Rightarrow> bool" and last_part :: "bytes \<Rightarrow> nat \<Rightarrow> 'h \<Rightarrow> 'h"
  assumes width: "0 < width"
    and add: "ok (n + m) \<Longrightarrow> add (tot n) m = Inr (tot (n + m))"
    and ok_less: "ok (n + m) \<Longrightarrow> ok n"
    and last_part: "take n xs = take n ys \<Longrightarrow> last_part xs n = last_part ys n"
begin

lemma rep_init:
  assumes "length junk = width"
  shows "murmur_rep width block tot h0 [] \<lparr>mc_h = h0, mc_total_len = tot 0, mc_tail_len = 0, mc_tail = junk\<rparr>"
  using assms width by (auto simp: murmur_rep_def blocks_short)

lemma complete_law:
  assumes rep: "murmur_rep width block tot h0 msg ctx" and ok: "ok (length msg + length data)"
  shows "\<exists>h ctx' taken rest. murmur_complete width block add ctx data = Inr (h, ctx', rest) \<and>
    data = taken @ rest \<and> murmur_rep width block tot h0 (msg @ taken) (ctx'\<lparr>mc_h := h\<rparr>) \<and>
    (mc_tail_len ctx' = 0 \<or> rest = [])"
proof (cases "mc_tail_len ctx > 0")
  case False
  then show ?thesis using rep by (intro exI [of _ "mc_h ctx"] exI [of _ ctx] exI [of _ "[]"] exI [of _ data])
      (simp add: murmur_complete_def)
next
  case True
  obtain past where p: "msg = past @ take (mc_tail_len ctx) (mc_tail ctx)" "width dvd length past"
      "mc_h ctx = foldl block h0 (blocks width past)"
    and t: "mc_total_len ctx = tot (length msg)" "mc_tail_len ctx < width" "length (mc_tail ctx) = width"
    using rep by (auto simp: murmur_rep_def)
  define n where "n = min (length data) (width - mc_tail_len ctx)"
  have n: "n \<le> length data" "mc_tail_len ctx + n \<le> width" using t by (auto simp: n_def)
  have "ok ((length msg + n) + (length data - n))" using ok n by simp
  then have "ok (length msg + n)" by (rule ok_less)
  then have add: "add (mc_total_len ctx) n = Inr (tot (length msg + n))"
    using t(1) by (simp add: add)
  define tail where "tail = take (mc_tail_len ctx) (mc_tail ctx) @ take n data @ drop (mc_tail_len ctx + n) (mc_tail ctx)"
  have tail: "length tail = width" "take (mc_tail_len ctx + n) tail = take (mc_tail_len ctx) (mc_tail ctx) @ take n data"
    using t n by (simp_all add: tail_def)
  define c1 where "c1 = ctx\<lparr>mc_tail := tail, mc_total_len := tot (length msg + n), mc_tail_len := mc_tail_len ctx + n\<rparr>"
  show ?thesis
  proof (cases "mc_tail_len ctx + n = width")
    case full: True
    then have "tail = take (mc_tail_len ctx) (mc_tail ctx) @ take n data" using tail by simp
    then have "murmur_rep width block tot h0 (msg @ take n data)
        (c1\<lparr>mc_tail_len := 0, mc_h := block (mc_h ctx) tail\<rparr>)"
      using p t n width tail unfolding murmur_rep_def
      by (intro conjI exI [of _ "past @ tail"]) (auto simp: c1_def blocks_append blocks_one add.assoc)
    moreover have "murmur_complete width block add ctx data =
        Inr (block (mc_h ctx) tail, c1\<lparr>mc_tail_len := 0\<rparr>, drop n data)"
      unfolding murmur_complete_def Let_def n_def [symmetric] using True full add by (simp add: c1_def tail_def)
    moreover have "data = take n data @ drop n data" "mc_tail_len (c1\<lparr>mc_tail_len := 0\<rparr>) = 0" by simp_all
    ultimately show ?thesis by blast
  next
    case part: False
    then have "drop n data = []" using t(2) by (auto simp: n_def min_def split: if_splits)
    moreover have "murmur_rep width block tot h0 (msg @ take n data) c1"
      using p t n width tail part unfolding murmur_rep_def
      by (intro conjI exI [of _ past]) (auto simp: c1_def add.assoc)
    moreover have "murmur_complete width block add ctx data = Inr (mc_h ctx, c1, drop n data)"
      unfolding murmur_complete_def Let_def n_def [symmetric] using True part add by (simp add: c1_def tail_def)
    moreover have "c1\<lparr>mc_h := mc_h ctx\<rparr> = c1" by (simp add: c1_def)
    moreover have "data = take n data @ drop n data" by simp
    ultimately show ?thesis by metis
  qed
qed

lemma rest_law:
  assumes rep: "murmur_rep width block tot h0 msg (ctx\<lparr>mc_h := h\<rparr>)" and rest: "mc_tail_len ctx = 0 \<or> data = []"
  shows "murmur_rep width block tot h0 (msg @ data)
    ((if length data mod width > 0
      then ctx\<lparr>mc_tail := take (length data mod width) (drop (length data div width * width) data) @
                           drop (length data mod width) (mc_tail ctx), mc_tail_len := length data mod width\<rparr>
      else ctx)\<lparr>mc_h := murmur_body width block data h, mc_total_len := tot (length (msg @ data))\<rparr>)"
proof (cases "data = []")
  case True
  then show ?thesis using rep width by (simp add: murmur_body_def murmur_rep_def)
next
  case False
  then have zero: "mc_tail_len ctx = 0" using rest by simp
  then have p: "width dvd length msg" "h = foldl block h0 (blocks width msg)" "length (mc_tail ctx) = width"
    using rep by (auto simp: murmur_rep_def)
  define q where "q = length data div width * width"
  have q: "q + length data mod width = length data" "width dvd q" "q \<le> length data" by (auto simp: q_def)
  have short: "length (drop q data) < width" using q width by (simp add: q_def flip: modulo_nat_def)
  have "blocks width (take q data @ drop q data) = blocks width (take q data) @ blocks width (drop q data)"
    using q width by (intro blocks_append) (auto simp: min_absorb2)
  then have "blocks width data = blocks width (take q data)" using short by (simp add: blocks_short)
  then have "murmur_body width block data h = foldl block h0 (blocks width (msg @ take q data))"
    using p width by (simp add: murmur_body_blocks blocks_append)
  moreover have "width dvd length (msg @ take q data)" using p q by simp
  moreover have "msg @ data = (msg @ take q data) @ take (length data mod width) (drop q data)" using q by simp
  moreover have "length data mod width < width" using width by simp
  ultimately show ?thesis
    unfolding murmur_rep_def q_def [symmetric] using p zero q
    by (intro conjI exI [of _ "msg @ take q data"]) auto
qed

lemma update_law:
  assumes rep: "murmur_rep width block tot h0 msg ctx" and ok: "ok (length msg + length data)"
  shows "\<exists>ctx'. murmur_update width block add ctx data = Inr ctx' \<and> murmur_rep width block tot h0 (msg @ data) ctx'"
proof -
  obtain h c taken rest where c: "murmur_complete width block add ctx data = Inr (h, c, rest)" "data = taken @ rest"
      "murmur_rep width block tot h0 (msg @ taken) (c\<lparr>mc_h := h\<rparr>)" "mc_tail_len c = 0 \<or> rest = []"
    using complete_law [OF assms] by blast
  have "mc_total_len c = tot (length (msg @ taken))" using c(3) by (simp add: murmur_rep_def)
  moreover have "ok (length (msg @ taken) + length rest)" using ok c(2) by (simp add: add.assoc)
  ultimately have "add (mc_total_len c) (length rest) = Inr (tot (length ((msg @ taken) @ rest)))"
    using add [of "length (msg @ taken)" "length rest"] by (simp add: add.assoc)
  then show ?thesis
    using rest_law [OF c(3,4)] c(2) unfolding murmur_update_def c(1)
    by (cases "length rest mod width > 0") (auto simp: Let_def)
qed

lemma updates_law:
  "murmur_rep width block tot h0 msg ctx \<Longrightarrow> ok (length msg + length (concat pieces)) \<Longrightarrow>
   \<exists>ctx'. foldE (murmur_update width block add) ctx pieces = Inr ctx' \<and>
     murmur_rep width block tot h0 (msg @ concat pieces) ctx'"
proof (induction pieces arbitrary: msg ctx)
  case (Cons d ds)
  have "ok ((length msg + length d) + length (concat ds))" using Cons(3) by (simp add: add.assoc)
  then obtain c where c: "murmur_update width block add ctx d = Inr c" "murmur_rep width block tot h0 (msg @ d) c"
    using update_law [OF Cons(2)] ok_less by blast
  then show ?case using Cons(1) [OF c(2)] Cons(3) by (simp add: add.assoc)
qed simp

text \<open>What \<^verbatim>\<open>Final\<close> finds in the context is what the one-shot function computes before its tail.\<close>

lemma pieces_law:
  assumes msg_def: "msg = concat pieces" and "length junk = width" "ok (length msg)"
  shows "\<exists>c. foldE (murmur_update width block add)
       \<lparr>mc_h = h, mc_total_len = tot 0, mc_tail_len = 0, mc_tail = junk\<rparr> pieces = Inr c \<and>
     last_part (mc_tail c) (mc_tail_len c) (mc_h c) =
       last_part (drop (length msg div width * width) msg) (length msg mod width) (murmur_body width block msg h) \<and>
     mc_total_len c = tot (length msg)"
proof -
  obtain c where c: "foldE (murmur_update width block add)
      \<lparr>mc_h = h, mc_total_len = tot 0, mc_tail_len = 0, mc_tail = junk\<rparr> pieces = Inr c"
      "murmur_rep width block tot h msg c"
    using updates_law [OF rep_init, of junk pieces h] assms(2,3) by (auto simp: msg_def)
  then obtain past where p: "msg = past @ take (mc_tail_len c) (mc_tail c)" "width dvd length past"
      "mc_h c = foldl block h (blocks width past)"
    and t: "mc_total_len c = tot (length msg)" "mc_tail_len c < width" "length (mc_tail c) = width"
    by (auto simp: murmur_rep_def)
  have "length msg = length past + mc_tail_len c" using p(1) t by (metis length_append length_take min.absorb4)
  moreover obtain k where k: "length past = width * k" using p(2) by (elim dvdE)
  ultimately have "length msg = mc_tail_len c + width * k" by simp
  then have len: "length msg mod width = mc_tail_len c" "length msg div width * width = length past"
    using t(2) k by simp_all
  have "blocks width msg = blocks width past"
    using p t by (subst p(1)) (simp add: blocks_append blocks_short width)
  moreover have "take (mc_tail_len c) (drop (length past) msg) = take (mc_tail_len c) (mc_tail c)"
    by (subst p(1)) simp
  then have "last_part (mc_tail c) (mc_tail_len c) = last_part (drop (length past) msg) (mc_tail_len c)"
    by (intro last_part) simp
  ultimately show ?thesis
    using c(1) p(3) t(1) width len by (intro exI [of _ c]) (simp add: murmur_body_blocks)
qed

end

interpretation mm32: murmur 4 x86_32_block add_int int "\<lambda>n. n < 2 ^ 31" x86_32_tail
  by unfold_locales (simp_all add: add_int_def, erule x86_32_tail_cong)

interpretation mm128: murmur 16 x86_128_block add_int int "\<lambda>n. n < 2 ^ 31" x86_128_tail
  by unfold_locales (simp_all add: add_int_def, erule x86_128_tail_cong)

interpretation mm64: murmur 16 x64_128_block add_uint64 word_of_nat "\<lambda>_. True" x64_128_tail
  by unfold_locales (simp_all add: add_uint64_def, erule x64_128_tail_cong)

lemmas mm_unfold =
  MurmurHash3_x86_32_Init_def MurmurHash3_x86_32_Update_def [abs_def] MurmurHash3_x86_32_Final_def MurmurHash3_x86_32_def
  MurmurHash3_x86_128_Init_def MurmurHash3_x86_128_Update_def [abs_def] MurmurHash3_x86_128_Final_def MurmurHash3_x86_128_def
  MurmurHash3_x64_128_Init_def MurmurHash3_x64_128_Update_def [abs_def] MurmurHash3_x64_128_Final_def MurmurHash3_x64_128_def
  Let_def

subsection \<open>The mixes are permutations\<close>

lemma xorshift_inj:
  fixes x y :: "'a::len word"
  assumes eq: "x XOR drop_bit s x = y XOR drop_bit s y" and s: "0 < s"
  shows "x = y"
proof (rule bit_word_eqI)
  fix n assume "n < LENGTH('a)"
  have step: "bit x n \<longleftrightarrow> bit y n" if "bit x (n + s) \<longleftrightarrow> bit y (n + s)" for n
  proof -
    have "bit (x XOR drop_bit s x) n \<longleftrightarrow> bit (y XOR drop_bit s y) n" using eq by simp
    then show ?thesis using that by (simp add: bit_xor_iff bit_drop_bit_eq add.commute) blast
  qed
  show "bit x n \<longleftrightarrow> bit y n"
  proof (induction "LENGTH('a) - n" arbitrary: n rule: less_induct)
    case less
    show ?case
    proof (cases "n < LENGTH('a)")
      case True
      then have "LENGTH('a) - (n + s) < LENGTH('a) - n" using s by simp
      then show ?thesis by (rule step [OF less])
    next
      case False
      then show ?thesis by (meson bit_imp_le_length)
    qed
  qed
qed

lemma mult_inj:
  fixes x y c d :: "'a::len word"
  assumes "x * c = y * c" "c * d = 1" shows "x = y"
proof -
  have "x * (c * d) = y * (c * d)" using assms(1) by (simp flip: mult.assoc)
  then show ?thesis using assms(2) by simp
qed

lemma fmix32_inj: "inj fmix32"
proof (rule injI)
  fix x y assume "fmix32 x = fmix32 y"
  note e5 = xorshift_inj [OF this [unfolded fmix32_def Let_def]]
  note e4 = mult_inj [OF e5, where d = "0x7ed1b41d"]
  note e3 = xorshift_inj [OF e4]
  note e2 = mult_inj [OF e3, where d = "0xa5cb9243"]
  note e1 = xorshift_inj [OF e2]
  show "x = y" by (rule e1) simp_all
qed

lemma fmix64_inj: "inj fmix64"
proof (rule injI)
  fix x y assume "fmix64 x = fmix64 y"
  note e5 = xorshift_inj [OF this [unfolded fmix64_def Let_def]]
  note e4 = mult_inj [OF e5, where d = "0x9cb4b2f8129337db"]
  note e3 = xorshift_inj [OF e4]
  note e2 = mult_inj [OF e3, where d = "0x4f74430c22a54005"]
  note e1 = xorshift_inj [OF e2]
  show "x = y" by (rule e1) simp_all
qed

subsection \<open>A published test vector\<close>

text \<open>``The quick brown fox jumps over the lazy dog'', in three pieces.\<close>

definition fox :: "bytes list" where
  "fox =
     [[84, 104, 101, 32, 113, 117, 105, 99, 107, 32, 98, 114, 111, 119, 110, 32, 102, 111, 120],
      [32],
      [106, 117, 109, 112, 115, 32, 111, 118, 101, 114, 32, 116, 104, 101, 32, 108, 97, 122, 121, 32, 100, 111, 103]]"

lemma concat_fox:
  "concat fox =
     [84, 104, 101, 32, 113, 117, 105, 99, 107, 32, 98, 114, 111, 119, 110, 32, 102, 111, 120,
      32,
      106, 117, 109, 112, 115, 32, 111, 118, 101, 114, 32, 116, 104, 101, 32, 108, 97, 122, 121, 32, 100, 111, 103]"
  by (simp add: fox_def)

lemma fox_hash:
  "MurmurHash3_x86_32 (concat fox) 0 = 0x2e4ff723"
  "MurmurHash3_x86_128 (concat fox) 0 = (0x2f1583c3, 0xecee2c67, 0x5d7bf66c, 0xe5e91d2c)"
  "MurmurHash3_x64_128 (concat fox) 0 = (0xe34bbc7bbc071b6c, 0x7a433ca9c49a9347)"
  unfolding concat_fox by code_simp+

subsection \<open>Properties\<close>

text \<open>
  (C10) Hashing in pieces is hashing at once: after \<^verbatim>\<open>Init\<close>, which leaves the tail of the context
  uninitialised, and any sequence of \<^verbatim>\<open>Update\<close>s whose data is less than 2 GB altogether, no
  \<^verbatim>\<open>Update\<close> overflows its counter and \<^verbatim>\<open>Final\<close> gives what the one-shot function of the same name
  gives for the concatenation of the data.  The three hashes have this property.
\<close>

theorem murmur_iterative:
  assumes "length (concat pieces) < 2 ^ 31" "length junk4 = 4" "length junk16 = 16"
  shows "mapE MurmurHash3_x86_32_Final (foldE MurmurHash3_x86_32_Update (MurmurHash3_x86_32_Init junk4 seed) pieces) =
      Inr (MurmurHash3_x86_32 (concat pieces) seed) \<and>
    mapE MurmurHash3_x86_128_Final (foldE MurmurHash3_x86_128_Update (MurmurHash3_x86_128_Init junk16 seed) pieces) =
      Inr (MurmurHash3_x86_128 (concat pieces) seed) \<and>
    mapE MurmurHash3_x64_128_Final (foldE MurmurHash3_x64_128_Update (MurmurHash3_x64_128_Init junk16 seed) pieces) =
      Inr (MurmurHash3_x64_128 (concat pieces) seed)"
proof (intro conjI)
  show "mapE MurmurHash3_x86_32_Final (foldE MurmurHash3_x86_32_Update (MurmurHash3_x86_32_Init junk4 seed) pieces) =
      Inr (MurmurHash3_x86_32 (concat pieces) seed)"
    using mm32.pieces_law [OF refl assms(2,1), where h = seed]
    by (elim exE conjE) (simp add: mm_unfold)
  show "mapE MurmurHash3_x86_128_Final (foldE MurmurHash3_x86_128_Update (MurmurHash3_x86_128_Init junk16 seed) pieces) =
      Inr (MurmurHash3_x86_128 (concat pieces) seed)"
    using mm128.pieces_law [OF refl assms(3,1), where h = "(seed, seed, seed, seed)"]
    by (elim exE conjE) (simp add: mm_unfold)
  show "mapE MurmurHash3_x64_128_Final (foldE MurmurHash3_x64_128_Update (MurmurHash3_x64_128_Init junk16 seed) pieces) =
      Inr (MurmurHash3_x64_128 (concat pieces) seed)"
    using mm64.pieces_law [OF refl assms(3) TrueI, where pieces = pieces and h = "(ucast seed, ucast seed)"]
    by (elim exE conjE) (simp add: mm_unfold)
qed

theorem murmur_iterative_witness:
  "mapE MurmurHash3_x86_32_Final (foldE MurmurHash3_x86_32_Update
     (MurmurHash3_x86_32_Init (replicate 4 7) 0) fox) = Inr 0x2e4ff723 \<and>
   mapE MurmurHash3_x86_128_Final (foldE MurmurHash3_x86_128_Update
     (MurmurHash3_x86_128_Init (replicate 16 7) 0) fox) = Inr (0x2f1583c3, 0xecee2c67, 0x5d7bf66c, 0xe5e91d2c) \<and>
   mapE MurmurHash3_x64_128_Final (foldE MurmurHash3_x64_128_Update
     (MurmurHash3_x64_128_Init (replicate 16 7) 0) fox) = Inr (0xe34bbc7bbc071b6c, 0x7a433ca9c49a9347)"
  using murmur_iterative [of fox "replicate 4 7" "replicate 16 7" 0]
  by (simp add: fox_hash) (simp add: fox_def)

text \<open>
  (C30) The finalization mixes lose no information: both are permutations of the words, so two
  inputs collide only if they collide before the finalization.
\<close>

theorem fmix_bijective: "bij fmix32 \<and> bij fmix64"
  using fmix32_inj fmix64_inj by (intro conjI bijI finite_UNIV_inj_surj) simp_all

end
