(* ===== verification/Doubly_Buffered.thy ===== *)
theory Doubly_Buffered
  imports Prelude
begin

text \<open>
  \<^verbatim>\<open>DoublyBufferedData\<close> (src/flare/container/doubly_buffered_data.h): two instances of the data, of
  which the foreground one is read under a mutex of the reading thread and the background one is
  modified.  A state holds the shared variables, the mutexes with their holders and, for every
  thread, the place in \<^verbatim>\<open>Read\<close>, \<^verbatim>\<open>Modify\<close>, \<^verbatim>\<open>AddWrapper\<close> or \<^verbatim>\<open>RemoveWrapper\<close> it has reached; a step
  is one access to a shared variable or one operation on a mutex by one thread, so that the steps
  of the threads interleave in any order (sequential consistency).  The two calls of \<^verbatim>\<open>fn\<close> last
  from the step before to the step after them.  Every thread is in at most one operation at a
  time: a thread that calls \<^verbatim>\<open>Modify\<close> while it holds a \<^verbatim>\<open>ScopedPtr\<close> waits for itself.
\<close>

subsection \<open>Model: the states\<close>

text \<open>
  \<^verbatim>\<open>fn\<close> gets the instance to modify and the other one, as \<^verbatim>\<open>ModifyWithForeground\<close> passes them; it
  gives the modified instance and the number of changes.
\<close>

type_synonym 'a modifier = "'a \<Rightarrow> 'a \<Rightarrow> 'a \<times> nat"

datatype 'a pc =
    Idle
  | AddLock  \<comment> \<open>\<^verbatim>\<open>AddWrapper\<close> is about to lock \<^verbatim>\<open>_wrappers_mutex\<close>\<close>
  | AddHeld
  | SetSpecific nat
  | BeginRead nat  \<comment> \<open>about to lock the mutex of its wrapper\<close>
  | UnsafeRead nat
  | Reading nat bool  \<comment> \<open>the \<^verbatim>\<open>ScopedPtr\<close> holds the wrapper and points to the instance\<close>
  | RemoveLock nat  \<comment> \<open>\<^verbatim>\<open>RemoveWrapper\<close> is about to lock \<^verbatim>\<open>_wrappers_mutex\<close>\<close>
  | RemoveHeld nat
  | ModLock "'a modifier"  \<comment> \<open>\<^verbatim>\<open>Modify\<close> is about to lock \<^verbatim>\<open>_modify_mutex\<close>\<close>
  | ModLoad "'a modifier"
  | ModFirst "'a modifier" bool  \<comment> \<open>in the first call of \<^verbatim>\<open>fn\<close>\<close>
  | ModFlip "'a modifier" bool nat
  | ModWrappers "'a modifier" bool nat  \<comment> \<open>about to lock \<^verbatim>\<open>_wrappers_mutex\<close>\<close>
  | ModWait "'a modifier" bool nat nat  \<comment> \<open>about to lock the mutex of a wrapper\<close>
  | ModHeld "'a modifier" bool nat nat
  | ModSecond "'a modifier" bool nat  \<comment> \<open>in the second call of \<^verbatim>\<open>fn\<close>\<close>

text \<open>
  The instances \<^verbatim>\<open>_data[0]\<close> and \<^verbatim>\<open>_data[1]\<close> are numbered by \<open>False\<close> and \<open>True\<close>, the wrappers by
  their order of allocation; \<open>db_specific\<close> is what \<^verbatim>\<open>pthread_getspecific\<close> gives in a thread.
\<close>

record 'a db =
  db_data :: "bool \<Rightarrow> 'a"
  db_index :: bool
  db_wrappers :: "nat list"
  db_allocated :: nat
  db_specific :: "nat \<Rightarrow> nat option"
  db_wrapper_mutex :: "nat \<Rightarrow> nat option"
  db_wrappers_mutex :: "nat option"
  db_modify_mutex :: "nat option"
  db_pc :: "nat \<Rightarrow> 'a pc"
  db_check_failed :: bool

definition db_init :: "'a \<Rightarrow> 'a db" where
  "db_init x = \<lparr>db_data = (\<lambda>_. x), db_index = False, db_wrappers = [], db_allocated = 0,
     db_specific = (\<lambda>_. None), db_wrapper_mutex = (\<lambda>_. None), db_wrappers_mutex = None,
     db_modify_mutex = None, db_pc = (\<lambda>_. Idle), db_check_failed = False\<rparr>"

definition db_goto :: "nat \<Rightarrow> 'a pc \<Rightarrow> 'a db \<Rightarrow> 'a db" where
  "db_goto t p s = s\<lparr>db_pc := (db_pc s)(t := p)\<rparr>"

subsection \<open>Model: the steps of the operations\<close>

text \<open>A step of thread \<open>t\<close>; \<open>None\<close> if it waits for a mutex or is not in the operation.\<close>

definition AddWrapper_step :: "nat \<Rightarrow> 'a db \<Rightarrow> 'a db option" where
  "AddWrapper_step t s =
     (case db_pc s t of
        AddLock \<Rightarrow>
          if db_wrappers_mutex s = None
          then Some (db_goto t AddHeld (s\<lparr>db_wrappers_mutex := Some t\<rparr>)) else None
      | AddHeld \<Rightarrow>
          Some (db_goto t (SetSpecific (db_allocated s))
            (s\<lparr>db_wrappers := db_wrappers s @ [db_allocated s], db_allocated := Suc (db_allocated s),
               db_wrappers_mutex := None\<rparr>))
      | _ \<Rightarrow> None)"

text \<open>The loop of \<^verbatim>\<open>RemoveWrapper\<close>: the last wrapper takes the place of the removed one.\<close>

definition remove_wrapper :: "nat \<Rightarrow> nat list \<Rightarrow> nat list" where
  "remove_wrapper w ws =
     (let i = length (takeWhile (\<lambda>x. x \<noteq> w) ws)
      in if i < length ws then butlast (ws[i := last ws]) else ws)"

definition RemoveWrapper_step :: "nat \<Rightarrow> 'a db \<Rightarrow> 'a db option" where
  "RemoveWrapper_step t s =
     (case db_pc s t of
        RemoveLock w \<Rightarrow>
          if db_wrappers_mutex s = None
          then Some (db_goto t (RemoveHeld w) (s\<lparr>db_wrappers_mutex := Some t\<rparr>)) else None
      | RemoveHeld w \<Rightarrow>
          Some (db_goto t Idle (s\<lparr>db_wrappers := remove_wrapper w (db_wrappers s), db_wrappers_mutex := None\<rparr>))
      | _ \<Rightarrow> None)"

text \<open>
  \<^verbatim>\<open>Read\<close> begins by looking for the wrapper of its thread; \<open>rc\<close> says whether
  \<^verbatim>\<open>pthread_setspecific\<close> succeeds.  The last step is the destructor of \<^verbatim>\<open>ScopedPtr\<close>.
\<close>

definition Read_call :: "nat \<Rightarrow> 'a db \<Rightarrow> 'a db option" where
  "Read_call t s =
     (case db_pc s t of
        Idle \<Rightarrow> Some (db_goto t (case db_specific s t of Some w \<Rightarrow> BeginRead w | None \<Rightarrow> AddLock) s)
      | _ \<Rightarrow> None)"

definition Read_step :: "bool \<Rightarrow> nat \<Rightarrow> 'a db \<Rightarrow> 'a db option" where
  "Read_step rc t s =
     (case db_pc s t of
        SetSpecific w \<Rightarrow>
          Some (if rc then db_goto t (BeginRead w) (s\<lparr>db_specific := (db_specific s)(t \<mapsto> w)\<rparr>) else db_goto t Idle s)
      | BeginRead w \<Rightarrow>
          if db_wrapper_mutex s w = None
          then Some (db_goto t (UnsafeRead w) (s\<lparr>db_wrapper_mutex := (db_wrapper_mutex s)(w \<mapsto> t)\<rparr>)) else None
      | UnsafeRead w \<Rightarrow> Some (db_goto t (Reading w (db_index s)) s)
      | Reading w k \<Rightarrow>
          Some (db_goto t Idle (s\<lparr>db_wrapper_mutex := (db_wrapper_mutex s)(w := None)\<rparr>))
      | _ \<Rightarrow> None)"

text \<open>A thread that quits deletes its wrapper.\<close>

definition quit_call :: "nat \<Rightarrow> 'a db \<Rightarrow> 'a db option" where
  "quit_call t s =
     (case db_pc s t of
        Idle \<Rightarrow> (case db_specific s t of
                  Some w \<Rightarrow> Some (db_goto t (RemoveLock w) (s\<lparr>db_specific := (db_specific s)(t := None)\<rparr>))
                | None \<Rightarrow> None)
      | _ \<Rightarrow> None)"

definition Modify_call :: "'a modifier \<Rightarrow> nat \<Rightarrow> 'a db \<Rightarrow> 'a db option" where
  "Modify_call fn t s = (case db_pc s t of Idle \<Rightarrow> Some (db_goto t (ModLock fn) s) | _ \<Rightarrow> None)"

definition Modify_step :: "nat \<Rightarrow> 'a db \<Rightarrow> 'a db option" where
  "Modify_step t s =
     (case db_pc s t of
        ModLock fn \<Rightarrow>
          if db_modify_mutex s = None
          then Some (db_goto t (ModLoad fn) (s\<lparr>db_modify_mutex := Some t\<rparr>)) else None
      | ModLoad fn \<Rightarrow> Some (db_goto t (ModFirst fn (\<not> db_index s)) s)
      | ModFirst fn bg_index \<Rightarrow>
          (let (x, ret) = fn (db_data s bg_index) (db_data s (\<not> bg_index));
               s = s\<lparr>db_data := (db_data s)(bg_index := x)\<rparr>
           in if ret = 0 then Some (db_goto t Idle (s\<lparr>db_modify_mutex := None\<rparr>))
              else Some (db_goto t (ModFlip fn bg_index ret) s))
      | ModFlip fn bg_index ret \<Rightarrow>
          Some (db_goto t (ModWrappers fn (\<not> bg_index) ret) (s\<lparr>db_index := bg_index\<rparr>))
      | ModWrappers fn bg_index ret \<Rightarrow>
          if db_wrappers_mutex s = None
          then Some (db_goto t (ModWait fn bg_index ret 0) (s\<lparr>db_wrappers_mutex := Some t\<rparr>)) else None
      | ModWait fn bg_index ret i \<Rightarrow>
          if i < length (db_wrappers s)
          then if db_wrapper_mutex s (db_wrappers s ! i) = None
               then Some (db_goto t (ModHeld fn bg_index ret i)
                 (s\<lparr>db_wrapper_mutex := (db_wrapper_mutex s)(db_wrappers s ! i \<mapsto> t)\<rparr>))
               else None
          else Some (db_goto t (ModSecond fn bg_index ret) (s\<lparr>db_wrappers_mutex := None\<rparr>))
      | ModHeld fn bg_index ret i \<Rightarrow>
          Some (db_goto t (ModWait fn bg_index ret (Suc i))
            (s\<lparr>db_wrapper_mutex := (db_wrapper_mutex s)(db_wrappers s ! i := None)\<rparr>))
      | ModSecond fn bg_index ret \<Rightarrow>
          (let (x, ret2) = fn (db_data s bg_index) (db_data s (\<not> bg_index))
           in Some (db_goto t Idle
                (s\<lparr>db_data := (db_data s)(bg_index := x), db_modify_mutex := None,
                   db_check_failed := (db_check_failed s \<or> ret2 \<noteq> ret)\<rparr>)))
      | _ \<Rightarrow> None)"

text \<open>\<^verbatim>\<open>Modify\<close> ignores the other instance.\<close>

definition Modify_fn :: "('a \<Rightarrow> 'a \<times> nat) \<Rightarrow> 'a modifier" where
  "Modify_fn fn = (\<lambda>bg fg. fn bg)"

text \<open>The function objects of the overloads with arguments and of \<^verbatim>\<open>ModifyWithForeground\<close>.\<close>

definition Closure1 :: "('a \<Rightarrow> 'b \<Rightarrow> 'a \<times> nat) \<Rightarrow> 'b \<Rightarrow> 'a modifier" where
  "Closure1 fn arg1 = Modify_fn (\<lambda>bg. fn bg arg1)"

definition Closure2 :: "('a \<Rightarrow> 'b \<Rightarrow> 'c \<Rightarrow> 'a \<times> nat) \<Rightarrow> 'b \<Rightarrow> 'c \<Rightarrow> 'a modifier" where
  "Closure2 fn arg1 arg2 = Modify_fn (\<lambda>bg. fn bg arg1 arg2)"

definition WithFG0 :: "('a \<Rightarrow> 'a \<Rightarrow> 'a \<times> nat) \<Rightarrow> 'a modifier" where
  "WithFG0 fn = (\<lambda>bg fg. fn bg fg)"

definition WithFG1 :: "('a \<Rightarrow> 'a \<Rightarrow> 'b \<Rightarrow> 'a \<times> nat) \<Rightarrow> 'b \<Rightarrow> 'a modifier" where
  "WithFG1 fn arg1 = (\<lambda>bg fg. fn bg fg arg1)"

definition WithFG2 :: "('a \<Rightarrow> 'a \<Rightarrow> 'b \<Rightarrow> 'c \<Rightarrow> 'a \<times> nat) \<Rightarrow> 'b \<Rightarrow> 'c \<Rightarrow> 'a modifier" where
  "WithFG2 fn arg1 arg2 = (\<lambda>bg fg. fn bg fg arg1 arg2)"

text \<open>The steps inside of the operations, and the calls.\<close>

inductive db_run :: "'a db \<Rightarrow> 'a db \<Rightarrow> bool" where
  add: "AddWrapper_step t s = Some s' \<Longrightarrow> db_run s s'"
| remove: "RemoveWrapper_step t s = Some s' \<Longrightarrow> db_run s s'"
| read: "Read_step rc t s = Some s' \<Longrightarrow> db_run s s'"
| modify: "Modify_step t s = Some s' \<Longrightarrow> db_run s s'"

inductive db_call :: "('a modifier \<Rightarrow> bool) \<Rightarrow> 'a db \<Rightarrow> 'a db \<Rightarrow> bool" for F where
  call_read: "Read_call t s = Some s' \<Longrightarrow> db_call F s s'"
| call_quit: "quit_call t s = Some s' \<Longrightarrow> db_call F s s'"
| call_modify: "F fn \<Longrightarrow> Modify_call fn t s = Some s' \<Longrightarrow> db_call F s s'"

inductive db_reachable :: "('a modifier \<Rightarrow> bool) \<Rightarrow> 'a \<Rightarrow> 'a db \<Rightarrow> bool" for F x where
  start: "db_reachable F x (db_init x)"
| run: "db_reachable F x s \<Longrightarrow> db_run s s' \<Longrightarrow> db_reachable F x s'"
| call: "db_reachable F x s \<Longrightarrow> db_call F s s' \<Longrightarrow> db_reachable F x s'"

text \<open>
  What the header asks of \<^verbatim>\<open>fn\<close>: equivalent results on equivalent instances.  A call without a
  change changes nothing, and the second call, which sees the modified instance as the other one,
  does what the first one did.
\<close>

definition consistent :: "'a modifier \<Rightarrow> bool" where
  "consistent fn \<longleftrightarrow> (\<forall>x. (snd (fn x x) = 0 \<longrightarrow> fst (fn x x) = x) \<and>
     (snd (fn x x) \<noteq> 0 \<longrightarrow> fn x (fst (fn x x)) = fn x x))"

lemma consistent_Modify_fn: "consistent (Modify_fn fn) \<longleftrightarrow> (\<forall>x. snd (fn x) = 0 \<longrightarrow> fst (fn x) = x)"
  by (auto simp: consistent_def Modify_fn_def)

subsection \<open>The atomic steps\<close>

lemma db_goto_simps [simp]:
  "db_pc (db_goto t p s) = (db_pc s)(t := p)"
  "db_data (db_goto t p s) = db_data s" "db_index (db_goto t p s) = db_index s"
  "db_wrappers (db_goto t p s) = db_wrappers s" "db_allocated (db_goto t p s) = db_allocated s"
  "db_specific (db_goto t p s) = db_specific s" "db_wrapper_mutex (db_goto t p s) = db_wrapper_mutex s"
  "db_wrappers_mutex (db_goto t p s) = db_wrappers_mutex s" "db_modify_mutex (db_goto t p s) = db_modify_mutex s"
  "db_check_failed (db_goto t p s) = db_check_failed s"
  by (simp_all add: db_goto_def)

lemma db_run_elim:
  assumes "db_run s s'"
  obtains
    (AddLock) t where "db_pc s t = AddLock" "db_wrappers_mutex s = None"
      "s' = db_goto t AddHeld (s\<lparr>db_wrappers_mutex := Some t\<rparr>)"
  | (AddHeld) t where "db_pc s t = AddHeld"
      "s' = db_goto t (SetSpecific (db_allocated s))
        (s\<lparr>db_wrappers := db_wrappers s @ [db_allocated s], db_allocated := Suc (db_allocated s),
           db_wrappers_mutex := None\<rparr>)"
  | (RemoveLock) t w where "db_pc s t = RemoveLock w" "db_wrappers_mutex s = None"
      "s' = db_goto t (RemoveHeld w) (s\<lparr>db_wrappers_mutex := Some t\<rparr>)"
  | (RemoveHeld) t w where "db_pc s t = RemoveHeld w"
      "s' = db_goto t Idle (s\<lparr>db_wrappers := remove_wrapper w (db_wrappers s), db_wrappers_mutex := None\<rparr>)"
  | (SetSpecific) t w where "db_pc s t = SetSpecific w"
      "s' = db_goto t (BeginRead w) (s\<lparr>db_specific := (db_specific s)(t \<mapsto> w)\<rparr>)"
  | (SetSpecificFails) t w where "db_pc s t = SetSpecific w" "s' = db_goto t Idle s"
  | (BeginRead) t w where "db_pc s t = BeginRead w" "db_wrapper_mutex s w = None"
      "s' = db_goto t (UnsafeRead w) (s\<lparr>db_wrapper_mutex := (db_wrapper_mutex s)(w \<mapsto> t)\<rparr>)"
  | (UnsafeRead) t w where "db_pc s t = UnsafeRead w" "s' = db_goto t (Reading w (db_index s)) s"
  | (EndRead) t w k where "db_pc s t = Reading w k"
      "s' = db_goto t Idle (s\<lparr>db_wrapper_mutex := (db_wrapper_mutex s)(w := None)\<rparr>)"
  | (ModLock) t fn where "db_pc s t = ModLock fn" "db_modify_mutex s = None"
      "s' = db_goto t (ModLoad fn) (s\<lparr>db_modify_mutex := Some t\<rparr>)"
  | (ModLoad) t fn where "db_pc s t = ModLoad fn" "s' = db_goto t (ModFirst fn (\<not> db_index s)) s"
  | (ModNone) t fn bg x where "db_pc s t = ModFirst fn bg" "fn (db_data s bg) (db_data s (\<not> bg)) = (x, 0)"
      "s' = db_goto t Idle (s\<lparr>db_data := (db_data s)(bg := x), db_modify_mutex := None\<rparr>)"
  | (ModFirst) t fn bg x ret where "db_pc s t = ModFirst fn bg"
      "fn (db_data s bg) (db_data s (\<not> bg)) = (x, ret)" "ret \<noteq> 0"
      "s' = db_goto t (ModFlip fn bg ret) (s\<lparr>db_data := (db_data s)(bg := x)\<rparr>)"
  | (ModFlip) t fn bg ret where "db_pc s t = ModFlip fn bg ret"
      "s' = db_goto t (ModWrappers fn (\<not> bg) ret) (s\<lparr>db_index := bg\<rparr>)"
  | (ModWrappers) t fn bg ret where "db_pc s t = ModWrappers fn bg ret" "db_wrappers_mutex s = None"
      "s' = db_goto t (ModWait fn bg ret 0) (s\<lparr>db_wrappers_mutex := Some t\<rparr>)"
  | (ModWait) t fn bg ret i where "db_pc s t = ModWait fn bg ret i" "i < length (db_wrappers s)"
      "db_wrapper_mutex s (db_wrappers s ! i) = None"
      "s' = db_goto t (ModHeld fn bg ret i) (s\<lparr>db_wrapper_mutex := (db_wrapper_mutex s)(db_wrappers s ! i \<mapsto> t)\<rparr>)"
  | (ModWaited) t fn bg ret i where "db_pc s t = ModWait fn bg ret i" "i \<ge> length (db_wrappers s)"
      "s' = db_goto t (ModSecond fn bg ret) (s\<lparr>db_wrappers_mutex := None\<rparr>)"
  | (ModHeld) t fn bg ret i where "db_pc s t = ModHeld fn bg ret i"
      "s' = db_goto t (ModWait fn bg ret (Suc i))
        (s\<lparr>db_wrapper_mutex := (db_wrapper_mutex s)(db_wrappers s ! i := None)\<rparr>)"
  | (ModSecond) t fn bg ret x ret2 where "db_pc s t = ModSecond fn bg ret"
      "fn (db_data s bg) (db_data s (\<not> bg)) = (x, ret2)"
      "s' = db_goto t Idle (s\<lparr>db_data := (db_data s)(bg := x), db_modify_mutex := None,
        db_check_failed := (db_check_failed s \<or> ret2 \<noteq> ret)\<rparr>)"
  using assms
proof (cases rule: db_run.cases)
  case (add t)
  then show thesis using AddLock AddHeld by (auto simp: AddWrapper_step_def split: pc.splits if_splits)
next
  case (remove t)
  then show thesis using RemoveLock RemoveHeld by (auto simp: RemoveWrapper_step_def split: pc.splits if_splits)
next
  case (read rc t)
  then show thesis
    using SetSpecific SetSpecificFails BeginRead UnsafeRead EndRead
    by (auto simp: Read_step_def split: pc.splits if_splits)
next
  case (modify t)
  then show thesis
  proof (cases "db_pc s t")
    case (ModFirst fn bg)
    then show thesis using modify that(12) [of t fn bg] that(13) [of t fn bg]
      by (auto simp: Modify_step_def Let_def split: prod.splits if_splits)
  next
    case (ModSecond fn bg ret)
    then show thesis using modify that(19) [of t fn bg ret]
      by (auto simp: Modify_step_def split: prod.splits)
  next
    case (ModWait fn bg ret i)
    then show thesis using modify that(16) [of t fn bg ret i] that(17) [of t fn bg ret i]
      by (auto simp: Modify_step_def split: if_splits)
  qed (use modify that(10,11,14,15,18) in \<open>auto simp: Modify_step_def split: if_splits\<close>)
qed

lemma db_call_elim:
  assumes "db_call F s s'"
  obtains
    (Read) t w where "db_pc s t = Idle" "db_specific s t = Some w" "s' = db_goto t (BeginRead w) s"
  | (ReadNew) t where "db_pc s t = Idle" "db_specific s t = None" "s' = db_goto t AddLock s"
  | (Quit) t w where "db_pc s t = Idle" "db_specific s t = Some w"
      "s' = db_goto t (RemoveLock w) (s\<lparr>db_specific := (db_specific s)(t := None)\<rparr>)"
  | (Modify) t fn where "db_pc s t = Idle" "F fn" "s' = db_goto t (ModLock fn) s"
  using assms
  by (cases rule: db_call.cases)
    (auto simp: Read_call_def quit_call_def Modify_call_def split: pc.splits option.splits)

subsection \<open>The mutexes\<close>

fun modifying :: "'a pc \<Rightarrow> bool" where
  "modifying (ModLoad fn) = True"
| "modifying (ModFirst fn bg) = True"
| "modifying (ModFlip fn bg ret) = True"
| "modifying (ModWrappers fn bg ret) = True"
| "modifying (ModWait fn bg ret i) = True"
| "modifying (ModHeld fn bg ret i) = True"
| "modifying (ModSecond fn bg ret) = True"
| "modifying _ = False"

fun locks_wrappers :: "'a pc \<Rightarrow> bool" where
  "locks_wrappers AddHeld = True"
| "locks_wrappers (RemoveHeld w) = True"
| "locks_wrappers (ModWait fn bg ret i) = True"
| "locks_wrappers (ModHeld fn bg ret i) = True"
| "locks_wrappers _ = False"

fun locks_wrapper :: "nat list \<Rightarrow> 'a pc \<Rightarrow> nat option" where
  "locks_wrapper ws (UnsafeRead w) = Some w"
| "locks_wrapper ws (Reading w k) = Some w"
| "locks_wrapper ws (ModHeld fn bg ret i) = Some (ws ! i)"
| "locks_wrapper ws _ = None"

definition db_locks :: "'a db \<Rightarrow> bool" where
  "db_locks s \<longleftrightarrow> (\<forall>t. db_modify_mutex s = Some t \<longleftrightarrow> modifying (db_pc s t)) \<and>
     (\<forall>t. db_wrappers_mutex s = Some t \<longleftrightarrow> locks_wrappers (db_pc s t)) \<and>
     (\<forall>t w. db_wrapper_mutex s w = Some t \<longleftrightarrow> locks_wrapper (db_wrappers s) (db_pc s t) = Some w)"

lemma locks_wrapper_cong:
  "locks_wrapper ws p = locks_wrapper ws' p" if "\<not> locks_wrappers p"
  using that by (cases p) auto

lemma db_locksI:
  assumes "\<And>t. db_modify_mutex s = Some t \<longleftrightarrow> modifying (db_pc s t)"
    "\<And>t. db_wrappers_mutex s = Some t \<longleftrightarrow> locks_wrappers (db_pc s t)"
    "\<And>t w. db_wrapper_mutex s w = Some t \<longleftrightarrow> locks_wrapper (db_wrappers s) (db_pc s t) = Some w"
  shows "db_locks s"
  using assms by (simp add: db_locks_def)

lemma db_locksD:
  assumes "db_locks s"
  shows "db_modify_mutex s = Some t \<longleftrightarrow> modifying (db_pc s t)"
    "db_wrappers_mutex s = Some t \<longleftrightarrow> locks_wrappers (db_pc s t)"
    "db_wrapper_mutex s w = Some t \<longleftrightarrow> locks_wrapper (db_wrappers s) (db_pc s t) = Some w"
  using assms by (simp_all add: db_locks_def)

text \<open>Each mutex has one holder.\<close>

lemma one_modifier: "db_locks s \<Longrightarrow> modifying (db_pc s t) \<Longrightarrow> modifying (db_pc s u) \<Longrightarrow> t = u"
  by (metis db_locksD(1) option.inject)

lemma one_locks_wrappers: "db_locks s \<Longrightarrow> locks_wrappers (db_pc s t) \<Longrightarrow> locks_wrappers (db_pc s u) \<Longrightarrow> t = u"
  by (metis db_locksD(2) option.inject)

lemma one_locks_wrapper:
  "db_locks s \<Longrightarrow> locks_wrapper (db_wrappers s) (db_pc s t) = Some w \<Longrightarrow>
   locks_wrapper (db_wrappers s) (db_pc s u) = Some w \<Longrightarrow> t = u"
  by (metis db_locksD(3) option.inject)

lemma wrapper_unlocked:
  "db_locks s \<Longrightarrow> db_wrapper_mutex s w = None \<Longrightarrow> locks_wrapper (db_wrappers s) (db_pc s t) \<noteq> Some w"
  by (metis db_locksD(3) option.distinct(1))

lemma db_locks_init: "db_locks (db_init x)"
  by (simp add: db_locks_def db_init_def)

lemma locks_wrapper_other:
  assumes "db_locks s" "locks_wrappers (db_pc s t)" "u \<noteq> t"
  shows "locks_wrapper ws (db_pc s u) = locks_wrapper ws' (db_pc s u)"
  using assms one_locks_wrappers locks_wrapper_cong by blast

lemma db_locks_run:
  assumes "db_locks s" "db_run s s'" shows "db_locks s'"
  using assms(2)
proof (cases rule: db_run_elim)
  case (AddHeld t)
  then have "locks_wrapper (db_wrappers s @ [db_allocated s]) (db_pc s u) = locks_wrapper (db_wrappers s) (db_pc s u)"
    if "u \<noteq> t" for u
    using assms(1) that by (intro locks_wrapper_other [of s t]) simp_all
  then show ?thesis
    using AddHeld db_locksD [OF assms(1)] one_locks_wrappers [OF assms(1)] by (intro db_locksI) auto
next
  case (RemoveHeld t w)
  then have "locks_wrapper (remove_wrapper w (db_wrappers s)) (db_pc s u) = locks_wrapper (db_wrappers s) (db_pc s u)"
    if "u \<noteq> t" for u
    using assms(1) that by (intro locks_wrapper_other [of s t]) simp_all
  then show ?thesis
    using RemoveHeld db_locksD [OF assms(1)] one_locks_wrappers [OF assms(1)] by (intro db_locksI) auto
qed (use db_locksD [OF assms(1)] one_modifier [OF assms(1)] one_locks_wrappers [OF assms(1)] one_locks_wrapper [OF assms(1)]
     wrapper_unlocked [OF assms(1)] in \<open>auto intro!: db_locksI split: if_splits\<close>)

lemma db_locks_call:
  assumes "db_locks s" "db_call F s s'" shows "db_locks s'"
  using assms(2) by (cases rule: db_call_elim) (use db_locksD [OF assms(1)] in \<open>auto intro!: db_locksI split: if_splits\<close>)

subsection \<open>The wrappers\<close>

lemma remove_wrapper_split:
  assumes "distinct ws" "w \<in> set ws"
  shows "set (remove_wrapper w ws) = set ws - {w} \<and> distinct (remove_wrapper w ws) \<and>
    length (remove_wrapper w ws) < length ws"
proof -
  obtain us vs where ws: "ws = us @ w # vs" "w \<notin> set us" using split_list_first [OF assms(2)] by blast
  then have tw: "takeWhile (\<lambda>x. x \<noteq> w) ws = us" by (auto intro!: takeWhile_append2 [THEN trans] simp: takeWhile_append)
  show ?thesis
  proof (cases vs rule: rev_cases)
    case Nil
    then show ?thesis using ws tw assms(1) by (auto simp: remove_wrapper_def)
  next
    case (snoc vs' z)
    then have "remove_wrapper w ws = us @ z # vs'" using ws tw by (simp add: remove_wrapper_def butlast_append)
    then show ?thesis using ws snoc assms(1) by auto
  qed
qed

text \<open>A thread has at most one wrapper: its thread-local one, or one it is adding or removing.\<close>

fun moving :: "'a pc \<Rightarrow> nat option" where
  "moving (SetSpecific w) = Some w"
| "moving (RemoveLock w) = Some w"
| "moving (RemoveHeld w) = Some w"
| "moving _ = None"

fun reading :: "'a pc \<Rightarrow> nat option" where
  "reading (BeginRead w) = Some w"
| "reading (UnsafeRead w) = Some w"
| "reading (Reading w k) = Some w"
| "reading _ = None"

definition has_wrapper :: "'a db \<Rightarrow> nat \<Rightarrow> nat \<Rightarrow> bool" where
  "has_wrapper s t w \<longleftrightarrow> db_specific s t = Some w \<or> moving (db_pc s t) = Some w"

definition db_owned :: "'a db \<Rightarrow> bool" where
  "db_owned s \<longleftrightarrow> distinct (db_wrappers s) \<and> (\<forall>w \<in> set (db_wrappers s). w < db_allocated s) \<and>
     (\<forall>t w. has_wrapper s t w \<longrightarrow> w \<in> set (db_wrappers s)) \<and>
     (\<forall>t u w. has_wrapper s t w \<longrightarrow> has_wrapper s u w \<longrightarrow> t = u) \<and>
     (\<forall>t w. reading (db_pc s t) = Some w \<longrightarrow> db_specific s t = Some w) \<and>
     (\<forall>t w. moving (db_pc s t) = Some w \<longrightarrow> db_specific s t \<noteq> Some w) \<and>
     (\<forall>t fn bg ret i. db_pc s t = ModHeld fn bg ret i \<longrightarrow> i < length (db_wrappers s))"

lemma db_ownedI:
  assumes "distinct (db_wrappers s)" "\<And>w. w \<in> set (db_wrappers s) \<Longrightarrow> w < db_allocated s"
    "\<And>t w. has_wrapper s t w \<Longrightarrow> w \<in> set (db_wrappers s)"
    "\<And>t u w. has_wrapper s t w \<Longrightarrow> has_wrapper s u w \<Longrightarrow> t = u"
    "\<And>t w. reading (db_pc s t) = Some w \<Longrightarrow> db_specific s t = Some w"
    "\<And>t w. moving (db_pc s t) = Some w \<Longrightarrow> db_specific s t \<noteq> Some w"
    "\<And>t fn bg ret i. db_pc s t = ModHeld fn bg ret i \<Longrightarrow> i < length (db_wrappers s)"
  shows "db_owned s"
  unfolding db_owned_def using assms by blast

lemma db_ownedD:
  assumes "db_owned s"
  shows "distinct (db_wrappers s)" "w \<in> set (db_wrappers s) \<Longrightarrow> w < db_allocated s"
    "has_wrapper s t w \<Longrightarrow> w \<in> set (db_wrappers s)"
    "has_wrapper s t w \<Longrightarrow> has_wrapper s u w \<Longrightarrow> t = u"
    "reading (db_pc s t) = Some w \<Longrightarrow> db_specific s t = Some w"
    "moving (db_pc s t) = Some w \<Longrightarrow> db_specific s t \<noteq> Some w"
    "db_pc s t = ModHeld fn bg ret i \<Longrightarrow> i < length (db_wrappers s)"
  using assms unfolding db_owned_def by blast+

lemma db_owned_init: "db_owned (db_init x)"
  by (simp add: db_owned_def db_init_def has_wrapper_def)

text \<open>A step that neither changes the list nor gives a thread a wrapper keeps the invariant.\<close>

lemma db_owned_frame:
  assumes "db_owned s" "db_wrappers s' = db_wrappers s" "db_allocated s' = db_allocated s"
    "\<And>t w. has_wrapper s' t w \<Longrightarrow> has_wrapper s t w"
    "\<And>t w. reading (db_pc s' t) = Some w \<Longrightarrow> db_specific s' t = Some w"
    "\<And>t w. moving (db_pc s' t) = Some w \<Longrightarrow> db_specific s' t \<noteq> Some w"
    "\<And>t fn bg ret i. db_pc s' t = ModHeld fn bg ret i \<Longrightarrow> i < length (db_wrappers s)"
  shows "db_owned s'"
  using assms(2-) db_ownedD [OF assms(1)] by (intro db_ownedI) (simp_all, metis+)

lemma db_owned_run:
  assumes "db_locks s" "db_owned s" "db_run s s'" shows "db_owned s'"
  using assms(3)
proof (cases rule: db_run_elim)
  case (AddHeld t)
  note o = db_ownedD [OF assms(2)]
  have fresh: "\<not> has_wrapper s u (db_allocated s)" for u using o(2,3) by blast
  then have unset: "db_specific s u \<noteq> Some (db_allocated s)" for u by (auto simp: has_wrapper_def)
  have has: "has_wrapper s' u w \<longleftrightarrow> has_wrapper s u w \<or> u = t \<and> w = db_allocated s" for u w
    using AddHeld by (auto simp: has_wrapper_def)
  have "\<not> locks_wrappers (db_pc s u)" if "u \<noteq> t" for u
    using AddHeld that one_locks_wrappers [OF assms(1), of t u] by auto
  then have held: "db_pc s u \<noteq> ModHeld fn bg ret i" if "u \<noteq> t" for u fn bg ret i using that by force
  show ?thesis
    using AddHeld o fresh unset has held by (intro db_ownedI) (auto simp: less_Suc_eq split: if_splits)
next
  case (RemoveHeld t w)
  note o = db_ownedD [OF assms(2)]
  have w: "has_wrapper s t w" using RemoveHeld by (simp add: has_wrapper_def)
  then have ws: "set (remove_wrapper w (db_wrappers s)) = set (db_wrappers s) - {w}"
      "distinct (remove_wrapper w (db_wrappers s))"
    using remove_wrapper_split o(1,3) by blast+
  have has: "has_wrapper s' u v \<Longrightarrow> has_wrapper s u v" for u v
    using RemoveHeld by (auto simp: has_wrapper_def split: if_splits)
  have "\<not> locks_wrappers (db_pc s u)" if "u \<noteq> t" for u
    using RemoveHeld that one_locks_wrappers [OF assms(1), of t u] by auto
  then have held: "db_pc s u \<noteq> ModHeld fn bg ret i" if "u \<noteq> t" for u fn bg ret i using that by force
  have gone: "\<not> has_wrapper s' u w" for u
  proof
    assume "has_wrapper s' u w"
    then have "u = t" using has o(4) [OF _ w] by blast
    then have "db_specific s t = Some w" using \<open>has_wrapper s' u w\<close> RemoveHeld(2) by (simp add: has_wrapper_def)
    then show False using RemoveHeld o(6) [of t w] by simp
  qed
  show ?thesis
  proof (rule db_ownedI)
    show "v \<in> set (db_wrappers s')" if "has_wrapper s' u v" for u v
      using that gone o(3) [OF has [OF that]] RemoveHeld(2) ws(1) by auto
    show "u = u'" if "has_wrapper s' u v" "has_wrapper s' u' v" for u u' v
      using that [THEN has] o(4) by blast
    show "db_specific s' u = Some v" if "reading (db_pc s' u) = Some v" for u v
      using that o(5) RemoveHeld(2) by (auto split: if_splits)
    show "db_specific s' u \<noteq> Some v" if "moving (db_pc s' u) = Some v" for u v
      using that o(6) RemoveHeld(2) by (auto split: if_splits)
    show "i < length (db_wrappers s')" if "db_pc s' u = ModHeld fn bg ret i" for u fn bg ret i
      using that held [of u fn bg ret i] RemoveHeld(2) by (simp split: if_splits)
  qed (use RemoveHeld(2) o(2) ws in auto)
qed (use db_ownedD [OF assms(2)] in \<open>auto intro!: db_owned_frame [OF assms(2)] simp: has_wrapper_def split: if_splits\<close>)

lemma db_owned_call:
  assumes "db_owned s" "db_call F s s'" shows "db_owned s'"
  using assms(2)
  by (cases rule: db_call_elim)
    (use db_ownedD [OF assms(1)] in
      \<open>auto intro!: db_owned_frame [OF assms(1)] simp: has_wrapper_def split: if_splits\<close>)

subsection \<open>The background instance\<close>

fun background :: "'a pc \<Rightarrow> bool option" where
  "background (ModFirst fn bg) = Some bg"
| "background (ModFlip fn bg ret) = Some bg"
| "background (ModWrappers fn bg ret) = Some bg"
| "background (ModWait fn bg ret i) = Some bg"
| "background (ModHeld fn bg ret i) = Some bg"
| "background (ModSecond fn bg ret) = Some bg"
| "background _ = None"

text \<open>The readers of the old foreground instance that \<^verbatim>\<open>Modify\<close> has yet to wait for.\<close>

fun waits_for :: "nat list \<Rightarrow> 'a pc \<Rightarrow> nat \<Rightarrow> bool" where
  "waits_for ws (ModWrappers fn bg ret) w = True"
| "waits_for ws (ModWait fn bg ret i) w = (w \<in> set (drop i ws))"
| "waits_for ws (ModHeld fn bg ret i) w = (w \<in> set (drop i ws))"
| "waits_for ws _ w = False"

definition db_readers :: "'a db \<Rightarrow> bool" where
  "db_readers s \<longleftrightarrow> (\<forall>t bg. background (db_pc s t) = Some bg \<longrightarrow> bg = (\<not> db_index s)) \<and>
     (\<forall>t w k. db_pc s t = Reading w k \<longrightarrow> k = db_index s \<or> (\<exists>m. waits_for (db_wrappers s) (db_pc s m) w))"

lemma background_modifying: "background p = Some bg \<Longrightarrow> modifying p"
  by (cases p) auto

lemma waits_for_modifying: "waits_for ws p w \<Longrightarrow> modifying p"
  by (cases p) auto

lemma waits_for_cong: "\<not> locks_wrappers p \<Longrightarrow> waits_for ws p w = waits_for ws' p w"
  by (cases p) auto

lemma db_readers_init: "db_readers (db_init x)"
  by (simp add: db_readers_def db_init_def)

text \<open>A step that neither flips the instances nor affects the waiting keeps the invariant.\<close>

lemma db_readers_frame:
  assumes "db_readers s" "db_index s' = db_index s"
    "\<And>t bg. background (db_pc s' t) = Some bg \<Longrightarrow> background (db_pc s t) = Some bg \<or> bg = (\<not> db_index s)"
    "\<And>t w k. db_pc s' t = Reading w k \<Longrightarrow> db_pc s t = Reading w k \<or> k = db_index s"
    "\<And>t w k m. db_pc s' t = Reading w k \<Longrightarrow> waits_for (db_wrappers s) (db_pc s m) w \<Longrightarrow>
       waits_for (db_wrappers s') (db_pc s' m) w"
  shows "db_readers s'"
  unfolding db_readers_def
proof (intro conjI allI impI)
  show "bg = (\<not> db_index s')" if "background (db_pc s' t) = Some bg" for t bg
    using assms(1,2) assms(3) [OF that] unfolding db_readers_def by auto
  show "k = db_index s' \<or> (\<exists>m. waits_for (db_wrappers s') (db_pc s' m) w)" if "db_pc s' t = Reading w k" for t w k
    using assms(1,2) assms(4,5) [OF that] unfolding db_readers_def by metis
qed

lemma db_readers_run:
  assumes "db_locks s" "db_owned s" "db_readers s" "db_run s s'" shows "db_readers s'"
  using assms(4)
proof (cases rule: db_run_elim)
  case (AddHeld t)
  then have "waits_for (db_wrappers s') (db_pc s u) w = waits_for (db_wrappers s) (db_pc s u) w" if "u \<noteq> t" for u w
    using one_locks_wrappers [OF assms(1), of t u] that by (intro waits_for_cong) auto
  then show ?thesis using AddHeld by (intro db_readers_frame [OF assms(3)]) (auto split: if_splits)
next
  case (RemoveHeld t w)
  then have "waits_for (db_wrappers s') (db_pc s u) v = waits_for (db_wrappers s) (db_pc s u) v" if "u \<noteq> t" for u v
    using one_locks_wrappers [OF assms(1), of t u] that by (intro waits_for_cong) auto
  then show ?thesis using RemoveHeld by (intro db_readers_frame [OF assms(3)]) (auto split: if_splits)
next
  case (ModFlip t fn bg ret)
  have "\<not> modifying (db_pc s u)" if "u \<noteq> t" for u
    using ModFlip one_modifier [OF assms(1), of t u] that by auto
  then have "background (db_pc s u) = None" if "u \<noteq> t" for u
    using that background_modifying [of "db_pc s u"] by fastforce
  moreover have "waits_for (db_wrappers s') (db_pc s' t) w" for w using ModFlip by simp
  ultimately show ?thesis using ModFlip unfolding db_readers_def by (auto split: if_splits)
next
  case (ModHeld t fn bg ret i)
  have "drop i (db_wrappers s) = db_wrappers s ! i # drop (Suc i) (db_wrappers s)"
    using db_ownedD(7) [OF assms(2) ModHeld(1)] by (simp add: Cons_nth_drop_Suc)
  moreover have "w \<noteq> db_wrappers s ! i" if "db_pc s u = Reading w k" for u w k
    using ModHeld that one_locks_wrapper [OF assms(1), of u w t] by auto
  ultimately show ?thesis using ModHeld by (intro db_readers_frame [OF assms(3)]) (auto split: if_splits)
next
  case (ModWrappers t fn bg ret)
  have "w \<in> set (db_wrappers s)" if "db_pc s u = Reading w k" for u w k
    using db_ownedD(5) [OF assms(2), of u w] db_ownedD(3) [OF assms(2), of u w] that by (simp add: has_wrapper_def)
  then show ?thesis using ModWrappers by (intro db_readers_frame [OF assms(3)]) (auto split: if_splits)
qed (auto intro!: db_readers_frame [OF assms(3)] split: if_splits)

lemma db_readers_call:
  assumes "db_readers s" "db_call F s s'" shows "db_readers s'"
  using assms(2)
  by (cases rule: db_call_elim) (auto intro!: db_readers_frame [OF assms(1)] split: if_splits)

end
