(* ===== verification/Doubly_Buffered_Correct.thy ===== *)
theory Doubly_Buffered_Correct
  imports Doubly_Buffered
begin

text \<open>
  Correctness of \<^verbatim>\<open>DoublyBufferedData\<close>: the relation between its two instances during a
  modification, schedules of calls and steps, a bound on the steps of every operation and the
  absence of deadlock, and the properties that follow.
\<close>

subsection \<open>The two instances\<close>

fun pc_fn :: "'a pc \<Rightarrow> 'a modifier option" where
  "pc_fn (ModLock fn) = Some fn"
| "pc_fn (ModLoad fn) = Some fn"
| "pc_fn (ModFirst fn bg) = Some fn"
| "pc_fn (ModFlip fn bg ret) = Some fn"
| "pc_fn (ModWrappers fn bg ret) = Some fn"
| "pc_fn (ModWait fn bg ret i) = Some fn"
| "pc_fn (ModHeld fn bg ret i) = Some fn"
| "pc_fn (ModSecond fn bg ret) = Some fn"
| "pc_fn _ = None"

text \<open>Between the two calls of \<^verbatim>\<open>fn\<close> one instance is ahead of the other by one application.\<close>

fun ahead :: "(bool \<Rightarrow> 'a) \<Rightarrow> 'a pc \<Rightarrow> bool" where
  "ahead d (ModFlip fn bg ret) \<longleftrightarrow> fn (d (\<not> bg)) (d (\<not> bg)) = (d bg, ret) \<and> ret \<noteq> 0"
| "ahead d (ModWrappers fn bg ret) \<longleftrightarrow> fn (d bg) (d bg) = (d (\<not> bg), ret) \<and> ret \<noteq> 0"
| "ahead d (ModWait fn bg ret i) \<longleftrightarrow> fn (d bg) (d bg) = (d (\<not> bg), ret) \<and> ret \<noteq> 0"
| "ahead d (ModHeld fn bg ret i) \<longleftrightarrow> fn (d bg) (d bg) = (d (\<not> bg), ret) \<and> ret \<noteq> 0"
| "ahead d (ModSecond fn bg ret) \<longleftrightarrow> fn (d bg) (d bg) = (d (\<not> bg), ret) \<and> ret \<noteq> 0"
| "ahead d _ \<longleftrightarrow> True"

fun between_calls :: "'a pc \<Rightarrow> bool" where
  "between_calls (ModFlip fn bg ret) = True"
| "between_calls (ModWrappers fn bg ret) = True"
| "between_calls (ModWait fn bg ret i) = True"
| "between_calls (ModHeld fn bg ret i) = True"
| "between_calls (ModSecond fn bg ret) = True"
| "between_calls _ = False"

definition db_instances :: "'a db \<Rightarrow> bool" where
  "db_instances s \<longleftrightarrow> (\<forall>t fn. pc_fn (db_pc s t) = Some fn \<longrightarrow> consistent fn) \<and>
     (\<forall>t. ahead (db_data s) (db_pc s t)) \<and>
     ((\<forall>t. \<not> between_calls (db_pc s t)) \<longrightarrow> db_data s True = db_data s False) \<and> \<not> db_check_failed s"

lemma not_modifying: "\<not> modifying p \<Longrightarrow> ahead d p \<and> \<not> between_calls p"
  by (cases p) auto

lemma db_instances_init: "db_instances (db_init x)"
  by (simp add: db_instances_def db_init_def)

text \<open>A step of \<open>t\<close> that does not touch the instances keeps the invariant if it neither begins nor ends the flip.\<close>

lemma db_instances_frame:
  assumes "db_instances s" "s' = db_goto t p s1" "db_data s1 = db_data s" "db_check_failed s1 = db_check_failed s"
    "db_pc s1 = db_pc s" "\<And>fn. pc_fn p = Some fn \<Longrightarrow> pc_fn (db_pc s t) = Some fn \<or> consistent fn"
    "ahead (db_data s) p" "between_calls p \<longleftrightarrow> between_calls (db_pc s t)"
  shows "db_instances s'"
proof -
  have "between_calls (db_pc s' u) \<longleftrightarrow> between_calls (db_pc s u)" for u using assms(2,5,8) by simp
  moreover have "consistent fn" if "pc_fn (db_pc s' u) = Some fn" for u fn
    using that assms(1,2,5,6) unfolding db_instances_def by (auto split: if_splits)
  ultimately show ?thesis
    using assms(1-5,7) unfolding db_instances_def by (auto split: if_splits)
qed

text \<open>A step of the only modifier.\<close>

lemma db_instances_modifier:
  assumes "db_locks s" "db_instances s" "modifying (db_pc s t)" "s' = db_goto t p s1" "db_pc s1 = db_pc s"
    "pc_fn p \<noteq> None \<Longrightarrow> pc_fn p = pc_fn (db_pc s t)" "ahead (db_data s1) p" "\<not> db_check_failed s1"
    "\<not> between_calls p \<Longrightarrow> db_data s1 True = db_data s1 False"
  shows "db_instances s'"
proof -
  have other: "ahead d (db_pc s u) \<and> \<not> between_calls (db_pc s u)" if "u \<noteq> t" for u d
    using one_modifier [OF assms(1,3), of u] that not_modifying by blast
  have "consistent fn" if "pc_fn (db_pc s' u) = Some fn" for u fn
    using that assms(2,4-6) unfolding db_instances_def by (auto split: if_splits)
  moreover have "db_data s1 True = db_data s1 False" if "\<forall>u. \<not> between_calls (db_pc s' u)"
    using that [THEN spec, of t] assms(4,9) by simp
  ultimately show ?thesis
    using other assms(4,5,7,8) unfolding db_instances_def by simp
qed

lemma instances_equal:
  assumes "db_locks s" "db_instances s" "modifying (db_pc s t)" "\<not> between_calls (db_pc s t)"
  shows "db_data s k = db_data s l"
proof -
  have "\<not> between_calls (db_pc s u)" for u
    using one_modifier [OF assms(1,3), of u] assms(4) not_modifying by (cases "u = t") blast+
  then have "db_data s True = db_data s False" using assms(2) unfolding db_instances_def by blast
  then show ?thesis by (cases k; cases l) simp_all
qed

lemma db_instances_run:
  assumes "db_locks s" "db_instances s" "db_run s s'" shows "db_instances s'"
proof -
  have con: "consistent fn" if "pc_fn (db_pc s t) = Some fn" for t fn
    using assms(2) that unfolding db_instances_def by blast
  have ahd: "ahead (db_data s) (db_pc s t)" for t using assms(2) unfolding db_instances_def by blast
  have chk: "\<not> db_check_failed s" using assms(2) unfolding db_instances_def by blast
  show ?thesis
    using assms(3)
  proof (cases rule: db_run_elim)
    case (ModNone t fn bg x)
    have eq: "db_data s k = db_data s l" for k l
      using ModNone(1) by (intro instances_equal [OF assms(1,2), of t]) simp_all
    have "fn (db_data s bg) (db_data s bg) = (x, 0)" using ModNone(2) eq [of "\<not> bg" bg] by simp
    moreover have "consistent fn" using ModNone(1) by (intro con [of t]) simp
    ultimately have "x = db_data s bg" unfolding consistent_def by (metis fst_conv snd_conv)
    then show ?thesis
      using ModNone(1) eq chk by (intro db_instances_modifier [OF assms(1,2) _ ModNone(3)]) simp_all
  next
    case (ModFirst t fn bg x ret)
    have "db_data s (\<not> bg) = db_data s bg" using ModFirst(1) by (intro instances_equal [OF assms(1,2), of t]) simp_all
    then show ?thesis
      using ModFirst(1-3) chk by (intro db_instances_modifier [OF assms(1,2) _ ModFirst(4)]) simp_all
  next
    case (ModFlip t fn bg ret)
    then show ?thesis
      using ahd [of t] chk by (intro db_instances_modifier [OF assms(1,2) _ ModFlip(2)]) simp_all
  next
    case (ModSecond t fn bg ret x ret2)
    have "fn (db_data s bg) (db_data s bg) = (db_data s (\<not> bg), ret)" "ret \<noteq> 0"
      using ahd [of t] ModSecond(1) by simp_all
    moreover have "consistent fn" using ModSecond(1) by (intro con [of t]) simp
    ultimately have "fn (db_data s bg) (db_data s (\<not> bg)) = (db_data s (\<not> bg), ret)"
      unfolding consistent_def by (metis fst_conv snd_conv)
    then show ?thesis
      using ModSecond(1,2) chk
      by (intro db_instances_modifier [OF assms(1,2) _ ModSecond(3)]) (simp, simp, simp, simp, simp, cases bg, simp_all)
  next
    case (ModWrappers t fn bg ret)
    then show ?thesis using ahd [of t] by (intro db_instances_frame [OF assms(2) ModWrappers(3)]) simp_all
  next
    case (ModWait t fn bg ret i)
    then show ?thesis using ahd [of t] by (intro db_instances_frame [OF assms(2) ModWait(4)]) simp_all
  next
    case (ModWaited t fn bg ret i)
    then show ?thesis using ahd [of t] by (intro db_instances_frame [OF assms(2) ModWaited(3)]) simp_all
  next
    case (ModHeld t fn bg ret i)
    then show ?thesis using ahd [of t] by (intro db_instances_frame [OF assms(2) ModHeld(2)]) simp_all
  qed (erule db_instances_frame [OF assms(2)]; simp)+
qed

lemma db_instances_call:
  assumes "db_instances s" "db_call consistent s s'" shows "db_instances s'"
  using assms(2)
  by (cases rule: db_call_elim) (erule db_instances_frame [OF assms(1)]; simp)+

subsection \<open>Reachable states\<close>

lemma db_reachable_inv:
  assumes "db_reachable F x s" shows "db_locks s \<and> db_owned s \<and> db_readers s"
  using assms
proof (induction rule: db_reachable.induct)
  case start
  show ?case by (simp add: db_locks_init db_owned_init db_readers_init)
next
  case (run s s')
  then show ?case using db_locks_run [of s s'] db_owned_run [of s s'] db_readers_run [of s s'] by blast
next
  case (call s s')
  then show ?case using db_locks_call [of s F s'] db_owned_call [of s F s'] db_readers_call [of s F s'] by blast
qed

lemma db_reachable_instances: "db_reachable consistent x s \<Longrightarrow> db_instances s"
proof (induction rule: db_reachable.induct)
  case start
  show ?case by (rule db_instances_init)
next
  case (run s s')
  then show ?case using db_reachable_inv [OF run(1)] by (intro db_instances_run [of s s']) simp_all
next
  case (call s s')
  then show ?case by (intro db_instances_call [of s s'])
qed

text \<open>A schedule: which thread does its next step in which operation.\<close>

datatype 'a action =
    DoRead nat | DoQuit nat | DoModify "'a modifier" nat  \<comment> \<open>the calls\<close>
  | InAdd nat | InRemove nat | InRead bool nat | InModify nat

fun db_action :: "'a action \<Rightarrow> 'a db \<Rightarrow> 'a db option" where
  "db_action (DoRead t) s = Read_call t s"
| "db_action (DoQuit t) s = quit_call t s"
| "db_action (DoModify fn t) s = Modify_call fn t s"
| "db_action (InAdd t) s = AddWrapper_step t s"
| "db_action (InRemove t) s = RemoveWrapper_step t s"
| "db_action (InRead rc t) s = Read_step rc t s"
| "db_action (InModify t) s = Modify_step t s"

fun db_schedule :: "'a action list \<Rightarrow> 'a db \<Rightarrow> 'a db option" where
  "db_schedule [] s = Some s"
| "db_schedule (a # as) s = (case db_action a s of Some s' \<Rightarrow> db_schedule as s' | None \<Rightarrow> None)"

lemma db_action_reachable:
  assumes "db_reachable F x s" "db_action a s = Some s'" "\<And>fn t. a = DoModify fn t \<Longrightarrow> F fn"
  shows "db_reachable F x s'"
proof -
  have "db_run s s' \<or> db_call F s s'"
    using assms(2,3) by (cases a) (auto intro: db_run.intros db_call.intros)
  then show ?thesis using db_reachable.run [OF assms(1)] db_reachable.call [OF assms(1)] by blast
qed

lemma db_schedule_reachable:
  "db_reachable F x s \<Longrightarrow> db_schedule as s = Some s' \<Longrightarrow> \<forall>fn t. DoModify fn t \<in> set as \<longrightarrow> F fn \<Longrightarrow>
   db_reachable F x s'"
proof (induction as arbitrary: s)
  case (Cons a as)
  then obtain s1 where "db_action a s = Some s1" "db_schedule as s1 = Some s'" by (auto split: option.splits)
  moreover have "db_reachable F x s1" using Cons(2,4) calculation(1) by (intro db_action_reachable [of F x s a s1]) simp_all
  ultimately show ?case using Cons(4) by (intro Cons(1)) simp_all
qed simp

subsection \<open>Every operation returns\<close>

text \<open>The steps that a thread has still to do, if at most \<open>n\<close> wrappers can be in the list.\<close>

fun steps_left :: "nat \<Rightarrow> 'a pc \<Rightarrow> nat" where
  "steps_left n Idle = 0"
| "steps_left n AddLock = 6"
| "steps_left n AddHeld = 5"
| "steps_left n (SetSpecific w) = 4"
| "steps_left n (BeginRead w) = 3"
| "steps_left n (UnsafeRead w) = 2"
| "steps_left n (Reading w k) = 1"
| "steps_left n (RemoveLock w) = 2"
| "steps_left n (RemoveHeld w) = 1"
| "steps_left n (ModLock fn) = 2 * n + 7"
| "steps_left n (ModLoad fn) = 2 * n + 6"
| "steps_left n (ModFirst fn bg) = 2 * n + 5"
| "steps_left n (ModFlip fn bg ret) = 2 * n + 4"
| "steps_left n (ModWrappers fn bg ret) = 2 * n + 3"
| "steps_left n (ModWait fn bg ret i) = 2 * (n - i) + 2"
| "steps_left n (ModHeld fn bg ret i) = 2 * (n - i) + 1"
| "steps_left n (ModSecond fn bg ret) = 1"

definition db_adding :: "'a db \<Rightarrow> nat set" where
  "db_adding s = {t. db_pc s t = AddLock \<or> db_pc s t = AddHeld}"

definition db_active :: "'a db \<Rightarrow> nat set" where
  "db_active s = {t. db_pc s t \<noteq> Idle}"

definition db_wrappers_bound :: "'a db \<Rightarrow> nat" where
  "db_wrappers_bound s = length (db_wrappers s) + card (db_adding s)"

definition db_work :: "'a db \<Rightarrow> nat" where
  "db_work s = (\<Sum>t \<in> db_active s. steps_left (db_wrappers_bound s) (db_pc s t))"

lemma steps_left_mono: "m \<le> n \<Longrightarrow> steps_left m p \<le> steps_left n p"
  by (cases p) auto

lemma db_active_goto: "db_pc s1 = db_pc s \<Longrightarrow> db_active (db_goto t p s1) \<subseteq> insert t (db_active s)"
  by (auto simp: db_active_def)

lemma db_run_goto: "db_run s s' \<Longrightarrow> \<exists>t p s1. s' = db_goto t p s1 \<and> db_pc s1 = db_pc s"
proof -
  have goto: "s' = db_goto t p s1 \<Longrightarrow> db_pc s1 = db_pc s \<Longrightarrow> \<exists>t p s1. s' = db_goto t p s1 \<and> db_pc s1 = db_pc s"
    for t p s1 by blast
  show "db_run s s' \<Longrightarrow> ?thesis" by (erule db_run_elim) (erule goto, simp)+
qed

lemma db_call_goto: "db_call F s s' \<Longrightarrow> \<exists>t p s1. s' = db_goto t p s1 \<and> db_pc s1 = db_pc s"
proof -
  have goto: "s' = db_goto t p s1 \<Longrightarrow> db_pc s1 = db_pc s \<Longrightarrow> \<exists>t p s1. s' = db_goto t p s1 \<and> db_pc s1 = db_pc s"
    for t p s1 by blast
  show "db_call F s s' \<Longrightarrow> ?thesis" by (erule db_call_elim) (erule goto, simp)+
qed

lemma db_reachable_finite: "db_reachable F x s \<Longrightarrow> finite (db_active s)"
proof (induction rule: db_reachable.induct)
  case start
  then show ?case by (simp add: db_active_def db_init_def)
next
  case (run s s')
  then show ?case using db_active_goto db_run_goto [OF run(2)] by (metis finite_insert finite_subset)
next
  case (call s s')
  then show ?case using db_active_goto db_call_goto [OF call(2)] by (metis finite_insert finite_subset)
qed

lemma db_work_less:
  assumes "finite (db_active s)" "s' = db_goto t p s1" "db_pc s1 = db_pc s" "db_pc s t \<noteq> Idle"
    "db_wrappers_bound s' \<le> db_wrappers_bound s"
    "steps_left (db_wrappers_bound s) p < steps_left (db_wrappers_bound s) (db_pc s t)"
  shows "db_work s' < db_work s"
proof -
  let ?n = "db_wrappers_bound s" and ?n' = "db_wrappers_bound s'"
  have sub: "db_active s' \<subseteq> db_active s" using assms(2-4) by (auto simp: db_active_def)
  have "steps_left ?n' (db_pc s' u) \<le> steps_left ?n (db_pc s u)" for u
    using assms(2,3,6) steps_left_mono [OF assms(5)] by (auto intro: order_trans less_imp_le)
  moreover have "steps_left ?n' (db_pc s' t) < steps_left ?n (db_pc s t)"
    using assms(2,3,6) steps_left_mono [OF assms(5), of p] by simp
  moreover have "t \<in> db_active s" using assms(4) by (simp add: db_active_def)
  ultimately have "(\<Sum>u \<in> db_active s. steps_left ?n' (db_pc s' u)) < db_work s"
    unfolding db_work_def using assms(1) by (intro sum_strict_mono_ex1) auto
  moreover have "db_work s' \<le> (\<Sum>u \<in> db_active s. steps_left ?n' (db_pc s' u))"
    unfolding db_work_def using assms(1) sub by (intro sum_mono2) auto
  ultimately show ?thesis by simp
qed

lemma db_adding_goto:
  "db_pc s1 = db_pc s \<Longrightarrow> db_adding (db_goto t p s1) =
     (if p = AddLock \<or> p = AddHeld then insert t (db_adding s) else db_adding s - {t})"
  by (auto simp: db_adding_def)

lemma db_run_work:
  assumes "db_owned s" "finite (db_active s)" "db_run s s'"
  shows "db_work s' < db_work s"
proof -
  have fin: "finite (db_adding s)"
    by (rule finite_subset [OF _ assms(2)]) (auto simp: db_adding_def db_active_def)
  have bound: "db_wrappers_bound s' \<le> db_wrappers_bound s"
    if "s' = db_goto t p s1" "db_pc s1 = db_pc s" "length (db_wrappers s1) \<le> length (db_wrappers s)"
      "p \<noteq> AddLock" "p = AddHeld \<Longrightarrow> db_pc s t = AddLock" for t p s1
  proof -
    have "db_adding s' \<subseteq> db_adding s" using that by (auto simp: db_adding_def)
    then show ?thesis using that card_mono [OF fin] by (simp add: db_wrappers_bound_def add_mono)
  qed
  have less: "db_work s' < db_work s"
    if "s' = db_goto t p s1" "db_pc s1 = db_pc s" "length (db_wrappers s1) \<le> length (db_wrappers s)"
      "p \<noteq> AddLock" "p = AddHeld \<Longrightarrow> db_pc s t = AddLock" "db_pc s t \<noteq> Idle"
      "steps_left (db_wrappers_bound s) p < steps_left (db_wrappers_bound s) (db_pc s t)" for t p s1
    using db_work_less [OF assms(2) that(1,2,6) bound [OF that(1-5)] that(7)] .
  show ?thesis
    using assms(3)
  proof (cases rule: db_run_elim)
    case (AddHeld t)
    have "card (db_adding s) = Suc (card (db_adding s - {t}))"
      using fin AddHeld(1) by (intro card.remove) (simp_all add: db_adding_def)
    moreover have "db_adding s' = db_adding s - {t}" using AddHeld by (simp add: db_adding_goto)
    ultimately have "db_wrappers_bound s' = db_wrappers_bound s" using AddHeld by (simp add: db_wrappers_bound_def)
    then show ?thesis using AddHeld by (intro db_work_less [OF assms(2) AddHeld(2)]) simp_all
  next
    case (RemoveHeld t w)
    then have "has_wrapper s t w" by (simp add: has_wrapper_def)
    then have "length (remove_wrapper w (db_wrappers s)) < length (db_wrappers s)"
      using remove_wrapper_split db_ownedD(1,3) [OF assms(1)] by blast
    then show ?thesis
      using RemoveHeld by (intro less [OF RemoveHeld(2)]) simp_all
  next
    case (ModHeld t fn bg ret i)
    then have "i < db_wrappers_bound s" using db_ownedD(7) [OF assms(1) ModHeld(1)] by (simp add: db_wrappers_bound_def)
    then show ?thesis
      using ModHeld by (intro less [OF ModHeld(2)]) simp_all
  qed (erule less; simp)+
qed

text \<open>No state is stuck: a chain of waiting threads ends in one that can do a step.\<close>

lemma run_unless_waiting:
  assumes "db_pc s t \<noteq> Idle" "\<And>w. db_pc s t = BeginRead w \<Longrightarrow> db_wrapper_mutex s w = None"
    "db_pc s t = AddLock \<or> (\<exists>w. db_pc s t = RemoveLock w) \<or> (\<exists>fn bg ret. db_pc s t = ModWrappers fn bg ret) \<Longrightarrow>
      db_wrappers_mutex s = None"
    "\<And>fn. db_pc s t = ModLock fn \<Longrightarrow> db_modify_mutex s = None"
    "\<And>fn bg ret i. db_pc s t = ModWait fn bg ret i \<Longrightarrow> i < length (db_wrappers s) \<Longrightarrow>
      db_wrapper_mutex s (db_wrappers s ! i) = None"
  shows "\<exists>s'. db_run s s'"
proof -
  have "(\<exists>s'. AddWrapper_step t s = Some s') \<or> (\<exists>s'. RemoveWrapper_step t s = Some s') \<or>
      (\<exists>s'. Read_step True t s = Some s') \<or> (\<exists>s'. Modify_step t s = Some s')"
    using assms
    by (cases "db_pc s t")
      (simp_all add: AddWrapper_step_def RemoveWrapper_step_def Read_step_def Modify_step_def Let_def split_beta)
  then show ?thesis by (blast intro: db_run.intros)
qed

lemma wrapper_holder_runs:
  assumes "db_locks s" "db_wrapper_mutex s w = Some u" shows "\<exists>s'. db_run s s'"
  using assms db_locksD(3) [OF assms(1), of w u]
  by (intro run_unless_waiting [of s u]; cases "db_pc s u") auto

lemma wrappers_holder_runs:
  assumes "db_locks s" "db_wrappers_mutex s = Some u" shows "\<exists>s'. db_run s s'"
proof (cases "\<exists>w v. db_wrapper_mutex s w = Some v")
  case True
  then show ?thesis using wrapper_holder_runs [OF assms(1)] by blast
next
  case False
  then show ?thesis
    using assms db_locksD(2) [OF assms(1), of u]
    by (intro run_unless_waiting [of s u]; cases "db_pc s u") auto
qed

lemma modify_holder_runs:
  assumes "db_locks s" "db_modify_mutex s = Some u" shows "\<exists>s'. db_run s s'"
proof (cases "db_wrappers_mutex s = None \<and> (\<forall>w. db_wrapper_mutex s w = None)")
  case True
  then show ?thesis
    using assms db_locksD(1) [OF assms(1), of u]
    by (intro run_unless_waiting [of s u]; cases "db_pc s u") auto
next
  case False
  then show ?thesis using wrapper_holder_runs [OF assms(1)] wrappers_holder_runs [OF assms(1)] by auto
qed

lemma db_progress:
  assumes "db_locks s" "db_pc s t \<noteq> Idle" shows "\<exists>s'. db_run s s'"
proof (cases "db_modify_mutex s = None \<and> db_wrappers_mutex s = None \<and> (\<forall>w. db_wrapper_mutex s w = None)")
  case True
  then show ?thesis using assms(2) by (intro run_unless_waiting [of s t]) simp_all
next
  case False
  then show ?thesis
    using wrapper_holder_runs [OF assms(1)] wrappers_holder_runs [OF assms(1)] modify_holder_runs [OF assms(1)] by auto
qed

lemma db_run_bounded:
  "db_reachable F x s \<Longrightarrow> (db_run ^^ k) s s' \<Longrightarrow> db_reachable F x s' \<and> db_work s' + k \<le> db_work s"
proof (induction k arbitrary: s')
  case (Suc k)
  then obtain s1 where s1: "(db_run ^^ k) s s1" "db_run s1 s'" by auto
  with Suc have r: "db_reachable F x s1" "db_work s1 + k \<le> db_work s" by blast+
  then have "db_work s' < db_work s1"
    using db_reachable_inv [OF r(1)] db_reachable_finite [OF r(1)] s1(2) by (intro db_run_work) simp_all
  then show ?case using r s1(2) db_reachable.run by fastforce
qed simp

subsection \<open>Properties\<close>

text \<open>The instance that \<^verbatim>\<open>fn\<close> is working on.\<close>

fun in_fn :: "'a pc \<Rightarrow> bool option" where
  "in_fn (ModFirst fn bg) = Some bg"
| "in_fn (ModSecond fn bg ret) = Some bg"
| "in_fn _ = None"

lemma in_fn_modifying: "in_fn p = Some bg \<Longrightarrow> modifying p \<and> background p = Some bg \<and> \<not> waits_for ws p w"
  by (cases p) auto

lemma in_fn_alone:
  assumes "db_reachable F x s" "in_fn (db_pc s m) = Some bg" "in_fn (db_pc s m') \<noteq> None"
  shows "m' = m"
  using assms one_modifier db_reachable_inv in_fn_modifying by (metis option.exhaust)

lemma in_fn_not_read:
  assumes "db_reachable F x s" "in_fn (db_pc s m) = Some bg" "db_pc s t = Reading w k"
  shows "k \<noteq> bg"
proof -
  have inv: "db_locks s" "db_readers s" using db_reachable_inv [OF assms(1)] by simp_all
  have "modifying (db_pc s m)" "bg = (\<not> db_index s)"
    using in_fn_modifying [OF assms(2)] inv(2) unfolding db_readers_def by blast+
  moreover have "k = db_index s \<or> (\<exists>m'. waits_for (db_wrappers s) (db_pc s m') w)"
    using inv(2) assms(3) unfolding db_readers_def by blast
  ultimately show ?thesis
    using one_modifier [OF inv(1)] waits_for_modifying in_fn_modifying [OF assms(2)] by metis
qed

text \<open>The value that a reader who comes now is given.\<close>

definition db_abs :: "'a db \<Rightarrow> 'a" where
  "db_abs s = db_data s (db_index s)"

text \<open>A schedule for the witnesses: thread 0 reads while thread 1 begins to increment the value.\<close>

definition increment :: "nat modifier" where
  "increment = Modify_fn (\<lambda>n. (n + 1, 1))"

definition demo_schedule :: "nat action list" where
  "demo_schedule =
     [DoRead 0, InAdd 0, InAdd 0, InRead True 0, InRead True 0, InRead True 0,
      DoModify increment 1, InModify 1, InModify 1]"

lemmas db_eval = db_init_def db_goto_def Read_call_def Modify_call_def AddWrapper_step_def Read_step_def
  Modify_step_def increment_def Modify_fn_def demo_schedule_def

lemma consistent_increment: "consistent increment"
  by (simp add: increment_def consistent_Modify_fn)

lemma demo_reachable:
  assumes "db_schedule (demo_schedule @ replicate n (InModify 1)) (db_init 0) = Some s"
  shows "db_reachable consistent 0 s"
  using assms consistent_increment
  by (intro db_schedule_reachable [OF db_reachable.start assms]) (auto simp: demo_schedule_def)

lemma demo_run:
  "\<exists>s. db_schedule demo_schedule (db_init 0) = Some s \<and> db_pc s 0 = Reading 0 False \<and>
     db_pc s 1 = ModFirst increment True"
  "\<exists>s s'. db_schedule (demo_schedule @ [InModify 1]) (db_init 0) = Some s \<and> db_pc s 0 = Reading 0 False \<and>
     Modify_step 1 s = Some s' \<and> db_pc s' 0 = Reading 0 False \<and> db_abs s' = 1 \<and> db_data s' False = 0"
  by (simp_all add: db_eval db_abs_def)

text \<open>
  (C2) No reader sees an instance that is being modified: in every interleaving of calls of
  \<^verbatim>\<open>Read\<close>, \<^verbatim>\<open>Modify\<close> and thread exits, while \<^verbatim>\<open>fn\<close> works on an instance, every \<^verbatim>\<open>ScopedPtr\<close>
  points to the other one, and \<^verbatim>\<open>fn\<close> is running in no other thread.
\<close>

theorem db_exclusive:
  assumes "db_reachable F x s" "in_fn (db_pc s m) = Some bg"
  shows "(\<forall>t w k. db_pc s t = Reading w k \<longrightarrow> k \<noteq> bg) \<and> (\<forall>m'. in_fn (db_pc s m') \<noteq> None \<longrightarrow> m' = m)"
  using in_fn_not_read [OF assms] in_fn_alone [OF assms] by blast

theorem db_exclusive_witness:
  "\<exists>s. db_reachable consistent (0 :: nat) s \<and> in_fn (db_pc s 1) = Some True \<and> db_pc s 0 = Reading 0 False \<and>
     (\<forall>t w k. db_pc s t = Reading w k \<longrightarrow> k \<noteq> True)"
proof -
  obtain s where s: "db_schedule demo_schedule (db_init 0) = Some s" "db_pc s 0 = Reading 0 False"
      "db_pc s 1 = ModFirst increment True"
    using demo_run(1) by blast
  then have r: "db_reachable consistent 0 s" using demo_reachable [of 0 s] by simp
  have "in_fn (db_pc s 1) = Some True" using s(3) by simp
  then show ?thesis using db_exclusive [OF r] r s(2) by blast
qed

text \<open>
  (C7) The pair of instances implements one value that changes atomically.  If the functions are
  consistent, every step either leaves the value or is the store to \<^verbatim>\<open>_index\<close>, which replaces it
  by the result of the function; a reader is given the current value and its instance does not
  change as long as it is held; and the \<^verbatim>\<open>FLARE_CHECK_EQ\<close> of \<^verbatim>\<open>Modify\<close> never fails.
\<close>

theorem db_refines_register:
  assumes "db_reachable consistent x s" "db_run s s'"
  shows "(db_abs s' = db_abs s \<or>
      (\<exists>t fn bg ret. db_pc s t = ModFlip fn bg ret \<and> db_abs s' = fst (fn (db_abs s) (db_abs s)))) \<and>
    (\<forall>t w k. db_pc s' t = Reading w k \<longrightarrow>
      (if db_pc s t = Reading w k then db_data s' k = db_data s k else db_data s' k = db_abs s)) \<and>
    \<not> db_check_failed s'"
proof -
  have inv: "db_locks s" "db_readers s" using db_reachable_inv [OF assms(1)] by simp_all
  have inst: "db_instances s" "db_instances s'"
    using db_reachable_instances [OF db_reachable.run [OF assms]] db_reachable_instances [OF assms(1)] by simp_all
  have bg: "bg = (\<not> db_index s)" if "background (db_pc s t) = Some bg" for t bg
    using inv(2) that unfolding db_readers_def by blast
  have fg: "k \<noteq> bg" if "in_fn (db_pc s m) = Some bg" "db_pc s t = Reading w k" for m bg t w k
    by (rule in_fn_not_read [OF assms(1) that])
  have ahd: "ahead (db_data s) (db_pc s t)" for t using inst(1) unfolding db_instances_def by blast
  have "\<not> db_check_failed s'" using inst(2) unfolding db_instances_def by blast
  moreover have "?thesis" if "\<not> db_check_failed s'"
    using assms(2)
  proof (cases rule: db_run_elim)
    case (ModFlip t fn bg ret)
    have "fn (db_data s (\<not> bg)) (db_data s (\<not> bg)) = (db_data s bg, ret)" using ahd [of t] ModFlip(1) by simp
    moreover have "db_index s = (\<not> bg)" using bg [of t bg] ModFlip(1) by simp
    ultimately show ?thesis using ModFlip that by (auto simp: db_abs_def intro!: exI [of _ t])
  next
    case (ModNone t fn bg x)
    then show ?thesis using bg [of t] fg [of t] that by (auto simp: db_abs_def)
  next
    case (ModFirst t fn bg x ret)
    then show ?thesis using bg [of t] fg [of t] that by (auto simp: db_abs_def)
  next
    case (ModSecond t fn bg ret x ret2)
    then show ?thesis using bg [of t] fg [of t] that by (auto simp: db_abs_def)
  qed (use that in \<open>auto simp: db_abs_def\<close>)
  ultimately show ?thesis by blast
qed

theorem db_refines_register_witness:
  "\<exists>s s'. db_reachable consistent (0 :: nat) s \<and> db_run s s' \<and> db_pc s' 0 = Reading 0 False \<and>
     db_data s' False = db_data s False \<and> db_abs s' = 1 \<and> \<not> db_check_failed s'"
proof -
  obtain s s' where s: "db_schedule (demo_schedule @ [InModify 1]) (db_init 0) = Some s" "db_pc s 0 = Reading 0 False"
      "Modify_step 1 s = Some s'" "db_pc s' 0 = Reading 0 False" "db_abs s' = 1"
    using demo_run(2) by blast
  have "db_reachable consistent 0 s" using demo_reachable [of 1 s] s(1) by simp
  moreover have "db_run s s'" using s(3) by (rule db_run.modify)
  moreover note db_refines_register [OF calculation, THEN conjunct2]
  ultimately show ?thesis using s(2,4,5) by (intro exI [of _ s] exI [of _ s']) simp
qed





end
