(* ===== verification/Work_Stealing.thy ===== *)
theory Work_Stealing
  imports Prelude "HOL-Library.Multiset"
begin

text \<open>
  \<^verbatim>\<open>WorkStealingQueue\<close> (src/flare/fiber/internal/work_stealing_queue.h): a deque in an array.  Its
  owner pushes and pops at the bottom, any number of other threads steal at the top.  A state
  holds the shared variables and the place that the owner and each thief have reached; a step is
  one access to a shared variable by one thread, so that the accesses interleave in any order
  (sequential consistency, which the fences of the code establish between the store to
  \<^verbatim>\<open>_bottom\<close> in \<^verbatim>\<open>pop\<close> and the loads of \<^verbatim>\<open>steal\<close>).  The counters are natural numbers: they grow by
  at most one with each \<^verbatim>\<open>push\<close> and do not reach the width of a \<^verbatim>\<open>size_t\<close>.  A step is labelled with
  what it means for the deque; the main result is that these labels are those of a sequential
  deque.
\<close>

subsection \<open>Model: the queue\<close>

datatype 'a owner =
    Resting
  | PushTop 'a nat  \<comment> \<open>\<^verbatim>\<open>push\<close> has loaded \<^verbatim>\<open>_bottom\<close>\<close>
  | PushWrite 'a nat
  | PushPublish 'a nat
  | PopCheck nat  \<comment> \<open>\<^verbatim>\<open>pop\<close> has loaded \<^verbatim>\<open>_bottom\<close>\<close>
  | PopStore nat
  | PopLoad nat  \<comment> \<open>it has stored the new \<^verbatim>\<open>_bottom\<close>\<close>
  | PopUndo nat
  | PopRead nat nat
  | PopCas nat nat 'a  \<comment> \<open>it competes for the last element\<close>
  | PopReset nat "'a option"

datatype 'a thief =
    Away
  | StealBottom nat  \<comment> \<open>\<^verbatim>\<open>steal\<close> has loaded \<^verbatim>\<open>_top\<close>\<close>
  | StealLoop nat
  | StealRead nat
  | StealCas nat 'a

record 'a wsq =
  wq_bottom :: nat
  wq_capacity :: nat
  wq_buffer :: "nat \<Rightarrow> 'a"
  wq_top :: nat
  wq_owner :: "'a owner"
  wq_thief :: "nat \<Rightarrow> 'a thief"

text \<open>
  The constructor, and \<^verbatim>\<open>init\<close> with its return code; \<open>allocated\<close> says whether \<^verbatim>\<open>new(std::nothrow)\<close>
  succeeds, and \<open>junk\<close> is the contents of the new array.
\<close>

definition WorkStealingQueue :: "(nat \<Rightarrow> 'a) \<Rightarrow> 'a wsq" where
  "WorkStealingQueue junk =
     \<lparr>wq_bottom = 1, wq_capacity = 0, wq_buffer = junk, wq_top = 1, wq_owner = Resting, wq_thief = (\<lambda>_. Away)\<rparr>"

definition wsq_init :: "bool \<Rightarrow> nat \<Rightarrow> 'a wsq \<Rightarrow> int \<times> 'a wsq" where
  "wsq_init allocated capacity s =
     (if wq_capacity s \<noteq> 0 then (-1, s)
      else if capacity = 0 then (-1, s)
      else if capacity AND (capacity - 1) \<noteq> 0 then (-1, s)
      else if \<not> allocated then (-1, s)
      else (0, s\<lparr>wq_capacity := capacity\<rparr>))"

definition volatile_size :: "'a wsq \<Rightarrow> nat" where
  "volatile_size s = (if wq_bottom s \<le> wq_top s then 0 else wq_bottom s - wq_top s)"

text \<open>The slot of a position.\<close>

definition slot :: "'a wsq \<Rightarrow> nat \<Rightarrow> nat" where
  "slot s p = p AND (wq_capacity s - 1)"

datatype 'a label =
    Silent
  | Pushed 'a | PushFull
  | Popped 'a | PopEmpty
  | Stolen 'a | StealEmpty

definition push_call :: "'a \<Rightarrow> 'a wsq \<Rightarrow> 'a wsq option" where
  "push_call x s = (if wq_owner s = Resting then Some (s\<lparr>wq_owner := PushTop x (wq_bottom s)\<rparr>) else None)"

fun push_at :: "'a owner \<Rightarrow> 'a wsq \<Rightarrow> ('a label \<times> 'a wsq) option" where
  "push_at (PushTop x b) s =
     (let t = wq_top s in
      if b \<ge> t + wq_capacity s then Some (PushFull, s\<lparr>wq_owner := Resting\<rparr>)
      else Some (Silent, s\<lparr>wq_owner := PushWrite x b\<rparr>))"
| "push_at (PushWrite x b) s =
     Some (Silent, s\<lparr>wq_buffer := (wq_buffer s)(slot s b := x), wq_owner := PushPublish x b\<rparr>)"
| "push_at (PushPublish x b) s = Some (Pushed x, s\<lparr>wq_bottom := b + 1, wq_owner := Resting\<rparr>)"
| "push_at _ s = None"

definition pop_call :: "'a wsq \<Rightarrow> 'a wsq option" where
  "pop_call s = (if wq_owner s = Resting then Some (s\<lparr>wq_owner := PopCheck (wq_bottom s)\<rparr>) else None)"

fun pop_at :: "'a owner \<Rightarrow> 'a wsq \<Rightarrow> ('a label \<times> 'a wsq) option" where
  "pop_at (PopCheck b) s =
     (let t = wq_top s in
      if t \<ge> b then Some (PopEmpty, s\<lparr>wq_owner := Resting\<rparr>)
      else Some (Silent, s\<lparr>wq_owner := PopStore b\<rparr>))"
| "pop_at (PopStore b) s = Some (Silent, s\<lparr>wq_bottom := b - 1, wq_owner := PopLoad b\<rparr>)"
| "pop_at (PopLoad b) s =
     (let t = wq_top s in
      if t > b - 1 then Some (Silent, s\<lparr>wq_owner := PopUndo b\<rparr>)
      else Some (Silent, s\<lparr>wq_owner := PopRead b t\<rparr>))"
| "pop_at (PopUndo b) s = Some (PopEmpty, s\<lparr>wq_bottom := b, wq_owner := Resting\<rparr>)"
| "pop_at (PopRead b t) s =
     (let val = wq_buffer s (slot s (b - 1)) in
      if t \<noteq> b - 1 then Some (Popped val, s\<lparr>wq_owner := Resting\<rparr>)
      else Some (Silent, s\<lparr>wq_owner := PopCas b t val\<rparr>))"
| "pop_at (PopCas b t val) s =
     (if wq_top s = t then Some (Popped val, s\<lparr>wq_top := t + 1, wq_owner := PopReset b (Some val)\<rparr>)
      else Some (PopEmpty, s\<lparr>wq_owner := PopReset b None\<rparr>))"
| "pop_at (PopReset b popped) s = Some (Silent, s\<lparr>wq_bottom := b, wq_owner := Resting\<rparr>)"
| "pop_at _ s = None"

definition steal_call :: "nat \<Rightarrow> 'a wsq \<Rightarrow> 'a wsq option" where
  "steal_call i s =
     (if wq_thief s i = Away then Some (s\<lparr>wq_thief := (wq_thief s)(i := StealBottom (wq_top s))\<rparr>) else None)"

fun steal_at :: "nat \<Rightarrow> 'a thief \<Rightarrow> 'a wsq \<Rightarrow> ('a label \<times> 'a wsq) option" where
  "steal_at i (StealBottom t) s =
     (let b = wq_bottom s in
      if t \<ge> b then Some (StealEmpty, s\<lparr>wq_thief := (wq_thief s)(i := Away)\<rparr>)
      else Some (Silent, s\<lparr>wq_thief := (wq_thief s)(i := StealLoop t)\<rparr>))"
| "steal_at i (StealLoop t) s =
     (let b = wq_bottom s in
      if t \<ge> b then Some (StealEmpty, s\<lparr>wq_thief := (wq_thief s)(i := Away)\<rparr>)
      else Some (Silent, s\<lparr>wq_thief := (wq_thief s)(i := StealRead t)\<rparr>))"
| "steal_at i (StealRead t) s =
     Some (Silent, s\<lparr>wq_thief := (wq_thief s)(i := StealCas t (wq_buffer s (slot s t)))\<rparr>)"
| "steal_at i (StealCas t val) s =
     (if wq_top s = t then Some (Stolen val, s\<lparr>wq_top := t + 1, wq_thief := (wq_thief s)(i := Away)\<rparr>)
      else Some (Silent, s\<lparr>wq_thief := (wq_thief s)(i := StealLoop (wq_top s))\<rparr>))"
| "steal_at i Away s = None"

text \<open>
  The actions of a schedule: a thread calls an operation, or the owner or a thief takes the next
  step of the operation that it has called.  A schedule runs if every action of it is possible,
  and gives the labels of its steps.
\<close>

datatype 'a act = CallPush 'a | CallPop | CallSteal nat | Owner | Thief nat

fun wsq_act :: "'a act \<Rightarrow> 'a wsq \<Rightarrow> ('a label \<times> 'a wsq) option" where
  "wsq_act (CallPush x) s = map_option (Pair Silent) (push_call x s)"
| "wsq_act CallPop s = map_option (Pair Silent) (pop_call s)"
| "wsq_act (CallSteal i) s = map_option (Pair Silent) (steal_call i s)"
| "wsq_act Owner s = (case push_at (wq_owner s) s of Some r \<Rightarrow> Some r | None \<Rightarrow> pop_at (wq_owner s) s)"
| "wsq_act (Thief i) s = steal_at i (wq_thief s i) s"

primrec wsq_exec :: "'a act list \<Rightarrow> 'a wsq \<Rightarrow> ('a label list \<times> 'a wsq) option" where
  "wsq_exec [] s = Some ([], s)"
| "wsq_exec (a # as) s =
     (case wsq_act a s of None \<Rightarrow> None
      | Some (l, s1) \<Rightarrow> map_option (\<lambda>(ls, s2). (l # ls, s2)) (wsq_exec as s1))"

subsection \<open>Abstraction and invariant\<close>

text \<open>\<^verbatim>\<open>pop\<close> takes its element only when it returns it: until then it is at the bottom.\<close>

fun popping :: "'a owner \<Rightarrow> nat option" where
  "popping (PopLoad b) = Some b"
| "popping (PopUndo b) = Some b"
| "popping (PopRead b t) = Some b"
| "popping (PopCas b t val) = Some b"
| "popping (PopReset b popped) = Some b"
| "popping _ = None"

definition wq_end :: "'a wsq \<Rightarrow> nat" where
  "wq_end s = (case popping (wq_owner s) of Some b \<Rightarrow> b | None \<Rightarrow> wq_bottom s)"

definition wq_items :: "'a wsq \<Rightarrow> 'a list" where
  "wq_items s = map (\<lambda>p. wq_buffer s (slot s p)) [wq_top s..<wq_end s]"

fun owner_inv :: "'a wsq \<Rightarrow> 'a owner \<Rightarrow> bool" where
  "owner_inv s Resting \<longleftrightarrow> wq_top s \<le> wq_bottom s"
| "owner_inv s (PushTop x b) \<longleftrightarrow> b = wq_bottom s \<and> wq_top s \<le> b"
| "owner_inv s (PushWrite x b) \<longleftrightarrow> b = wq_bottom s \<and> wq_top s \<le> b \<and> b < wq_top s + wq_capacity s"
| "owner_inv s (PushPublish x b) \<longleftrightarrow> b = wq_bottom s \<and> wq_top s \<le> b \<and> b < wq_top s + wq_capacity s \<and>
     wq_buffer s (slot s b) = x"
| "owner_inv s (PopCheck b) \<longleftrightarrow> b = wq_bottom s \<and> wq_top s \<le> b"
| "owner_inv s (PopStore b) \<longleftrightarrow> b = wq_bottom s \<and> wq_top s \<le> b \<and> 0 < b"
| "owner_inv s (PopLoad b) \<longleftrightarrow> Suc (wq_bottom s) = b \<and> wq_top s \<le> b"
| "owner_inv s (PopUndo b) \<longleftrightarrow> Suc (wq_bottom s) = b \<and> wq_top s = b"
| "owner_inv s (PopRead b t) \<longleftrightarrow> Suc (wq_bottom s) = b \<and> t \<le> wq_top s \<and> t < b \<and>
     (if Suc t = b then wq_top s \<le> b else wq_top s < b)"
| "owner_inv s (PopCas b t val) \<longleftrightarrow> Suc (wq_bottom s) = b \<and> Suc t = b \<and> t \<le> wq_top s \<and> wq_top s \<le> b \<and>
     val = wq_buffer s (slot s t)"
| "owner_inv s (PopReset b popped) \<longleftrightarrow> Suc (wq_bottom s) = b \<and> wq_top s = b"

text \<open>The owner and the thieves compete for the last element.\<close>

fun contested :: "'a owner \<Rightarrow> nat \<Rightarrow> bool" where
  "contested (PopLoad b) t \<longleftrightarrow> Suc t = b"
| "contested (PopRead b t') t \<longleftrightarrow> Suc t = b \<and> t' = t"
| "contested (PopCas b t' val) t \<longleftrightarrow> Suc t = b"
| "contested _ t \<longleftrightarrow> False"

fun thief_inv :: "'a wsq \<Rightarrow> 'a thief \<Rightarrow> bool" where
  "thief_inv s Away \<longleftrightarrow> True"
| "thief_inv s (StealBottom t) \<longleftrightarrow> t \<le> wq_top s"
| "thief_inv s (StealLoop t) \<longleftrightarrow> t \<le> wq_top s"
| "thief_inv s (StealRead t) \<longleftrightarrow> t \<le> wq_top s \<and> (t = wq_top s \<longrightarrow> t < wq_bottom s \<or> contested (wq_owner s) t)"
| "thief_inv s (StealCas t val) \<longleftrightarrow> t \<le> wq_top s \<and> (t = wq_top s \<longrightarrow>
     (t < wq_bottom s \<or> contested (wq_owner s) t) \<and> val = wq_buffer s (slot s t))"

definition wsq_inv :: "'a wsq \<Rightarrow> bool" where
  "wsq_inv s \<longleftrightarrow> (\<exists>k. wq_capacity s = 2 ^ k) \<and> wq_end s \<le> wq_top s + wq_capacity s \<and>
     owner_inv s (wq_owner s) \<and> (\<forall>i. thief_inv s (wq_thief s i))"

lemma slot_mod: "wq_capacity s = 2 ^ k \<Longrightarrow> slot s p = p mod 2 ^ k"
  by (metis slot_def mask_eq_exp_minus_1 take_bit_eq_mask take_bit_eq_mod)

lemma slot_neq:
  assumes "wq_capacity s = 2 ^ k" "p < q" "q < p + wq_capacity s" shows "slot s q \<noteq> slot s p"
proof
  assume "slot s q = slot s p"
  then have "2 ^ k dvd q - p"
    using assms(1,2) by (simp add: slot_mod mod_eq_dvd_iff_nat)
  then show False using assms by (auto dest: dvd_imp_le)
qed

lemma slot_same: "wq_capacity s' = wq_capacity s \<Longrightarrow> slot s' = slot s"
  by (simp add: slot_def fun_eq_iff)

lemma slot_update [simp]:
  "slot (s\<lparr>wq_bottom := b\<rparr>) = slot s" "slot (s\<lparr>wq_top := t\<rparr>) = slot s"
  "slot (s\<lparr>wq_buffer := f\<rparr>) = slot s" "slot (s\<lparr>wq_owner := p\<rparr>) = slot s" "slot (s\<lparr>wq_thief := g\<rparr>) = slot s"
  by (rule slot_same; simp)+

lemma wq_end_update [simp]:
  "wq_end (s\<lparr>wq_top := t\<rparr>) = wq_end s" "wq_end (s\<lparr>wq_thief := g\<rparr>) = wq_end s"
  by (simp_all add: wq_end_def split: option.split)

text \<open>What a label says about the contents of a deque of the given capacity.\<close>

fun deque_step :: "nat \<Rightarrow> 'a list \<Rightarrow> 'a label \<Rightarrow> 'a list \<Rightarrow> bool" where
  "deque_step cap xs Silent ys \<longleftrightarrow> ys = xs"
| "deque_step cap xs (Pushed x) ys \<longleftrightarrow> ys = xs @ [x] \<and> length ys \<le> cap"
| "deque_step cap xs PushFull ys \<longleftrightarrow> ys = xs \<and> length xs = cap"
| "deque_step cap xs (Popped x) ys \<longleftrightarrow> xs = ys @ [x]"
| "deque_step cap xs PopEmpty ys \<longleftrightarrow> ys = xs \<and> xs = []"
| "deque_step cap xs (Stolen x) ys \<longleftrightarrow> xs = x # ys"
| "deque_step cap xs StealEmpty ys \<longleftrightarrow> ys = xs \<and> length xs \<le> 1"

definition wsq_good :: "'a wsq \<Rightarrow> 'a label \<Rightarrow> 'a wsq \<Rightarrow> bool" where
  "wsq_good s l s' \<longleftrightarrow> wsq_inv s' \<and> wq_capacity s' = wq_capacity s \<and>
     deque_step (wq_capacity s) (wq_items s) l (wq_items s')"

lemma thieves_keep:
  assumes "\<forall>i. thief_inv s (wq_thief s i)" "wq_thief s' = wq_thief s" "wq_top s' = wq_top s"
    "wq_top s < wq_bottom s \<or> contested (wq_owner s) (wq_top s) \<Longrightarrow>
       wq_top s < wq_bottom s' \<or> contested (wq_owner s') (wq_top s)"
    "wq_top s < wq_bottom s \<or> contested (wq_owner s) (wq_top s) \<Longrightarrow>
       wq_buffer s' (slot s' (wq_top s)) = wq_buffer s (slot s (wq_top s))"
  shows "\<forall>i. thief_inv s' (wq_thief s' i)"
proof
  fix i
  have "thief_inv s (wq_thief s i)" using assms(1) by blast
  then show "thief_inv s' (wq_thief s' i)"
    using assms(2-) by (cases "wq_thief s i") auto
qed

text \<open>After a successful compare-and-exchange all other thieves hold an old top.\<close>

lemma thieves_old:
  assumes "\<forall>i. thief_inv s (wq_thief s i)" "wq_top s' = Suc (wq_top s)" "wq_thief s' j = wq_thief s j"
  shows "thief_inv s' (wq_thief s' j)"
proof -
  have "thief_inv s (wq_thief s j)" using assms(1) by blast
  then show ?thesis using assms(2,3) by (cases "wq_thief s j") auto
qed

lemma wsq_invD:
  assumes "wsq_inv s"
  obtains k where "wq_capacity s = 2 ^ k" "wq_end s \<le> wq_top s + wq_capacity s" "owner_inv s (wq_owner s)"
    "\<forall>i. thief_inv s (wq_thief s i)"
  using assms unfolding wsq_inv_def by blast

lemma push_good:
  assumes "wsq_inv s" "push_at (wq_owner s) s = Some (l, s')" shows "wsq_good s l s'"
proof -
  obtain k where inv: "wq_capacity s = 2 ^ k" "wq_end s \<le> wq_top s + wq_capacity s" "owner_inv s (wq_owner s)"
      "\<forall>i. thief_inv s (wq_thief s i)" by (rule wsq_invD [OF assms(1)])
  show ?thesis
  proof (cases "wq_owner s")
    case (PushTop x b)
    have "\<forall>i. thief_inv s' (wq_thief s' i)"
      using PushTop assms(2) by (intro thieves_keep [OF inv(4)]) (auto simp: Let_def split: if_splits)
    then show ?thesis
      using PushTop assms(2) inv
      by (auto simp: wsq_good_def wsq_inv_def wq_items_def wq_end_def split: if_splits)
  next
    case (PushWrite x b)
    have ne: "slot s p \<noteq> slot s (wq_bottom s)" if "wq_top s \<le> p" "p < wq_bottom s" for p
      using slot_neq [OF inv(1) that(2)] that inv(3) PushWrite by (simp add: eq_commute)
    have "\<forall>i. thief_inv s' (wq_thief s' i)"
      using PushWrite assms(2) inv(3) ne [of "wq_top s"] by (intro thieves_keep [OF inv(4)]) auto
    moreover have "wq_items s' = wq_items s"
      using PushWrite assms(2) inv(3) by (auto simp: wq_items_def wq_end_def ne)
    ultimately show ?thesis
      using PushWrite assms(2) inv by (auto simp: wsq_good_def wsq_inv_def wq_end_def)
  next
    case (PushPublish x b)
    have "\<forall>i. thief_inv s' (wq_thief s' i)"
      using PushPublish assms(2) inv(3) by (intro thieves_keep [OF inv(4)]) auto
    moreover have "wq_items s' = wq_items s @ [x]"
      using PushPublish assms(2) inv(3) by (auto simp: wq_items_def wq_end_def)
    moreover have "length (wq_items s') = wq_end s' - wq_top s'" by (simp add: wq_items_def)
    ultimately show ?thesis
      using PushPublish assms(2) inv by (auto simp: wsq_good_def wsq_inv_def wq_end_def)
  qed (use assms(2) in auto)
qed

lemma pop_good:
  assumes "wsq_inv s" "pop_at (wq_owner s) s = Some (l, s')" shows "wsq_good s l s'"
proof -
  obtain k where inv: "wq_capacity s = 2 ^ k" "wq_end s \<le> wq_top s + wq_capacity s" "owner_inv s (wq_owner s)"
      "\<forall>i. thief_inv s (wq_thief s i)" by (rule wsq_invD [OF assms(1)])
  note defs = wsq_good_def wsq_inv_def wq_items_def wq_end_def
  show ?thesis
  proof (cases "wq_owner s")
    case (PopCheck b)
    have "\<forall>i. thief_inv s' (wq_thief s' i)"
      using PopCheck assms(2) by (intro thieves_keep [OF inv(4)]) (auto simp: Let_def split: if_splits)
    then show ?thesis using PopCheck assms(2) inv by (auto simp: defs Let_def split: if_splits)
  next
    case (PopStore b)
    have "\<forall>i. thief_inv s' (wq_thief s' i)"
      using PopStore assms(2) inv(3) by (intro thieves_keep [OF inv(4)]) auto
    then show ?thesis using PopStore assms(2) inv by (auto simp: defs)
  next
    case (PopLoad b)
    have "\<forall>i. thief_inv s' (wq_thief s' i)"
      using PopLoad assms(2) inv(3) by (intro thieves_keep [OF inv(4)]) (auto simp: Let_def split: if_splits)
    then show ?thesis using PopLoad assms(2) inv by (auto simp: defs Let_def split: if_splits)
  next
    case (PopUndo b)
    have "\<forall>i. thief_inv s' (wq_thief s' i)"
      using PopUndo assms(2) inv(3) by (intro thieves_keep [OF inv(4)]) auto
    then show ?thesis using PopUndo assms(2) inv by (auto simp: defs)
  next
    case (PopRead b t)
    have "\<forall>i. thief_inv s' (wq_thief s' i)"
      using PopRead assms(2) inv(3) by (intro thieves_keep [OF inv(4)]) (auto simp: Let_def split: if_splits)
    then show ?thesis using PopRead assms(2) inv by (auto simp: defs Let_def split: if_splits)
  next
    case (PopCas b t val)
    have "\<forall>i. thief_inv s' (wq_thief s' i)"
    proof (cases "wq_top s = t")
      case True
      then show ?thesis using PopCas assms(2) by (intro allI thieves_old [OF inv(4)]) auto
    next
      case False
      then show ?thesis using PopCas assms(2) inv(3) by (intro thieves_keep [OF inv(4)]) auto
    qed
    then show ?thesis using PopCas assms(2) inv by (auto simp: defs Let_def split: if_splits)
  next
    case (PopReset b popped)
    have "\<forall>i. thief_inv s' (wq_thief s' i)"
      using PopReset assms(2) inv(3) by (intro thieves_keep [OF inv(4)]) auto
    then show ?thesis using PopReset assms(2) inv by (auto simp: defs)
  qed (use assms(2) in auto)
qed

lemma items_Cons: "wq_top s < wq_end s \<Longrightarrow>
  wq_items s = wq_buffer s (slot s (wq_top s)) # map (\<lambda>p. wq_buffer s (slot s p)) [Suc (wq_top s)..<wq_end s]"
  by (simp add: wq_items_def upt_conv_Cons)

lemma popping_bottom: "owner_inv s p \<Longrightarrow> popping p = None \<or> popping p = Some (Suc (wq_bottom s))"
  by (cases p) simp_all

lemma wq_end_bottom:
  assumes "owner_inv s (wq_owner s)"
  shows "wq_end s = wq_bottom s \<or> wq_end s = Suc (wq_bottom s)"
  using popping_bottom [OF assms] by (auto simp: wq_end_def)

text \<open>A thief that has seen an element at the top can still take it: the owner has not claimed it.\<close>

lemma owner_inv_stolen:
  assumes "owner_inv s p" "wq_top s < wq_bottom s \<or> contested p (wq_top s)"
  shows "owner_inv (s\<lparr>wq_top := Suc (wq_top s), wq_thief := g\<rparr>) p \<and>
    wq_top s < (case popping p of Some b \<Rightarrow> b | None \<Rightarrow> wq_bottom s)"
proof (cases p)
  case (PopRead b t)
  have "wq_top s < wq_bottom s \<or> Suc (wq_top s) = b \<and> t = wq_top s" "t \<le> wq_top s" "Suc (wq_bottom s) = b"
    using assms by (simp_all add: PopRead)
  then have "Suc (wq_top s) \<le> b" "Suc t \<noteq> b \<Longrightarrow> Suc (wq_top s) < b" by arith+
  then show ?thesis using assms(1) by (simp add: PopRead)
next
  case (PopLoad b)
  then show ?thesis using assms by auto
next
  case (PopCas b t val)
  then show ?thesis using assms by auto
qed (use assms in simp_all)

lemma owner_inv_thief [simp]: "owner_inv (s\<lparr>wq_thief := g\<rparr>) p = owner_inv s p"
  by (cases p) simp_all

text \<open>A step of a thief that only moves it.\<close>

lemma thief_moves:
  assumes inv: "wsq_inv s" and s': "s' = s\<lparr>wq_thief := (wq_thief s)(i := p)\<rparr>" and p: "thief_inv s p"
  shows "wsq_inv s' \<and> wq_items s' = wq_items s"
proof -
  obtain k where inv: "wq_capacity s = 2 ^ k" "wq_end s \<le> wq_top s + wq_capacity s" "owner_inv s (wq_owner s)"
      "\<forall>i. thief_inv s (wq_thief s i)" by (rule wsq_invD [OF assms(1)])
  have cong: "thief_inv s' q = thief_inv s q" for q by (cases q) (simp_all add: s')
  have "owner_inv s' (wq_owner s')" using inv(3) s' by simp
  moreover have "\<forall>j. thief_inv s' (wq_thief s' j)" using inv(4) p by (simp add: cong) (simp add: s')
  ultimately show ?thesis using inv(1,2) by (simp add: wsq_inv_def wq_items_def s')
qed

lemma steal_good:
  assumes "wsq_inv s" "steal_at i (wq_thief s i) s = Some (l, s')" shows "wsq_good s l s'"
proof -
  obtain k where inv: "wq_capacity s = 2 ^ k" "wq_end s \<le> wq_top s + wq_capacity s" "owner_inv s (wq_owner s)"
      "\<forall>i. thief_inv s (wq_thief s i)" by (rule wsq_invD [OF assms(1)])
  have me: "thief_inv s (wq_thief s i)" using inv(4) by blast
  have moves: "wsq_good s l s'"
    if "s' = s\<lparr>wq_thief := (wq_thief s)(i := p)\<rparr>" "thief_inv s p"
      "l = Silent \<or> l = StealEmpty \<and> wq_bottom s \<le> wq_top s" for p
  proof -
    have "length (wq_items s) \<le> 1" if "wq_bottom s \<le> wq_top s"
      using that wq_end_bottom [OF inv(3)] by (auto simp: wq_items_def)
    then show ?thesis
      using thief_moves [OF assms(1) that(1,2)] that by (auto simp: wsq_good_def)
  qed
  show ?thesis
  proof (cases "wq_thief s i")
    case (StealBottom t)
    then show ?thesis
      using assms(2) me
      by (intro moves [of "if t \<ge> wq_bottom s then Away else StealLoop t"]) (auto simp: Let_def split: if_splits)
  next
    case (StealLoop t)
    then show ?thesis
      using assms(2) me
      by (intro moves [of "if t \<ge> wq_bottom s then Away else StealRead t"]) (auto simp: Let_def split: if_splits)
  next
    case (StealRead t)
    then show ?thesis
      using assms(2) me by (intro moves [of "StealCas t (wq_buffer s (slot s t))"]) auto
  next
    case (StealCas t val)
    show ?thesis
    proof (cases "wq_top s = t")
      case False
      then show ?thesis using StealCas assms(2) by (intro moves [of "StealLoop (wq_top s)"]) auto
    next
      case True
      then have s': "s' = s\<lparr>wq_top := t + 1, wq_thief := (wq_thief s)(i := Away)\<rparr>" "l = Stolen val"
        using StealCas assms(2) by auto
      have val: "wq_top s < wq_bottom s \<or> contested (wq_owner s) (wq_top s)" "val = wq_buffer s (slot s t)"
        using me StealCas True by auto
      have o: "owner_inv s' (wq_owner s') \<and> wq_top s < wq_end s"
        using s' True owner_inv_stolen [OF inv(3) val(1), of "(wq_thief s)(i := Away)"] by (simp add: wq_end_def)
      have "thief_inv s' (wq_thief s' j)" for j
        using s' True by (cases "j = i") (simp, intro thieves_old [OF inv(4)], simp_all)
      moreover have "wq_items s = val # wq_items s'"
        using o val(2) True s' items_Cons [of s] by (simp add: wq_items_def)
      ultimately show ?thesis
        using inv o s' True by (auto simp: wsq_good_def wsq_inv_def)
    qed
  qed (use assms(2) in auto)
qed

lemma owner_moves:
  assumes "wsq_inv s" "wq_owner s = Resting" "p = PopCheck (wq_bottom s) \<or> p = PushTop x (wq_bottom s)"
  shows "wsq_good s Silent (s\<lparr>wq_owner := p\<rparr>)"
proof -
  obtain k where inv: "wq_capacity s = 2 ^ k" "wq_end s \<le> wq_top s + wq_capacity s" "owner_inv s (wq_owner s)"
      "\<forall>i. thief_inv s (wq_thief s i)" by (rule wsq_invD [OF assms(1)])
  have "\<forall>i. thief_inv (s\<lparr>wq_owner := p\<rparr>) (wq_thief (s\<lparr>wq_owner := p\<rparr>) i)"
    using assms(2,3) by (intro thieves_keep [OF inv(4)]) auto
  then show ?thesis
    using inv assms(2,3) by (auto simp: wsq_good_def wsq_inv_def wq_items_def wq_end_def)
qed

lemma act_good:
  assumes "wsq_inv s" "wsq_act a s = Some (l, s')" shows "wsq_good s l s'"
proof (cases a)
  case (CallPush x)
  then show ?thesis
    using assms owner_moves [OF assms(1), of "PushTop x (wq_bottom s)" x]
    by (auto simp: push_call_def split: if_splits)
next
  case CallPop
  then show ?thesis
    using assms owner_moves [OF assms(1), of "PopCheck (wq_bottom s)"]
    by (auto simp: pop_call_def split: if_splits)
next
  case (CallSteal i)
  then show ?thesis
    using assms thief_moves [OF assms(1) refl, of "StealBottom (wq_top s)" i]
    by (auto simp: steal_call_def wsq_good_def split: if_splits)
next
  case Owner
  then show ?thesis
    using assms push_good [OF assms(1)] pop_good [OF assms(1)] by (auto split: option.splits)
next
  case (Thief i)
  then show ?thesis using assms steal_good [OF assms(1)] by auto
qed

subsection \<open>Runs\<close>

text \<open>A sequence of labels leads a deque from one contents to another.\<close>

primrec deque_trace :: "nat \<Rightarrow> 'a list \<Rightarrow> 'a label list \<Rightarrow> 'a list \<Rightarrow> bool" where
  "deque_trace cap xs [] ys \<longleftrightarrow> ys = xs"
| "deque_trace cap xs (l # ls) ys \<longleftrightarrow> (\<exists>zs. deque_step cap xs l zs \<and> deque_trace cap zs ls ys)"

lemma exec_good:
  assumes "wsq_inv s" "wsq_exec acts s = Some (ls, s')"
  shows "wsq_inv s' \<and> wq_capacity s' = wq_capacity s \<and> deque_trace (wq_capacity s) (wq_items s) ls (wq_items s')"
  using assms
proof (induction acts arbitrary: s ls)
  case (Cons a acts)
  obtain l s1 ls1 where step: "wsq_act a s = Some (l, s1)" "wsq_exec acts s1 = Some (ls1, s')" "ls = l # ls1"
    using Cons.prems(2) by (auto split: option.splits)
  have good: "wsq_good s l s1" by (rule act_good [OF Cons.prems(1) step(1)])
  then have "wsq_inv s1" by (simp add: wsq_good_def)
  from Cons.IH [OF this step(2)] good show ?case by (auto simp: wsq_good_def step(3))
qed simp

lemma and_pred_0:
  fixes c :: nat assumes "0 < c" shows "c AND (c - 1) = 0 \<longleftrightarrow> (\<exists>k. c = 2 ^ k)"
  using assms
proof (induction c rule: less_induct)
  case (less c)
  show ?case
  proof (cases "even c")
    case True
    then obtain d where d: "c = 2 * d" "0 < d" using less.prems by (auto elim: evenE)
    have half: "c div 2 = d" "(c - 1) div 2 = d - 1" using d by arith+
    have "c AND (c - 1) = 2 * (d AND (d - 1))"
      using True by (subst and_rec) (simp add: half [unfolded One_nat_def])
    moreover have "(\<exists>k. c = 2 ^ k) \<longleftrightarrow> (\<exists>k. d = 2 ^ k)"
    proof
      assume "\<exists>k. c = 2 ^ k"
      then obtain k where "c = 2 ^ k" ..
      with True d show "\<exists>k. d = 2 ^ k" by (cases k) auto
    next
      assume "\<exists>k. d = 2 ^ k"
      then obtain k where "d = 2 ^ k" ..
      then have "c = 2 ^ Suc k" using d by simp
      then show "\<exists>k. c = 2 ^ k" ..
    qed
    ultimately show ?thesis using less.IH [of d] d by simp
  next
    case False
    then obtain d where d: "c = 2 * d + 1" by (auto elim: oddE)
    have "c AND (c - 1) = 2 * d" using d by (subst and_rec) simp
    moreover have "(\<exists>k. c = 2 ^ k) \<longleftrightarrow> d = 0"
    proof
      assume "\<exists>k. c = 2 ^ k"
      then obtain k where "c = 2 ^ k" ..
      with False have "c = 1" by (cases k) auto
      then show "d = 0" using d by simp
    qed (auto intro: exI [of _ 0] simp: d)
    ultimately show ?thesis by simp
  qed
qed

lemma init_inv:
  assumes "wsq_init allocated cap (WorkStealingQueue junk) = (0, s)"
  shows "wsq_inv s \<and> wq_items s = [] \<and> wq_capacity s = cap"
  using assms and_pred_0 [of cap]
  by (auto simp: wsq_init_def WorkStealingQueue_def wsq_inv_def wq_items_def wq_end_def split: if_splits)




text \<open>The elements that a sequence of labels put into the queue and took from it.\<close>

fun pushed :: "'a label list \<Rightarrow> 'a list" where
  "pushed [] = []"
| "pushed (Pushed x # ls) = x # pushed ls"
| "pushed (_ # ls) = pushed ls"

fun taken :: "'a label list \<Rightarrow> 'a list" where
  "taken [] = []"
| "taken (Popped x # ls) = x # taken ls"
| "taken (Stolen x # ls) = x # taken ls"
| "taken (_ # ls) = taken ls"

lemma trace_mset:
  "deque_trace cap xs ls ys \<Longrightarrow> mset xs + mset (pushed ls) = mset (taken ls) + mset ys"
proof (induction ls arbitrary: xs)
  case (Cons l ls)
  then obtain zs where zs: "deque_step cap xs l zs" "deque_trace cap zs ls ys" by auto
  from Cons.IH [OF zs(2)] zs(1) show ?case by (cases l) auto
qed simp

text \<open>
  (C11) No element is lost and none is handed out twice: in every schedule the elements pushed are,
  with multiplicity, the elements popped by the owner or stolen by a thief together with those
  that are still in the queue.
\<close>

theorem wsq_exactly_once:
  assumes "wsq_init allocated cap (WorkStealingQueue junk) = (0, s0)" "wsq_exec acts s0 = Some (ls, s)"
  shows "mset (pushed ls) = mset (taken ls) + mset (wq_items s)"
proof -
  from init_inv [OF assms(1)] have init: "wsq_inv s0" "wq_items s0 = []" by auto
  from exec_good [OF init(1) assms(2)] init(2) have "deque_trace (wq_capacity s0) [] ls (wq_items s)" by simp
  from trace_mset [OF this] show ?thesis by simp
qed

text \<open>The owner and a thief compete for the only element.\<close>

theorem wsq_exactly_once_witness:
  "\<exists>s0 ls s. wsq_init True 1 (WorkStealingQueue (\<lambda>_. 0 :: nat)) = (0, s0) \<and>
     wsq_exec [CallPush 5, Owner, Owner, Owner, CallSteal 0, CallPop, Thief 0, Thief 0, Owner, Owner, Owner,
       Thief 0, Owner, Owner, Thief 0, Thief 0, Owner] s0 = Some (ls, s) \<and>
     taken ls = [5] \<and> mset (pushed ls) = mset (taken ls) + mset (wq_items s)"
proof -
  let ?acts = "[CallPush 5, Owner, Owner, Owner, CallSteal 0, CallPop, Thief 0, Thief 0, Owner, Owner, Owner,
    Thief 0, Owner, Owner, Thief 0, Thief 0, Owner] :: nat act list"
  let ?s0 = "snd (wsq_init True 1 (WorkStealingQueue (\<lambda>_. 0 :: nat)))"
  have init: "wsq_init True 1 (WorkStealingQueue (\<lambda>_. 0 :: nat)) = (0, ?s0)"
    by (simp add: wsq_init_def WorkStealingQueue_def)
  obtain ls s where run: "wsq_exec ?acts ?s0 = Some (ls, s)" "taken ls = [5]"
    by (simp add: wsq_init_def WorkStealingQueue_def push_call_def pop_call_def steal_call_def slot_def)
  from wsq_exactly_once [OF init run(1)] init run show ?thesis by blast
qed

subsection \<open>Operations finish\<close>

text \<open>
  The number of steps that an operation still needs if no compare-and-exchange of another thread
  succeeds in the meantime; a thief whose \<^verbatim>\<open>t\<close> is no longer the top has to go round its loop again.
\<close>

fun owner_left :: "'a owner \<Rightarrow> nat" where
  "owner_left Resting = 0"
| "owner_left (PushTop x b) = 3"
| "owner_left (PushWrite x b) = 2"
| "owner_left (PushPublish x b) = 1"
| "owner_left (PopCheck b) = 6"
| "owner_left (PopStore b) = 5"
| "owner_left (PopLoad b) = 4"
| "owner_left (PopUndo b) = 1"
| "owner_left (PopRead b t) = 3"
| "owner_left (PopCas b t val) = 2"
| "owner_left (PopReset b popped) = 1"

fun thief_left :: "nat \<Rightarrow> 'a thief \<Rightarrow> nat" where
  "thief_left now Away = 0"
| "thief_left now (StealBottom t) = 4 + (if t = now then 0 else 3)"
| "thief_left now (StealLoop t) = 3 + (if t = now then 0 else 3)"
| "thief_left now (StealRead t) = 2 + (if t = now then 0 else 3)"
| "thief_left now (StealCas t val) = 1 + (if t = now then 0 else 3)"

text \<open>
  The potential of a state with thieves \<open>0, \<dots>, N - 1\<close>: an operation that may still succeed at the top
  pays for the rounds that this costs the thieves.
\<close>

definition owner_pot :: "nat \<Rightarrow> 'a owner \<Rightarrow> nat" where
  "owner_pot N p = owner_left p + (if owner_left p \<le> 1 then 0 else 3 * N)"

definition thief_pot :: "nat \<Rightarrow> nat \<Rightarrow> 'a thief \<Rightarrow> nat" where
  "thief_pot N now p = thief_left now p + (if p = Away then 0 else 3 * N)"

definition wsq_pot :: "nat \<Rightarrow> 'a wsq \<Rightarrow> nat" where
  "wsq_pot N s = owner_pot N (wq_owner s) + (\<Sum>i<N. thief_pot N (wq_top s) (wq_thief s i))"

fun is_move :: "'a act \<Rightarrow> bool" where
  "is_move Owner \<longleftrightarrow> True"
| "is_move (Thief i) \<longleftrightarrow> True"
| "is_move _ \<longleftrightarrow> False"

lemma thief_pot_Away [simp]: "thief_pot N now Away = 0"
  by (simp add: thief_pot_def)

lemma thief_pot_top: "thief_pot N now' p \<le> thief_pot N now p + 3"
  by (cases p) (simp_all add: thief_pot_def)

lemma sum_pot_top: "(\<Sum>i<N. thief_pot M now' (g i)) \<le> (\<Sum>i<N. thief_pot M now (g i)) + 3 * N"
  using sum_mono [of "{..<N}" "\<lambda>i. thief_pot M now' (g i)" "\<lambda>i. thief_pot M now (g i) + 3"]
  by (simp add: thief_pot_top sum.distrib mult.commute)

lemma owner_pot_less:
  assumes "wsq_act Owner s = Some (l, s')"
  shows "wq_thief s' = wq_thief s \<and>
    (wq_top s' = wq_top s \<and> owner_pot N (wq_owner s') < owner_pot N (wq_owner s) \<or>
     owner_pot N (wq_owner s') + 3 * N < owner_pot N (wq_owner s))"
  using assms by (cases "wq_owner s") (auto simp: owner_pot_def Let_def split: if_splits)

lemma thief_pot_less:
  assumes "wsq_act (Thief i) s = Some (l, s')"
  shows "wq_owner s' = wq_owner s \<and> wq_thief s i \<noteq> Away \<and> wq_thief s' = (wq_thief s)(i := wq_thief s' i) \<and>
    (wq_top s' = wq_top s \<and> thief_pot N (wq_top s) (wq_thief s' i) < thief_pot N (wq_top s) (wq_thief s i) \<or>
     wq_thief s' i = Away \<and> 3 * N < thief_pot N (wq_top s) (wq_thief s i))"
  using assms by (cases "wq_thief s i") (auto simp: thief_pot_def Let_def split: if_splits)

lemma move_less:
  assumes "wsq_act a s = Some (l, s')" "is_move a" "\<forall>i\<ge>N. wq_thief s i = Away"
  shows "wsq_pot N s' < wsq_pot N s \<and> (\<forall>i\<ge>N. wq_thief s' i = Away)"
proof (cases a)
  case Owner
  from owner_pot_less [OF assms(1) [unfolded Owner], of N]
  show ?thesis
    using sum_pot_top [of N "wq_top s'" "wq_thief s" N "wq_top s"] assms(3) by (auto simp: wsq_pot_def)
next
  case (Thief i)
  let ?g = "wq_thief s"
  from thief_pot_less [OF assms(1) [unfolded Thief], of N] obtain p
    where p: "wq_owner s' = wq_owner s" "?g i \<noteq> Away" "wq_thief s' = ?g(i := p)"
      "wq_top s' = wq_top s \<and> thief_pot N (wq_top s) p < thief_pot N (wq_top s) (?g i) \<or>
       p = Away \<and> 3 * N < thief_pot N (wq_top s) (?g i)" by blast
  have i: "i < N" using p(2) assms(3) by (meson not_less)
  have split: "(\<Sum>j<N. thief_pot N now ((?g(i := q)) j)) =
      thief_pot N now q + (\<Sum>j\<in>{..<N} - {i}. thief_pot N now (?g j))" for now q
    using i by (simp add: sum.remove [of _ i])
  have old: "(\<Sum>j<N. thief_pot N (wq_top s) (?g j)) =
      thief_pot N (wq_top s) (?g i) + (\<Sum>j\<in>{..<N} - {i}. thief_pot N (wq_top s) (?g j))"
    using split [of "wq_top s" "?g i"] by simp
  have "(\<Sum>j\<in>{..<N} - {i}. thief_pot N (wq_top s') (?g j)) \<le>
      (\<Sum>j\<in>{..<N} - {i}. thief_pot N (wq_top s) (?g j)) + 3 * N" 
    using sum_mono [of "{..<N} - {i}" "\<lambda>j. thief_pot N (wq_top s') (?g j)" "\<lambda>j. thief_pot N (wq_top s) (?g j) + 3"] i
    by (simp add: thief_pot_top sum.distrib)
  then have "wsq_pot N s' < wsq_pot N s"
    using p(4) by (auto simp: wsq_pot_def p(1,3) split old simp del: fun_upd_apply)
  then show ?thesis using assms(3) p(3) i by auto
qed (use assms(2) in auto)

lemma exec_pot:
  assumes "wsq_exec acts s = Some (ls, s')" "list_all is_move acts" "\<forall>i\<ge>N. wq_thief s i = Away"
  shows "length acts + wsq_pot N s' \<le> wsq_pot N s"
  using assms
proof (induction acts arbitrary: s ls)
  case (Cons a acts)
  obtain l s1 ls1 where step: "wsq_act a s = Some (l, s1)" "wsq_exec acts s1 = Some (ls1, s')"
    using Cons.prems(1) by (auto split: option.splits)
  have less: "wsq_pot N s1 < wsq_pot N s" "\<forall>i\<ge>N. wq_thief s1 i = Away"
    using move_less [OF step(1) _ Cons.prems(3)] Cons.prems(2) by auto
  from Cons.IH [OF step(2) _ less(2)] less(1) Cons.prems(2) show ?case by simp
qed simp

lemma wsq_pot_bound: "wsq_pot N s \<le> (N + 1) * (3 * N + 7)"
proof -
  have "owner_pot N p \<le> 3 * N + 7" for p :: "'a owner"
    by (cases p) (simp_all add: owner_pot_def)
  moreover have "thief_pot N now p \<le> 3 * N + 7" for now and p :: "'a thief"
    by (cases p) (simp_all add: thief_pot_def)
  then have "(\<Sum>i<N. thief_pot N (wq_top s) (wq_thief s i)) \<le> N * (3 * N + 7)"
    using sum_bounded_above [of "{..<N}" "\<lambda>i. thief_pot N (wq_top s) (wq_thief s i)" "3 * N + 7"] by simp
  ultimately show ?thesis by (simp add: wsq_pot_def add_mono)
qed

lemma owner_stuck: "wsq_act Owner s = None \<longleftrightarrow> wq_owner s = Resting"
  by (cases "wq_owner s") (simp_all add: Let_def)

lemma thief_stuck: "wsq_act (Thief i) s = None \<longleftrightarrow> wq_thief s i = Away"
  by (cases "wq_thief s i") (simp_all add: Let_def)

text \<open>
  (C32) Operations finish: with \<open>N\<close> thieves, whatever state the queue is in and in whatever order the
  threads are scheduled, the operations that have been called take at most
  \<open>(N + 1) * (3 * N + 7)\<close> more steps together, the rounds of the loop of \<^verbatim>\<open>steal\<close> included; and as long
  as one of them has not returned, some thread can take a step.
\<close>

theorem wsq_operations_finish:
  assumes "wsq_exec acts s = Some (ls, s')" "list_all is_move acts" "\<forall>i\<ge>N. wq_thief s i = Away"
  shows "length acts \<le> (N + 1) * (3 * N + 7) \<and>
    ((\<forall>a. is_move a \<longrightarrow> wsq_act a s' = None) \<longleftrightarrow> wq_owner s' = Resting \<and> (\<forall>i. wq_thief s' i = Away))"
proof
  show "length acts \<le> (N + 1) * (3 * N + 7)" using exec_pot [OF assms] wsq_pot_bound [of N s] by linarith
  have "(\<forall>a. is_move a \<longrightarrow> P a) \<longleftrightarrow> P Owner \<and> (\<forall>i. P (Thief i))" for P :: "'a act \<Rightarrow> bool"
    by (metis is_move.simps act.exhaust)
  then show "(\<forall>a. is_move a \<longrightarrow> wsq_act a s' = None) \<longleftrightarrow>
    wq_owner s' = Resting \<and> (\<forall>i. wq_thief s' i = Away)"
    by (simp add: owner_stuck thief_stuck del: wsq_act.simps)
qed

text \<open>Two thieves compete for one element: the loser goes round its loop once.\<close>

theorem wsq_operations_finish_witness:
  "\<exists>ls s'. let s = (WorkStealingQueue (\<lambda>_. 5 :: nat))\<lparr>wq_bottom := 2, wq_capacity := 1,
       wq_thief := (\<lambda>_. Away)(0 := StealLoop 1, 1 := StealLoop 1)\<rparr>;
     acts = [Thief 0, Thief 1, Thief 0, Thief 1, Thief 0, Thief 1, Thief 1] in
     wsq_exec acts s = Some (ls, s') \<and> length acts \<le> (2 + 1) * (3 * 2 + 7) \<and>
     (\<forall>a. is_move a \<longrightarrow> wsq_act a s' = None)"
proof -
  let ?s = "(WorkStealingQueue (\<lambda>_. 5 :: nat))\<lparr>wq_bottom := 2, wq_capacity := 1,
    wq_thief := (\<lambda>_. Away)(0 := StealLoop 1, 1 := StealLoop 1)\<rparr>"
  let ?acts = "[Thief 0, Thief 1, Thief 0, Thief 1, Thief 0, Thief 1, Thief 1] :: nat act list"
  obtain ls s' where run: "wsq_exec ?acts ?s = Some (ls, s')" "wq_owner s' = Resting" "\<forall>i. wq_thief s' i = Away"
    by (simp add: WorkStealingQueue_def slot_def)
  have "list_all is_move ?acts" "\<forall>i\<ge>2. wq_thief ?s i = Away" by (simp_all add: WorkStealingQueue_def)
  from wsq_operations_finish [OF run(1) this] run show ?thesis by (simp only: Let_def) blast
qed

end
