(* ===== verification/Numbers.thy ===== *)
theory Numbers
  imports Ascii Word_Bits "HOL-Library.Signed_Division"
begin

text \<open>
  Integers and their decimal form (src/flare/strings/numbers.h, numbers.cc): the printing functions
  \<^verbatim>\<open>fast_int_to_buffer\<close>, which write two digits at a time, and the parser behind \<^verbatim>\<open>simple_atoi\<close>.
  Characters are bytes; a buffer is the list of bytes written so far, without the final NUL, and a
  \<^verbatim>\<open>string_view\<close> is a list of bytes (a null view is refused as the empty one is).  Integers are unbounded, with
  the reductions of the code written out; an operation whose result may not fit its type goes
  through \<open>narrow\<close>.
\<close>

subsection \<open>Model: printing\<close>

definition ascii_digit :: "nat \<Rightarrow> byte" where
  "ascii_digit d = word_of_nat (48 + d)"

text \<open>The tables hold the characters of these digits.\<close>

definition two_ASCII_digits :: "bytes list" where
  "two_ASCII_digits = map (\<lambda>(a, b). [ascii_digit a, ascii_digit b])
     [(0, 0), (0, 1), (0, 2), (0, 3), (0, 4), (0, 5), (0, 6), (0, 7), (0, 8), (0, 9),
      (1, 0), (1, 1), (1, 2), (1, 3), (1, 4), (1, 5), (1, 6), (1, 7), (1, 8), (1, 9),
      (2, 0), (2, 1), (2, 2), (2, 3), (2, 4), (2, 5), (2, 6), (2, 7), (2, 8), (2, 9),
      (3, 0), (3, 1), (3, 2), (3, 3), (3, 4), (3, 5), (3, 6), (3, 7), (3, 8), (3, 9),
      (4, 0), (4, 1), (4, 2), (4, 3), (4, 4), (4, 5), (4, 6), (4, 7), (4, 8), (4, 9),
      (5, 0), (5, 1), (5, 2), (5, 3), (5, 4), (5, 5), (5, 6), (5, 7), (5, 8), (5, 9),
      (6, 0), (6, 1), (6, 2), (6, 3), (6, 4), (6, 5), (6, 6), (6, 7), (6, 8), (6, 9),
      (7, 0), (7, 1), (7, 2), (7, 3), (7, 4), (7, 5), (7, 6), (7, 7), (7, 8), (7, 9),
      (8, 0), (8, 1), (8, 2), (8, 3), (8, 4), (8, 5), (8, 6), (8, 7), (8, 8), (8, 9),
      (9, 0), (9, 1), (9, 2), (9, 3), (9, 4), (9, 5), (9, 6), (9, 7), (9, 8), (9, 9)]"

definition one_ASCII_final_digits :: "bytes list" where
  "one_ASCII_final_digits = map (\<lambda>a. [ascii_digit a]) [0, 1, 2, 3, 4, 5, 6, 7, 8, 9]"

definition put_two_digits :: "nat \<Rightarrow> bytes \<Rightarrow> bytes run" where
  "put_two_digits i buf = (if i < 100 then Inr (buf @ two_ASCII_digits ! i) else Inl Undefined)"

definition put_final_digit :: "nat \<Rightarrow> bytes \<Rightarrow> bytes run" where
  "put_final_digit i buf = (if i < 10 then Inr (buf @ one_ASCII_final_digits ! i) else Inl Undefined)"

text \<open>The labels of the printing function of \<^verbatim>\<open>uint32_t\<close>.\<close>

definition lt100 :: "nat \<Rightarrow> bytes \<Rightarrow> bytes run" where
  "lt100 i buf = put_two_digits i buf"

definition lt10_000 :: "nat \<Rightarrow> bytes \<Rightarrow> bytes run" where
  "lt10_000 i buf = (let digits = i div 100 in bindE (put_two_digits digits buf) (lt100 (i - digits * 100)))"

definition lt1_000_000 :: "nat \<Rightarrow> bytes \<Rightarrow> bytes run" where
  "lt1_000_000 i buf =
     (let digits = i div 10000 in bindE (put_two_digits digits buf) (lt10_000 (i - digits * 10000)))"

definition lt100_000_000 :: "nat \<Rightarrow> bytes \<Rightarrow> bytes run" where
  "lt100_000_000 i buf =
     (let digits = i div 1000000 in bindE (put_two_digits digits buf) (lt1_000_000 (i - digits * 1000000)))"

definition fast_uint32_to_buffer :: "nat \<Rightarrow> bytes \<Rightarrow> bytes run" where
  "fast_uint32_to_buffer i buf =
     (if i \<ge> 1000000000
      then let digits = i div 100000000 in bindE (put_two_digits digits buf) (lt100_000_000 (i - digits * 100000000))
      else if i < 100
      then if i \<ge> 10 then lt100 i buf else put_final_digit i buf
      else if i < 10000
      then if i \<ge> 1000 then lt10_000 i buf
           else let digits = i div 100 in lt100 (i - digits * 100) (buf @ [ascii_digit digits])
      else if i < 1000000
      then if i \<ge> 100000 then lt1_000_000 i buf
           else let digits = i div 10000 in lt10_000 (i - digits * 10000) (buf @ [ascii_digit digits])
      else if i < 100000000
      then if i \<ge> 10000000 then lt100_000_000 i buf
           else let digits = i div 1000000 in lt1_000_000 (i - digits * 1000000) (buf @ [ascii_digit digits])
      else let digits = i div 100000000 in lt100_000_000 (i - digits * 100000000) (buf @ [ascii_digit digits]))"

definition fast_int32_to_buffer :: "int \<Rightarrow> bytes \<Rightarrow> bytes run" where
  "fast_int32_to_buffer i buf =
     (let u = nat (i mod 2 ^ 32) in
      if i < 0 then fast_uint32_to_buffer ((2 ^ 32 - u) mod 2 ^ 32) (buf @ [0x2D]) else fast_uint32_to_buffer u buf)"

text \<open>
  In the printing function of \<^verbatim>\<open>uint64_t\<close> the product \<^verbatim>\<open>top_8to9 * 100\<close> is one of \<^verbatim>\<open>uint32_t\<close>, which wraps
  around, and the difference one of \<^verbatim>\<open>uint64_t\<close>.
\<close>

definition fast_uint64_to_buffer :: "nat \<Rightarrow> bytes \<Rightarrow> bytes run" where
  "fast_uint64_to_buffer i buf =
     (let u32 = i mod 2 ^ 32 in
      if u32 = i then fast_uint32_to_buffer u32 buf
      else
        let top_1to11 = i div 1000000000;
            u32 = (i - top_1to11 * 1000000000) mod 2 ^ 32;
            top_1to11_32 = top_1to11 mod 2 ^ 32 in
        bindE (if top_1to11_32 = top_1to11 then fast_uint32_to_buffer top_1to11_32 buf
               else
                 let top_8to9 = (top_1to11 div 100) mod 2 ^ 32;
                     mid_2 = nat ((int top_1to11 - int (top_8to9 * 100 mod 2 ^ 32)) mod 2 ^ 64 mod 2 ^ 32) in
                 bindE (fast_uint32_to_buffer top_8to9 buf) (put_two_digits mid_2))
          (\<lambda>buf. let digits = u32 div 10000000; u32 = u32 - digits * 10000000 in
           bindE (put_two_digits digits buf) (\<lambda>buf.
           let digits = u32 div 100000; u32 = u32 - digits * 100000 in
           bindE (put_two_digits digits buf) (\<lambda>buf.
           let digits = u32 div 1000; u32 = u32 - digits * 1000 in
           bindE (put_two_digits digits buf) (\<lambda>buf.
           let digits = u32 div 10; u32 = u32 - digits * 10 in
           bindE (put_two_digits digits buf) (put_final_digit u32))))))"

definition fast_int64_to_buffer :: "int \<Rightarrow> bytes \<Rightarrow> bytes run" where
  "fast_int64_to_buffer i buf =
     (let u = nat (i mod 2 ^ 64) in
      if i < 0 then fast_uint64_to_buffer ((2 ^ 64 - u) mod 2 ^ 64) (buf @ [0x2D]) else fast_uint64_to_buffer u buf)"

subsection \<open>Model: parsing\<close>

text \<open>
  The template argument \<^verbatim>\<open>IntType\<close> is the pair of its limits.  The result of a computation in the
  type: out of the limits it is reduced for an unsigned type, and undefined for a signed one.
\<close>

type_synonym int_type = "int \<times> int"

definition narrow :: "int_type \<Rightarrow> int \<Rightarrow> int run" where
  "narrow ty v =
     (if fst ty \<le> v \<and> v \<le> snd ty then Inr v
      else if fst ty = 0 then Inr (v mod (snd ty + 1)) else Inl Undefined)"

definition kAsciiToInt :: "int list" where
  "kAsciiToInt =
     [
      36, 36, 36, 36, 36, 36, 36, 36, 36, 36, 36, 36, 36, 36, 36, 36,
      36, 36, 36, 36, 36, 36, 36, 36, 36, 36, 36, 36, 36, 36, 36, 36, 36, 36, 36,
      36, 36, 36, 36, 36, 36, 36, 36, 36, 36, 36, 36, 36, 0, 1, 2, 3, 4, 5,
      6, 7, 8, 9, 36, 36, 36, 36, 36, 36, 36, 10, 11, 12, 13, 14, 15, 16, 17,
      18, 19, 20, 21, 22, 23, 24, 25, 26, 27, 28, 29, 30, 31, 32, 33, 34, 35, 36,
      36, 36, 36, 36, 36, 10, 11, 12, 13, 14, 15, 16, 17, 18, 19, 20, 21, 22, 23,
      24, 25, 26, 27, 28, 29, 30, 31, 32, 33, 34, 35, 36, 36, 36, 36, 36, 36, 36,
      36, 36, 36, 36, 36, 36, 36, 36, 36, 36, 36, 36, 36, 36, 36, 36, 36, 36, 36,
      36, 36, 36, 36, 36, 36, 36, 36, 36, 36, 36, 36, 36, 36, 36, 36, 36, 36, 36,
      36, 36, 36, 36, 36, 36, 36, 36, 36, 36, 36, 36, 36, 36, 36, 36, 36, 36, 36,
      36, 36, 36, 36, 36, 36, 36, 36, 36, 36, 36, 36, 36, 36, 36, 36, 36, 36, 36,
      36, 36, 36, 36, 36, 36, 36, 36, 36, 36, 36, 36, 36, 36, 36, 36, 36, 36, 36,
      36, 36, 36, 36, 36, 36, 36, 36, 36, 36, 36, 36, 36, 36, 36, 36, 36, 36, 36,
      36, 36, 36, 36, 36, 36, 36, 36, 36, 36, 36, 36]"

definition safe_parse_sign_and_base :: "bytes \<Rightarrow> int \<Rightarrow> (bytes \<times> int \<times> bool) option" where
  "safe_parse_sign_and_base text base =
     (let text = rev (dropWhile is_space (rev (dropWhile is_space text))) in
      if text = [] then None
      else
        let negative = (hd text = 0x2D);
            text = (if negative \<or> hd text = 0x2B then tl text else text) in
        if text = [] then None
        else
          let hex = (length text \<ge> 2 \<and> hd text = 0x30 \<and> (text ! 1 = 0x78 \<or> text ! 1 = 0x58)) in
          if base = 0
          then if hex then (if length text = 2 then None else Some (drop 2 text, 16, negative))
               else if hd text = 0x30 then Some (tl text, 8, negative)
               else Some (text, 10, negative)
          else if base = 16
          then if hex then (if length text = 2 then None else Some (drop 2 text, 16, negative))
               else Some (text, 16, negative)
          else if base \<ge> 2 \<and> base \<le> 36 then Some (text, base, negative)
          else None)"

definition X_OVER_BASE_INITIALIZER :: "int \<Rightarrow> int list" where
  "X_OVER_BASE_INITIALIZER X = [0, 0] @ map (\<lambda>b. X sdiv b) [2..36]"

fun positive_loop :: "int_type \<Rightarrow> int \<Rightarrow> bytes \<Rightarrow> int \<Rightarrow> (bool \<times> int) run" where
  "positive_loop ty base [] val = Inr (True, val)"
| "positive_loop ty base (c # text) val =
     (let digit = kAsciiToInt ! unat c; vmax = snd ty in
      if digit \<ge> base then Inr (False, val)
      else if val > X_OVER_BASE_INITIALIZER vmax ! nat base then Inr (False, vmax)
      else bindE (narrow ty (val * base)) (\<lambda>val.
        if val > vmax - digit then Inr (False, vmax)
        else bindE (narrow ty (val + digit)) (positive_loop ty base text)))"

definition safe_parse_positive_int :: "int_type \<Rightarrow> bytes \<Rightarrow> int \<Rightarrow> (bool \<times> int) run" where
  "safe_parse_positive_int ty text base = positive_loop ty base text 0"

fun negative_loop :: "int_type \<Rightarrow> int \<Rightarrow> int \<Rightarrow> bytes \<Rightarrow> int \<Rightarrow> (bool \<times> int) run" where
  "negative_loop ty base vmin_over_base [] val = Inr (True, val)"
| "negative_loop ty base vmin_over_base (c # text) val =
     (let digit = kAsciiToInt ! unat c; vmin = fst ty in
      if digit \<ge> base then Inr (False, val)
      else if val < vmin_over_base then Inr (False, vmin)
      else bindE (narrow ty (val * base)) (\<lambda>val.
        if val < vmin + digit then Inr (False, vmin)
        else bindE (narrow ty (val - digit)) (negative_loop ty base vmin_over_base text)))"

definition safe_parse_negative_int :: "int_type \<Rightarrow> bytes \<Rightarrow> int \<Rightarrow> (bool \<times> int) run" where
  "safe_parse_negative_int ty text base =
     (let vmin_over_base = X_OVER_BASE_INITIALIZER (fst ty) ! nat base;
          vmin_over_base = (if fst ty smod base > 0 then vmin_over_base + 1 else vmin_over_base) in
      negative_loop ty base vmin_over_base text 0)"

text \<open>The returned flag and the value stored through the pointer.\<close>

definition safe_int_internal :: "int_type \<Rightarrow> bytes \<Rightarrow> int \<Rightarrow> (bool \<times> int) run" where
  "safe_int_internal ty text base =
     (case safe_parse_sign_and_base text base of None \<Rightarrow> Inr (False, 0)
      | Some (text, base, negative) \<Rightarrow>
          if \<not> negative then safe_parse_positive_int ty text base else safe_parse_negative_int ty text base)"

definition safe_uint_internal :: "int_type \<Rightarrow> bytes \<Rightarrow> int \<Rightarrow> (bool \<times> int) run" where
  "safe_uint_internal ty text base =
     (case safe_parse_sign_and_base text base of None \<Rightarrow> Inr (False, 0)
      | Some (text, base, negative) \<Rightarrow> if negative then Inr (False, 0) else safe_parse_positive_int ty text base)"

definition safe_strto32_base :: "bytes \<Rightarrow> int \<Rightarrow> (bool \<times> int) run" where
  "safe_strto32_base = safe_int_internal (- (2 ^ 31), 2 ^ 31 - 1)"

definition safe_strto64_base :: "bytes \<Rightarrow> int \<Rightarrow> (bool \<times> int) run" where
  "safe_strto64_base = safe_int_internal (- (2 ^ 63), 2 ^ 63 - 1)"

definition safe_strtou32_base :: "bytes \<Rightarrow> int \<Rightarrow> (bool \<times> int) run" where
  "safe_strtou32_base = safe_uint_internal (0, 2 ^ 32 - 1)"

definition safe_strtou64_base :: "bytes \<Rightarrow> int \<Rightarrow> (bool \<times> int) run" where
  "safe_strtou64_base = safe_uint_internal (0, 2 ^ 64 - 1)"

definition safe_strtou128_base :: "bytes \<Rightarrow> int \<Rightarrow> (bool \<times> int) run" where
  "safe_strtou128_base = safe_uint_internal (0, 2 ^ 128 - 1)"

definition safe_strtoi_base :: "bool \<Rightarrow> bool \<Rightarrow> bytes \<Rightarrow> int \<Rightarrow> (bool \<times> int) run" where
  "safe_strtoi_base is_signed is_64 s base =
     (if is_signed then if is_64 then safe_strto64_base s base else safe_strto32_base s base
      else if is_64 then safe_strtou64_base s base else safe_strtou32_base s base)"

definition simple_atoi :: "bool \<Rightarrow> bool \<Rightarrow> bytes \<Rightarrow> (bool \<times> int) run" where
  "simple_atoi is_signed is_64 str = safe_strtoi_base is_signed is_64 str 10"

subsection \<open>Decimal digits\<close>

fun decimal :: "nat \<Rightarrow> bytes" where
  "decimal n = (if n < 10 then [ascii_digit n] else decimal (n div 10) @ [ascii_digit (n mod 10)])"

declare decimal.simps [simp del]

text \<open>The last \<open>k\<close> digits, with leading zeros.\<close>

fun padded :: "nat \<Rightarrow> nat \<Rightarrow> bytes" where
  "padded 0 n = []"
| "padded (Suc k) n = padded k (n div 10) @ [ascii_digit (n mod 10)]"

lemma padded_add: "padded (a + b) n = padded a (n div 10 ^ b) @ padded b (n mod 10 ^ b)"
proof (induction b arbitrary: n)
  case (Suc b)
  have "n div 10 div 10 ^ b = n div 10 ^ Suc b" by (simp add: div_mult2_eq)
  moreover have "n div 10 mod 10 ^ b = n mod 10 ^ Suc b div 10" "n mod 10 ^ Suc b mod 10 = n mod 10"
    by (simp_all add: mod_mult2_eq mod_mod_cancel)
  ultimately show ?case using Suc.IH [of "n div 10"] by simp
qed simp

lemma decimal_split:
  "10 ^ b \<le> n \<Longrightarrow> decimal n = decimal (n div 10 ^ b) @ padded b (n mod 10 ^ b)"
proof (induction b arbitrary: n)
  case (Suc b)
  have "10 \<le> (10 :: nat) ^ Suc b" using power_increasing [of 1 "Suc b" "10 :: nat"] by simp
  then have "10 \<le> n" using Suc.prems by (rule le_trans)
  moreover have "10 ^ b \<le> n div 10" using Suc.prems by (simp add: less_eq_div_iff_mult_less_eq)
  ultimately have big: "10 ^ b \<le> n div 10" "\<not> n < 10" by simp_all
  have "n div 10 div 10 ^ b = n div 10 ^ Suc b" by (simp add: div_mult2_eq)
  moreover have "n div 10 mod 10 ^ b = n mod 10 ^ Suc b div 10" "n mod 10 ^ Suc b mod 10 = n mod 10"
    by (simp_all add: mod_mult2_eq mod_mod_cancel)
  ultimately show ?case
    using Suc.IH [OF big(1)] big(2) by (subst decimal.simps) simp
qed simp

lemma decimal_digit: "n < 10 \<Longrightarrow> decimal n = padded 1 n"
  by (simp add: decimal.simps)

lemma decimal_padded:
  assumes "10 ^ k \<le> n" "n < 10 ^ Suc k" shows "decimal n = padded (Suc k) n"
proof -
  have "n div 10 ^ k < 10" using assms(2) by (simp add: less_mult_imp_div_less)
  then show ?thesis
    using decimal_split [OF assms(1)] padded_add [of 1 k n] by (simp add: decimal_digit)
qed

lemma two_ASCII_digits: "i < 100 \<Longrightarrow> two_ASCII_digits ! i = padded 2 i"
proof -
  assume i: "i < 100"
  have table: "two_ASCII_digits = map (\<lambda>i. [ascii_digit (i div 10), ascii_digit (i mod 10)]) [0..<100]"
    by (simp add: two_ASCII_digits_def upt_rec) (simp add: eval_nat_numeral)
  show ?thesis using i by (subst table) (simp add: numeral_2_eq_2)
qed

lemma put_two_digits_eq [simp]: "i < 100 \<Longrightarrow> put_two_digits i buf = Inr (buf @ padded 2 i)"
  by (simp add: put_two_digits_def two_ASCII_digits)

lemma put_final_digit_eq [simp]: "i < 10 \<Longrightarrow> put_final_digit i buf = Inr (buf @ padded 1 i)"
proof -
  assume i: "i < 10"
  have table: "one_ASCII_final_digits = map (\<lambda>i. [ascii_digit i]) [0..<10]"
    by (simp add: one_ASCII_final_digits_def upt_rec) (simp add: eval_nat_numeral)
  show ?thesis using i by (simp add: put_final_digit_def) (subst table, simp)
qed

lemma minus_div_mult: "(i :: nat) - i div k * k = i mod k"
  by (simp add: minus_div_mult_eq_mod)

lemma padded_two_more: "padded 2 (i div 10 ^ k) @ padded k (i mod 10 ^ k) = padded (k + 2) i"
  using padded_add [of 2 k i] by (simp add: add.commute)

lemma lt100_eq: "i < 100 \<Longrightarrow> lt100 i buf = Inr (buf @ padded 2 i)"
  by (simp add: lt100_def)

lemma lt10_000_eq: "i < 10000 \<Longrightarrow> lt10_000 i buf = Inr (buf @ padded 4 i)"
  using padded_two_more [of i 2] by (simp add: lt10_000_def minus_div_mult lt100_eq)

lemma lt1_000_000_eq: "i < 1000000 \<Longrightarrow> lt1_000_000 i buf = Inr (buf @ padded 6 i)"
  using padded_two_more [of i 4] by (simp add: lt1_000_000_def minus_div_mult lt10_000_eq)

lemma lt100_000_000_eq: "i < 100000000 \<Longrightarrow> lt100_000_000 i buf = Inr (buf @ padded 8 i)"
  using padded_two_more [of i 6] by (simp add: lt100_000_000_def minus_div_mult lt1_000_000_eq)

lemma fast_uint32_eq:
  assumes "i < 2 ^ 32" shows "fast_uint32_to_buffer i buf = Inr (buf @ decimal i)"
proof -
  have one_more: "[ascii_digit (i div 10 ^ k)] @ padded k (i mod 10 ^ k) = decimal i"
    if "10 ^ k \<le> i" "i < 10 ^ Suc k" for k
    using decimal_split [OF that(1)] that(2) by (simp add: decimal_digit less_mult_imp_div_less)
  have two_more: "padded 2 (i div 10 ^ k) @ padded k (i mod 10 ^ k) = decimal i"
    if "10 ^ Suc k \<le> i" "i < 10 ^ Suc (Suc k)" for k
    using decimal_padded [OF that] padded_two_more [of i k] by simp
  consider "i < 10" | "10 \<le> i" "i < 100" | "100 \<le> i" "i < 1000" | "1000 \<le> i" "i < 10000"
    | "10000 \<le> i" "i < 100000" | "100000 \<le> i" "i < 1000000" | "1000000 \<le> i" "i < 10000000"
    | "10000000 \<le> i" "i < 100000000" | "100000000 \<le> i" "i < 1000000000" | "1000000000 \<le> i" by linarith
  then show ?thesis
  proof cases
    case 1
    then show ?thesis by (simp add: fast_uint32_to_buffer_def decimal_digit)
  next
    case 2
    then show ?thesis using decimal_padded [of 1 i] by (simp add: fast_uint32_to_buffer_def lt100_eq numeral_2_eq_2)
  next
    case 3
    then show ?thesis
      using one_more [of 2] by (simp add: fast_uint32_to_buffer_def minus_div_mult lt100_eq)
  next
    case 4
    then show ?thesis using decimal_padded [of 3 i] by (simp add: fast_uint32_to_buffer_def lt10_000_eq)
  next
    case 5
    then show ?thesis
      using one_more [of 4] by (simp add: fast_uint32_to_buffer_def minus_div_mult lt10_000_eq)
  next
    case 6
    then show ?thesis using decimal_padded [of 5 i] by (simp add: fast_uint32_to_buffer_def lt1_000_000_eq)
  next
    case 7
    then show ?thesis
      using one_more [of 6] by (simp add: fast_uint32_to_buffer_def minus_div_mult lt1_000_000_eq)
  next
    case 8
    then show ?thesis using decimal_padded [of 7 i] by (simp add: fast_uint32_to_buffer_def lt100_000_000_eq)
  next
    case 9
    then show ?thesis
      using one_more [of 8] by (simp add: fast_uint32_to_buffer_def minus_div_mult lt100_000_000_eq)
  next
    case 10
    then show ?thesis
      using two_more [of 8] assms by (simp add: fast_uint32_to_buffer_def minus_div_mult lt100_000_000_eq)
  qed
qed

text \<open>The negation in unsigned arithmetic.\<close>

lemma negated_mod:
  assumes "- (2 ^ k) \<le> i" "i < 0"
  shows "(2 ^ k - nat (i mod 2 ^ k)) mod 2 ^ k = nat \<bar>i\<bar> mod (2 :: nat) ^ k"
proof (cases "i = - (2 ^ k)")
  case False
  then have "i mod 2 ^ k = i + 2 ^ k"
    using assms mod_pos_pos_trivial [of "i + 2 ^ k" "2 ^ k"] by simp
  moreover have "P - nat (i + int P) = nat \<bar>i\<bar>" if "- int P \<le> i" for P using that assms(2) by arith
  from this [of "2 ^ k"] have "2 ^ k - nat (i + 2 ^ k) = nat \<bar>i\<bar>" using assms(1) by simp
  ultimately have "2 ^ k - nat (i mod 2 ^ k) = nat \<bar>i\<bar>" by simp
  then show ?thesis by simp
qed (simp add: nat_power_eq)

lemma fast_int32_eq:
  assumes "- (2 ^ 31) \<le> i" "i < 2 ^ 31"
  shows "fast_int32_to_buffer i buf = Inr (buf @ (if i < 0 then [0x2D] else []) @ decimal (nat \<bar>i\<bar>))"
proof -
  have "nat \<bar>i\<bar> < 2 ^ 32" using assms by (simp add: nat_less_iff)
  moreover have "i mod 2 ^ 32 = i" if "\<not> i < 0" using that assms by (intro mod_pos_pos_trivial) auto
  ultimately show ?thesis
    using negated_mod [of 32 i] assms by (auto simp: fast_int32_to_buffer_def Let_def fast_uint32_eq)
qed

lemma low_digits:
  assumes "u < 1000000000"
  shows "bindE (put_two_digits (u div 10000000) buf) (\<lambda>buf.
    bindE (put_two_digits (u mod 10000000 div 100000) buf) (\<lambda>buf.
    bindE (put_two_digits (u mod 10000000 mod 100000 div 1000) buf) (\<lambda>buf.
    bindE (put_two_digits (u mod 10000000 mod 100000 mod 1000 div 10) buf) 
      (put_final_digit (u mod 10000000 mod 100000 mod 1000 mod 10))))) = Inr (buf @ padded 9 u)"
proof -
  have "padded 9 u = padded 2 (u div 10000000) @ padded 7 (u mod 10000000)"
    "padded 7 v = padded 2 (v div 100000) @ padded 5 (v mod 100000)"
    "padded 5 v = padded 2 (v div 1000) @ padded 3 (v mod 1000)"
    "padded 3 v = padded 2 (v div 10) @ padded 1 (v mod 10)" for v
    using padded_add [of 2 7 u] padded_add [of 2 5 v] padded_add [of 2 3 v] padded_add [of 2 1 v] by simp_all
  moreover have "u div 10000000 < 100" "v mod 10000000 div 100000 < 100" "v mod 100000 div 1000 < 100"
    "v mod 1000 div 10 < 100" for v :: nat
    using assms by (simp_all add: less_mult_imp_div_less)
  ultimately show ?thesis by (simp del: One_nat_def)
qed

lemma fast_uint64_eq:
  assumes "i < 2 ^ 64" shows "fast_uint64_to_buffer i buf = Inr (buf @ decimal i)"
proof (cases "i < 2 ^ 32")
  case True
  then show ?thesis by (simp add: fast_uint64_to_buffer_def fast_uint32_eq)
next
  case False
  let ?top = "i div 1000000000" let ?low = "i mod 1000000000"
  have top: "bindE (if ?top mod 2 ^ 32 = ?top then fast_uint32_to_buffer (?top mod 2 ^ 32) buf
      else let top_8to9 = (?top div 100) mod 2 ^ 32;
               mid_2 = nat ((int ?top - int (top_8to9 * 100 mod 2 ^ 32)) mod 2 ^ 64 mod 2 ^ 32) in
           bindE (fast_uint32_to_buffer top_8to9 buf) (put_two_digits mid_2)) f = f (buf @ decimal ?top)" for f
  proof (cases "?top < 2 ^ 32")
    case True
    show ?thesis by (simp only: mod_less [OF True] if_True refl fast_uint32_eq [OF True] bindE.simps)
  next
    case big: False
    have t: "?top div 100 < 2 ^ 32" 
      using assms less_mult_imp_div_less [of i "2 ^ 32" "1000000000 * 100"] by (simp add: div_mult2_eq)
    have "(int ?top - int (?top div 100 * 100 mod 2 ^ 32)) mod 2 ^ 64 mod 2 ^ 32 =
        (int ?top - int (?top div 100 * 100)) mod 2 ^ 32"
      by (simp add: mod_mod_cancel zmod_int mod_diff_right_eq)
    also have "int ?top - int (?top div 100 * 100) = int (?top mod 100)"
      using minus_div_mult_eq_mod [of "int ?top" 100] by (simp add: zmod_int zdiv_int)
    also have "int (?top mod 100) mod 2 ^ 32 = int (?top mod 100)" by (intro mod_pos_pos_trivial) simp_all
    finally have mid: "nat ((int ?top - int (?top div 100 * 100 mod 2 ^ 32)) mod 2 ^ 64 mod 2 ^ 32) = ?top mod 100"
      by simp
    have ne: "(?top mod 2 ^ 32 = ?top) = False" using big by (metis mod_less_divisor zero_less_numeral zero_less_power)
    have two: "?top mod 100 < 100" by simp
    have "decimal ?top = decimal (?top div 100) @ padded 2 (?top mod 100)"
      using decimal_split [of 2 ?top] big by simp
    then show ?thesis
      by (simp only: ne if_False Let_def mod_less [OF t] mid fast_uint32_eq [OF t] put_two_digits_eq [OF two]
          bindE.simps append_assoc)
  qed
  have "?low < 1000000000" by simp
  moreover from this have "?low mod 2 ^ 32 = ?low" by (intro mod_less) simp
  ultimately have low: "?low < 1000000000" "?low mod 2 ^ 32 = ?low" .
  have "decimal i = decimal ?top @ padded 9 ?low" using decimal_split [of 9 i] False by simp
  moreover have wide: "(i mod 2 ^ 32 = i) = False" using False by simp
  have "fast_uint64_to_buffer i buf = Inr ((buf @ decimal ?top) @ padded 9 ?low)"
    by (simp only: fast_uint64_to_buffer_def Let_def minus_div_mult wide if_False low(2) top [unfolded Let_def]
        low_digits [OF low(1)])
  ultimately show ?thesis by simp
qed

lemma fast_int64_eq:
  assumes "- (2 ^ 63) \<le> i" "i < 2 ^ 63"
  shows "fast_int64_to_buffer i buf = Inr (buf @ (if i < 0 then [0x2D] else []) @ decimal (nat \<bar>i\<bar>))"
proof -
  have "nat \<bar>i\<bar> < 2 ^ 64" using assms by (simp add: nat_less_iff)
  moreover have "i mod 2 ^ 64 = i" if "\<not> i < 0" using that assms by (intro mod_pos_pos_trivial) auto
  ultimately show ?thesis
    using negated_mod [of 64 i] assms by (auto simp: fast_int64_to_buffer_def Let_def fast_uint64_eq)
qed

text \<open>
  (C34) All four printing functions write exactly the decimal digits, after a minus sign for a
  negative number, for every value of their type; in particular they never read outside of the
  tables of digits.
\<close>

theorem fast_int_to_buffer_decimal:
  assumes "u < 2 ^ 32" "v < 2 ^ 64" "- (2 ^ 31) \<le> i" "i < 2 ^ 31" "- (2 ^ 63) \<le> j" "j < 2 ^ 63"
  shows "fast_uint32_to_buffer u buf = Inr (buf @ decimal u) \<and>
    fast_uint64_to_buffer v buf = Inr (buf @ decimal v) \<and>
    fast_int32_to_buffer i buf = Inr (buf @ (if i < 0 then [0x2D] else []) @ decimal (nat \<bar>i\<bar>)) \<and>
    fast_int64_to_buffer j buf = Inr (buf @ (if j < 0 then [0x2D] else []) @ decimal (nat \<bar>j\<bar>))"
  by (intro conjI fast_uint32_eq fast_uint64_eq fast_int32_eq fast_int64_eq assms)

theorem fast_int_to_buffer_decimal_witness:
  "fast_uint64_to_buffer 18446744073709551615 [] = Inr (decimal 18446744073709551615) \<and>
   fast_int32_to_buffer (- 2147483648) [] = Inr (0x2D # decimal 2147483648)"
  using fast_int_to_buffer_decimal [of 0 18446744073709551615 "- 2147483648" 0 "[]"] by simp

subsection \<open>Values of digits\<close>

definition digits_value :: "int \<Rightarrow> int \<Rightarrow> int list \<Rightarrow> int" where
  "digits_value base v ds = foldl (\<lambda>v d. v * base + d) v ds"

definition digit_at :: "byte \<Rightarrow> int" where
  "digit_at c = kAsciiToInt ! unat c"

lemma length_kAsciiToInt: "length kAsciiToInt = 256"
  by (simp add: kAsciiToInt_def)

lemma digit_at_bounds: "0 \<le> digit_at c \<and> digit_at c \<le> 36"
proof -
  have "\<forall>d\<in>set kAsciiToInt. 0 \<le> d \<and> d \<le> 36" by (simp add: kAsciiToInt_def)
  moreover have "unat c < length kAsciiToInt" using unat_byte_less [of c] by (simp add: length_kAsciiToInt)
  ultimately show ?thesis unfolding digit_at_def by (meson nth_mem)
qed

lemma unat_ascii_digit: "d < 10 \<Longrightarrow> unat (ascii_digit d) = 48 + d"
  unfolding ascii_digit_def by (rule unat_of_nat_less) simp

lemma digit_at_ascii: "d < 10 \<Longrightarrow> digit_at (ascii_digit d) = int d"
proof -
  assume d: "d < 10"
  then have "unat (ascii_digit d) = 48 + d" by (rule unat_ascii_digit)
  moreover have "\<forall>d<10. kAsciiToInt ! (48 + d) = int d"
    by (simp add: kAsciiToInt_def All_less_Suc numeral_eq_Suc)
  ultimately show ?thesis using d by (simp add: digit_at_def)
qed

lemma X_OVER_BASE: "2 \<le> b \<Longrightarrow> b \<le> 36 \<Longrightarrow> X_OVER_BASE_INITIALIZER X ! nat b = X sdiv b"
proof -
  assume b: "2 \<le> b" "b \<le> 36"
  then have "X_OVER_BASE_INITIALIZER X ! nat b = map (\<lambda>b. X sdiv b) [2..36] ! nat (b - 2)"
    by (simp add: X_OVER_BASE_INITIALIZER_def nth_append nat_diff_distrib numeral_2_eq_2 del: upto.simps)
  also have "\<dots> = X sdiv ([2..36] ! nat (b - 2))" using b by (intro nth_map) simp
  also have "[2..36] ! nat (b - 2) = b" using b by (subst nth_upto) auto
  finally show ?thesis .
qed

lemma digits_value_ge:
  "1 \<le> base \<Longrightarrow> 0 \<le> v \<Longrightarrow> \<forall>d\<in>set ds. 0 \<le> d \<Longrightarrow> v \<le> digits_value base v ds"
proof (induction ds arbitrary: v)
  case (Cons d ds)
  have "v * 1 \<le> v * base" using Cons.prems by (intro mult_left_mono) auto
  then have "v \<le> v * base + d" using Cons.prems by simp
  also have "\<dots> \<le> digits_value base (v * base + d) ds" using Cons.prems \<open>v \<le> v * base + d\<close> by (intro Cons.IH) auto
  finally show ?case by (simp add: digits_value_def)
qed (simp add: digits_value_def)

text \<open>
  What the parser makes of the characters after the sign: the digits up to the first that is not
  one, and their value, cut off at the limit of the type.
\<close>

definition parsed :: "int \<Rightarrow> int \<Rightarrow> int \<Rightarrow> bytes \<Rightarrow> bool \<times> int" where
  "parsed limit base v text =
     (let ds = takeWhile (\<lambda>d. d < base) (map digit_at text); v = digits_value base v ds in
      if v > limit then (False, limit) else (length ds = length text, v))"

lemma parsed_simps:
  "parsed limit base v [] = (if v > limit then (False, limit) else (True, v))"
  "digit_at c \<ge> base \<Longrightarrow> v \<le> limit \<Longrightarrow> parsed limit base v (c # text) = (False, v)"
  "digit_at c < base \<Longrightarrow> parsed limit base v (c # text) = parsed limit base (v * base + digit_at c) text"
  by (auto simp: parsed_def digits_value_def Let_def)

lemma parsed_overflow:
  assumes "limit < v" "1 \<le> base" "0 \<le> v" shows "parsed limit base v text = (False, limit)"
proof -
  have "v \<le> digits_value base v (takeWhile (\<lambda>d. d < base) (map digit_at text))"
    using assms(2,3) by (intro digits_value_ge) (auto dest!: set_takeWhileD simp: digit_at_bounds)
  then show ?thesis using assms(1) by (simp add: parsed_def Let_def)
qed

lemma le_div_int: "0 < c \<Longrightarrow> v \<le> m div c \<longleftrightarrow> v * c \<le> (m :: int)"
proof
  assume "0 < c" "v \<le> m div c"
  then have "v * c \<le> m div c * c" by (intro mult_right_mono) auto
  also have "\<dots> \<le> m" using div_mult_mod_eq [of m c] pos_mod_sign [OF \<open>0 < c\<close>, of m] by linarith
  finally show "v * c \<le> m" .
next
  assume "0 < c" "v * c \<le> m"
  then show "v \<le> m div c" using zdiv_mono1 [of "v * c" m c] by simp
qed

lemma positive_loop_eq:
  assumes "2 \<le> base" "base \<le> 36" "fst ty \<le> 0" "0 \<le> v" "v \<le> snd ty"
  shows "positive_loop ty base cs v = Inr (parsed (snd ty) base v cs)"
  using assms(4,5)
proof (induction cs arbitrary: v)
  case Nil
  then show ?case by (simp add: parsed_simps)
next
  case (Cons c cs)
  let ?d = "digit_at c" and ?vmax = "snd ty"
  have d: "0 \<le> ?d" using digit_at_bounds [of c] by simp
  have over: "X_OVER_BASE_INITIALIZER ?vmax ! nat base = ?vmax div base"
    using assms(1,2) Cons.prems by (simp add: X_OVER_BASE signed_divide_int_def sgn_if)
  have nonneg: "0 \<le> v * base" using Cons.prems(1) assms(1) by simp
  show ?case
  proof (cases "?d < base")
    case False
    then show ?thesis using Cons.prems by (simp add: parsed_simps flip: digit_at_def)
  next
    case digit: True
    consider "?vmax div base < v" | "v \<le> ?vmax div base" "?vmax < v * base + ?d"
      | "v \<le> ?vmax div base" "v * base + ?d \<le> ?vmax" by linarith
    then show ?thesis
    proof cases
      case 1
      then have "?vmax < v * base" using le_div_int [of base v ?vmax] assms(1) by linarith
      then have "parsed ?vmax base v (c # cs) = (False, ?vmax)"
        using digit d nonneg assms(1) by (simp add: parsed_simps parsed_overflow)
      then show ?thesis using 1 digit by (simp add: over flip: digit_at_def)
    next
      case 2
      then have "v * base \<le> ?vmax" using le_div_int [of base v ?vmax] assms(1) by linarith
      then have "narrow ty (v * base) = Inr (v * base)" using nonneg assms(3) by (simp add: narrow_def)
      moreover have "parsed ?vmax base v (c # cs) = (False, ?vmax)"
        using 2 digit d nonneg assms(1) by (simp add: parsed_simps parsed_overflow)
      ultimately show ?thesis using 2 digit by (simp add: over flip: digit_at_def)
    next
      case 3
      then have "narrow ty (v * base) = Inr (v * base)" "narrow ty (v * base + ?d) = Inr (v * base + ?d)"
        using nonneg d assms(3) by (simp_all add: narrow_def)
      then show ?thesis
        using 3 digit d nonneg Cons.IH [of "v * base + ?d"] by (simp add: over parsed_simps flip: digit_at_def)
    qed
  qed
qed

lemma negative_loop_eq:
  assumes "2 \<le> base" "base \<le> 36" "0 \<le> snd ty" "fst ty < 0" "0 \<le> v" "v \<le> - fst ty"
  shows "negative_loop ty base (- ((- fst ty) div base)) cs (- v) =
    Inr (map_prod id uminus (parsed (- fst ty) base v cs))"
  using assms(5,6)
proof (induction cs arbitrary: v)
  case Nil
  then show ?case by (simp add: parsed_simps)
next
  case (Cons c cs)
  let ?d = "digit_at c" and ?lim = "- fst ty"
  have d: "0 \<le> ?d" using digit_at_bounds [of c] by simp
  have nonneg: "0 \<le> v * base" using Cons.prems(1) assms(1) by simp
  note le_div = le_div_int [of base v ?lim]
  show ?case
  proof (cases "?d < base")
    case False
    then show ?thesis using Cons.prems by (simp add: parsed_simps flip: digit_at_def)
  next
    case digit: True
    consider "?lim div base < v" | "v \<le> ?lim div base" "?lim < v * base + ?d"
      | "v \<le> ?lim div base" "v * base + ?d \<le> ?lim" by linarith
    then show ?thesis
    proof cases
      case 1
      then have "?lim < v * base" using le_div assms(1) by linarith
      then have "parsed ?lim base v (c # cs) = (False, ?lim)"
        using digit d nonneg assms(1) by (simp add: parsed_simps parsed_overflow)
      then show ?thesis using 1 digit by (simp flip: digit_at_def)
    next
      case 2
      then have "v * base \<le> ?lim" using le_div assms(1) by linarith
      then have "narrow ty (- (v * base)) = Inr (- (v * base))" using nonneg assms(3) by (simp add: narrow_def)
      moreover have "parsed ?lim base v (c # cs) = (False, ?lim)"
        using 2 digit d nonneg assms(1) by (simp add: parsed_simps parsed_overflow)
      ultimately show ?thesis using 2 digit by (simp flip: digit_at_def)
    next
      case 3
      then have "narrow ty (- (v * base)) = Inr (- (v * base))" "narrow ty (- (v * base) - ?d) = Inr (- (v * base + ?d))"
        using nonneg d assms(3) by (simp_all add: narrow_def)
      then show ?thesis
        using 3 digit d nonneg Cons.IH [of "v * base + ?d"] by (simp add: parsed_simps flip: digit_at_def)
    qed
  qed
qed

lemma safe_parse_positive_eq:
  assumes "2 \<le> base" "base \<le> 36" "fst ty \<le> 0" "0 \<le> snd ty"
  shows "safe_parse_positive_int ty cs base = Inr (parsed (snd ty) base 0 cs)"
  using positive_loop_eq [OF assms(1-3)] assms(4) by (simp add: safe_parse_positive_int_def)

lemma safe_parse_negative_eq:
  assumes "2 \<le> base" "base \<le> 36" "fst ty < 0" "0 \<le> snd ty"
  shows "safe_parse_negative_int ty cs base = Inr (map_prod id uminus (parsed (- fst ty) base 0 cs))"
proof -
  have quot: "fst ty sdiv base = - ((- fst ty) div base)"
    using assms(1,3) by (simp add: signed_divide_int_def sgn_if)
  moreover have "\<not> fst ty smod base > 0"
    using assms(1,3) by (simp add: signed_modulo_int_def sgn_if not_less)
  ultimately show ?thesis
    using negative_loop_eq [OF assms(1,2,4,3), of 0 cs] assms(1-3)
    by (simp add: safe_parse_negative_int_def X_OVER_BASE)
qed

lemma sign_and_base_base:
  "safe_parse_sign_and_base txt base = Some (cs, b, negative) \<Longrightarrow> 2 \<le> b \<and> b \<le> 36"
  by (auto simp: safe_parse_sign_and_base_def Let_def split: if_splits)

text \<open>The meaning of the signed and of the unsigned parser.\<close>

definition signed_value :: "int_type \<Rightarrow> bytes \<Rightarrow> int \<Rightarrow> bool \<times> int" where
  "signed_value ty txt base =
     (case safe_parse_sign_and_base txt base of None \<Rightarrow> (False, 0)
      | Some (cs, b, negative) \<Rightarrow>
          if negative then map_prod id uminus (parsed (- fst ty) b 0 cs) else parsed (snd ty) b 0 cs)"

definition unsigned_value :: "int_type \<Rightarrow> bytes \<Rightarrow> int \<Rightarrow> bool \<times> int" where
  "unsigned_value ty txt base =
     (case safe_parse_sign_and_base txt base of None \<Rightarrow> (False, 0)
      | Some (cs, b, negative) \<Rightarrow> if negative then (False, 0) else parsed (snd ty) b 0 cs)"

lemma safe_int_internal_eq:
  assumes "fst ty < 0" "0 \<le> snd ty" shows "safe_int_internal ty txt base = Inr (signed_value ty txt base)"
  using assms
  by (auto simp: safe_int_internal_def signed_value_def safe_parse_positive_eq safe_parse_negative_eq
      dest: sign_and_base_base split: option.split)

lemma safe_uint_internal_eq:
  assumes "fst ty \<le> 0" "0 \<le> snd ty" shows "safe_uint_internal ty txt base = Inr (unsigned_value ty txt base)"
  using assms
  by (auto simp: safe_uint_internal_def unsigned_value_def safe_parse_positive_eq
      dest: sign_and_base_base split: option.split)


subsection \<open>Round trip\<close>

lemma decimal_chars: "c \<in> set (decimal n) \<Longrightarrow> \<exists>d<10. c = ascii_digit d"
proof (induction n rule: decimal.induct)
  case (1 n)
  show ?case
  proof (cases "n < 10")
    case False
    with 1 show ?thesis by (subst (asm) decimal.simps) (auto intro: exI [of _ "n mod 10"])
  qed (use 1 in \<open>auto simp: decimal.simps\<close>)
qed

lemma decimal_not_Nil [simp]: "decimal n \<noteq> []"
  by (subst decimal.simps) simp

lemma digit_char_not:
  assumes "d < 10" shows "\<not> is_space (ascii_digit d)" "ascii_digit d \<noteq> 0x2D" "ascii_digit d \<noteq> 0x2B"
proof -
  have u: "unat (ascii_digit d) = 48 + d" by (rule unat_ascii_digit [OF assms])
  then show "\<not> is_space (ascii_digit d)" by (simp add: is_space_iff)
  show "ascii_digit d \<noteq> 0x2D" "ascii_digit d \<noteq> 0x2B" using u by auto
qed

lemma decimal_value: "digits_value 10 0 (map digit_at (decimal n)) = int n"
proof (induction n rule: decimal.induct)
  case (1 n)
  show ?case
  proof (cases "n < 10")
    case True
    then show ?thesis by (simp add: decimal.simps digits_value_def digit_at_ascii)
  next
    case False
    with 1 show ?thesis
      by (subst decimal.simps) (simp add: digits_value_def digit_at_ascii zdiv_int zmod_int)
  qed
qed

lemma decimal_all_digits: "\<forall>x\<in>set (map digit_at (decimal n)). x < 10"
  using decimal_chars digit_at_ascii by fastforce

lemma parsed_decimal:
  "parsed limit 10 0 (decimal n) = (if int n > limit then (False, limit) else (True, int n))"
proof -
  have "takeWhile (\<lambda>d. d < 10) (map digit_at (decimal n)) = map digit_at (decimal n)"
    using decimal_all_digits by (intro takeWhile_eq_all_conv [THEN iffD2]) blast
  then show ?thesis by (simp only: parsed_def Let_def decimal_value length_map simp_thms)
qed

text \<open>Blanks around the printed number are skipped.\<close>

lemma strip_blanks:
  assumes "list_all is_space ws" "list_all is_space ws'" "xs \<noteq> []" "\<not> is_space (hd xs)" "\<not> is_space (last xs)"
  shows "rev (dropWhile is_space (rev (dropWhile is_space (ws @ xs @ ws')))) = xs"
proof -
  have "dropWhile is_space (ws @ ys) = dropWhile is_space ys" if "list_all is_space ws" for ws ys
    using that by (induction ws) simp_all
  moreover have "dropWhile is_space (xs @ ws') = xs @ ws'" using assms(3,4) by (cases xs) simp_all
  moreover have "dropWhile is_space (rev xs) = rev xs" using assms(3,5) by (cases xs rule: rev_cases) simp_all
  ultimately show ?thesis using assms(1,2) by simp
qed

lemma sign_and_base_decimal:
  assumes "list_all is_space ws" "list_all is_space ws'"
  shows "safe_parse_sign_and_base (ws @ (if neg then [0x2D] else []) @ decimal n @ ws') 10 = Some (decimal n, 10, neg)"
proof -
  let ?xs = "(if neg then [0x2D] else []) @ decimal n"
  have hd: "\<exists>d<10. hd (decimal n) = ascii_digit d" "\<exists>d<10. last (decimal n) = ascii_digit d"
    using decimal_chars [of "hd (decimal n)" n] decimal_chars [of "last (decimal n)" n] by simp_all
  have "rev (dropWhile is_space (rev (dropWhile is_space (ws @ ?xs @ ws')))) = ?xs"
    using hd by (intro strip_blanks [OF assms]) (auto simp: unat_ascii_digit is_space_iff)
  then show ?thesis
    using hd by (auto simp: safe_parse_sign_and_base_def digit_char_not Let_def)
qed

lemma printed_parsed:
  assumes "list_all is_space ws" "list_all is_space ws'" "fst ty < 0" "fst ty \<le> i" "i \<le> snd ty"
  shows "signed_value ty (ws @ ((if i < 0 then [0x2D] else []) @ decimal (nat \<bar>i\<bar>)) @ ws') 10 = (True, i)"
  using assms(3-5) by (auto simp: signed_value_def sign_and_base_decimal [OF assms(1,2)] parsed_decimal)

lemma printed_parsed_unsigned:
  assumes "list_all is_space ws" "list_all is_space ws'" "int n \<le> snd ty"
  shows "unsigned_value ty (ws @ decimal n @ ws') 10 = (True, int n)"
  using assms(3) sign_and_base_decimal [OF assms(1,2), of False n] by (simp add: unsigned_value_def parsed_decimal)

text \<open>
  (C36) Every value of the four integer types that is printed by \<^verbatim>\<open>fast_int_to_buffer\<close> is read back by
  \<^verbatim>\<open>simple_atoi\<close>, also with white space around it.
\<close>

theorem simple_atoi_round_trip:
  assumes "u < 2 ^ 32" "v < 2 ^ 64" "- (2 ^ 31) \<le> i" "i < 2 ^ 31" "- (2 ^ 63) \<le> j" "j < 2 ^ 63"
    "list_all is_space ws" "list_all is_space ws'"
  shows "bindE (fast_uint32_to_buffer u []) (\<lambda>s. simple_atoi False False (ws @ s @ ws')) = Inr (True, int u) \<and>
    bindE (fast_uint64_to_buffer v []) (\<lambda>s. simple_atoi False True (ws @ s @ ws')) = Inr (True, int v) \<and>
    bindE (fast_int32_to_buffer i []) (\<lambda>s. simple_atoi True False (ws @ s @ ws')) = Inr (True, i) \<and>
    bindE (fast_int64_to_buffer j []) (\<lambda>s. simple_atoi True True (ws @ s @ ws')) = Inr (True, j)"
proof (intro conjI)
  note defs = simple_atoi_def safe_strtoi_base_def
  have u: "int u < 2 ^ 32" using assms(1) by simp
  have v: "int v < 2 ^ 64" using assms(2) by simp
  show "bindE (fast_uint32_to_buffer u []) (\<lambda>s. simple_atoi False False (ws @ s @ ws')) = Inr (True, int u)"
    using u printed_parsed_unsigned [OF assms(7,8), of u "(0, 2 ^ 32 - 1)"]
    by (simp add: fast_uint32_eq [OF assms(1)] defs safe_strtou32_base_def safe_uint_internal_eq)
  show "bindE (fast_uint64_to_buffer v []) (\<lambda>s. simple_atoi False True (ws @ s @ ws')) = Inr (True, int v)"
    using v printed_parsed_unsigned [OF assms(7,8), of v "(0, 2 ^ 64 - 1)"]
    by (simp add: fast_uint64_eq [OF assms(2)] defs safe_strtou64_base_def safe_uint_internal_eq)
  show "bindE (fast_int32_to_buffer i []) (\<lambda>s. simple_atoi True False (ws @ s @ ws')) = Inr (True, i)"
    using printed_parsed [OF assms(7,8), of "(- (2 ^ 31), 2 ^ 31 - 1)" i] assms(3,4)
    by (simp add: fast_int32_eq [OF assms(3,4)] defs safe_strto32_base_def safe_int_internal_eq)
  show "bindE (fast_int64_to_buffer j []) (\<lambda>s. simple_atoi True True (ws @ s @ ws')) = Inr (True, j)"
    using printed_parsed [OF assms(7,8), of "(- (2 ^ 63), 2 ^ 63 - 1)" j] assms(5,6)
    by (simp add: fast_int64_eq [OF assms(5,6)] defs safe_strto64_base_def safe_int_internal_eq)
qed

text \<open>The limits of the types, with a blank before the number.\<close>

theorem simple_atoi_round_trip_witness:
  "bindE (fast_uint64_to_buffer 18446744073709551615 []) (\<lambda>s. simple_atoi False True ([0x20] @ s)) =
     Inr (True, 18446744073709551615) \<and>
   bindE (fast_int32_to_buffer (- 2147483648) []) (\<lambda>s. simple_atoi True False ([0x20] @ s)) = Inr (True, - 2147483648)"
  using simple_atoi_round_trip [of 0 18446744073709551615 "- 2147483648" 0 "[0x20]" "[]"]
  by (simp add: is_space_iff)

end
